(* ===== verification/Arango_Prelude.thy ===== *)
theory Arango_Prelude
  imports Complex_Main "HOL-Library.Char_ord" "HOL-Library.List_Lexorder" "HOL-Library.AList" "HOL-Library.Multiset"
begin

text \<open>
  Shared vocabulary of the development: the scanning loops that the comparison functions are made
  of, the laws of a three-way comparison as a locale, and lemmas on lists and association lists.
\<close>

named_theorems aql_simps \<open>characteristic equations of the AQL runtime functions\<close>
named_theorems typeweight_simps \<open>evaluation of type weights\<close>

subsection \<open>Loops that return at the first hit\<close>

text \<open>
  \<open>for (i = 0; i < n; ++i) { r = f(keys[i]); if (r !== 0) return r; } return 0;\<close> and its variant with
  \<open>null\<close> for "go on". The congruence rules let the functions that recurse through them terminate.
\<close>

fun first_nonzero :: "('k \<Rightarrow> int) \<Rightarrow> 'k list \<Rightarrow> int" where
  "first_nonzero f [] = 0"
| "first_nonzero f (k # ks) = (let r = f k in if r \<noteq> 0 then r else first_nonzero f ks)"

fun first_some :: "('k \<Rightarrow> 'a option) \<Rightarrow> 'k list \<Rightarrow> 'a option" where
  "first_some f [] = None"
| "first_some f (k # ks) = (case f k of None \<Rightarrow> first_some f ks | Some r \<Rightarrow> Some r)"

lemma first_nonzero_cong [fundef_cong]:
  "ks = ks' \<Longrightarrow> (\<And>k. k \<in> set ks' \<Longrightarrow> f k = g k) \<Longrightarrow> first_nonzero f ks = first_nonzero g ks'"
  by (induction ks arbitrary: ks') (auto simp: Let_def)

lemma first_some_cong [fundef_cong]:
  "ks = ks' \<Longrightarrow> (\<And>k. k \<in> set ks' \<Longrightarrow> f k = g k) \<Longrightarrow> first_some f ks = first_some g ks'"
  by (induction ks arbitrary: ks') (auto split: option.split)

lemma first_nonzero_zero_iff [simp]: "first_nonzero f ks = 0 \<longleftrightarrow> (\<forall>k \<in> set ks. f k = 0)"
  by (induction ks) (auto simp: Let_def)

lemma first_nonzero_zeroI: "(\<And>k. k \<in> set ks \<Longrightarrow> f k = 0) \<Longrightarrow> first_nonzero f ks = 0"
  by simp

lemma first_nonzero_append:
  "first_nonzero f (xs @ ys) = (let r = first_nonzero f xs in if r \<noteq> 0 then r else first_nonzero f ys)"
  by (induction xs) (auto simp: Let_def)

lemma first_nonzero_map: "first_nonzero f (map h ks) = first_nonzero (f \<circ> h) ks"
  by (induction ks) (auto simp: Let_def)

lemma first_some_map: "first_some f (map h ks) = first_some (f \<circ> h) ks"
  by (induction ks) (auto split: option.split)

lemma first_some_None_iff: "first_some f ks = None \<longleftrightarrow> (\<forall>k \<in> set ks. f k = None)"
  by (induction ks) (auto split: option.splits)

lemma first_nonzero_filter: "first_nonzero f (filter (\<lambda>k. f k \<noteq> 0) ks) = first_nonzero f ks"
  by (induction ks) (auto simp: Let_def)

lemma first_nonzero_remdups_adj: "first_nonzero f (remdups_adj ks) = first_nonzero f ks"
  by (induction ks rule: remdups_adj.induct) (auto simp: Let_def)

lemma first_nonzero_neg_iff:
  assumes "\<And>k. k \<in> set ks \<Longrightarrow> (f k \<le> 0 \<longleftrightarrow> 0 \<le> g k) \<and> (0 \<le> f k \<longleftrightarrow> g k \<le> 0)"
  shows "first_nonzero f ks \<le> 0 \<longleftrightarrow> 0 \<le> first_nonzero g ks"
  using assms
proof (induction ks)
  case (Cons k ks)
  from Cons.prems have "(f k \<le> 0 \<longleftrightarrow> 0 \<le> g k) \<and> (0 \<le> f k \<longleftrightarrow> g k \<le> 0)" by simp
  moreover from Cons have "first_nonzero f ks \<le> 0 \<longleftrightarrow> 0 \<le> first_nonzero g ks" by simp
  ultimately show ?case by (auto simp: Let_def)
qed simp

text \<open>The scan of a sorted list depends on the set of keys at which \<open>f\<close> is not zero only.\<close>

lemma sorted_distinct_remdups_adj: "sorted ks \<Longrightarrow> distinct (remdups_adj ks)"
  by (induction ks rule: remdups_adj.induct) (auto simp: order.antisym)

lemma sorted_remdups_adj_eq:
  assumes "sorted ks" shows "remdups_adj ks = sorted_list_of_set (set ks)"
  using assms by (intro sorted_distinct_set_unique) (auto simp: sorted_distinct_remdups_adj sorted_remdups_adj)

lemma first_nonzero_sort:
  "first_nonzero f (sort ks) = first_nonzero f (sorted_list_of_set (set ks))"
  by (metis first_nonzero_remdups_adj set_sort sorted_remdups_adj_eq sorted_sort)

lemma first_nonzero_sorted_subset:
  assumes "finite B" "A \<subseteq> B" "\<And>k. k \<in> B - A \<Longrightarrow> f k = 0"
  shows "first_nonzero f (sorted_list_of_set A) = first_nonzero f (sorted_list_of_set B)"
proof -
  have fin: "finite A" using assms(1,2) finite_subset by blast
  have "filter (\<lambda>k. f k \<noteq> 0) (sorted_list_of_set A) = filter (\<lambda>k. f k \<noteq> 0) (sorted_list_of_set B)"
    using assms fin by (intro sorted_distinct_set_unique) (auto simp: sorted_wrt_filter)
  then show ?thesis by (metis first_nonzero_filter)
qed

lemma first_nonzero_upt_extend:
  assumes "n \<le> m" "\<And>k. n \<le> k \<Longrightarrow> k < m \<Longrightarrow> f k = 0"
  shows "first_nonzero f [0..<n] = first_nonzero f [0..<m]"
proof -
  have "[0..<m] = [0..<n] @ [n..<m]" using assms(1) by (metis le0 upt_add_eq_append le_add_diff_inverse)
  moreover have "first_nonzero f [n..<m] = 0" using assms(2) by simp
  ultimately show ?thesis by (simp add: first_nonzero_append Let_def del: first_nonzero_zero_iff)
qed

text \<open>
  Lexicographic transitivity: where the three comparisons of every key are consistent with an
  order, so are the three scans.
\<close>

definition cmp_triangle :: "int \<Rightarrow> int \<Rightarrow> int \<Rightarrow> bool" where
  "cmp_triangle a b c \<longleftrightarrow>
     (a \<le> 0 \<and> b \<le> 0 \<longrightarrow> c \<le> 0) \<and> (b \<le> 0 \<and> 0 \<le> c \<longrightarrow> 0 \<le> a) \<and> (0 \<le> c \<and> a \<le> 0 \<longrightarrow> 0 \<le> b)"

lemma first_nonzero_trans:
  assumes "\<And>k. k \<in> set ks \<Longrightarrow> cmp_triangle (f k) (g k) (h k)"
    and "first_nonzero f ks \<le> 0" and "first_nonzero g ks \<le> 0"
  shows "first_nonzero h ks \<le> 0"
  using assms
proof (induction ks)
  case (Cons k ks)
  from Cons.prems(1) have t: "cmp_triangle (f k) (g k) (h k)" by simp
  show ?case
  proof (cases "h k = 0")
    case True
    with t Cons.prems(2,3) have "f k = 0 \<and> g k = 0"
      by (auto simp: cmp_triangle_def Let_def split: if_splits)
    with Cons True show ?thesis by (simp add: Let_def)
  next
    case False
    with t Cons.prems(2,3) show ?thesis
      by (auto simp: cmp_triangle_def Let_def split: if_splits)
  qed
qed simp

subsection \<open>The contract of a three-way comparison\<close>

text \<open>
  What a comparison function promises to the sorting and searching code that calls it: the sign of
  the result is antisymmetric and \<open>cmp x y \<le> 0\<close> is transitive.
\<close>

locale comparator =
  fixes cmp :: "'a \<Rightarrow> 'a \<Rightarrow> int"
  assumes cmp_sym: "cmp x y \<le> 0 \<longleftrightarrow> 0 \<le> cmp y x"
    and cmp_trans: "cmp x y \<le> 0 \<Longrightarrow> cmp y z \<le> 0 \<Longrightarrow> cmp x z \<le> 0"
begin

lemma refl [simp]: "cmp x x = 0"
  using cmp_sym [of x x] by linarith

lemma less_iff: "cmp x y < 0 \<longleftrightarrow> 0 < cmp y x"
  using cmp_sym [of x y] cmp_sym [of y x] by linarith

lemma zero_sym: "cmp x y = 0 \<longleftrightarrow> cmp y x = 0"
  using cmp_sym [of x y] cmp_sym [of y x] by linarith

lemma total: "cmp x y \<le> 0 \<or> cmp y x \<le> 0"
  using cmp_sym [of x y] by linarith

lemma less_le_trans: "cmp x y < 0 \<Longrightarrow> cmp y z \<le> 0 \<Longrightarrow> cmp x z < 0"
  using cmp_trans [of x y z] cmp_trans [of y z x] cmp_sym [of x z] cmp_sym [of x y] cmp_sym [of z x] cmp_sym [of y x]
  by linarith

lemma le_less_trans: "cmp x y \<le> 0 \<Longrightarrow> cmp y z < 0 \<Longrightarrow> cmp x z < 0"
  using cmp_trans [of x y z] cmp_trans [of z x y] cmp_sym [of x z] cmp_sym [of y z] cmp_sym [of z x] cmp_sym [of z y]
  by linarith

lemma zero_trans: "cmp x y = 0 \<Longrightarrow> cmp y z = 0 \<Longrightarrow> cmp x z = 0"
  using cmp_trans [of x y z] cmp_trans [of z y x] cmp_sym [of x y] cmp_sym [of y z] cmp_sym [of z x] zero_sym
  by (metis dual_order.eq_iff)

lemma triangle: "cmp_triangle (cmp x y) (cmp y z) (cmp x z)"
  unfolding cmp_triangle_def
  using cmp_trans [of x y z] cmp_trans [of y z x] cmp_trans [of z x y]
    cmp_sym [of z x] cmp_sym [of y x] cmp_sym [of z y] by blast

end

subsection \<open>Comparison by code units\<close>

text \<open>
  The order of JavaScript strings under \<open><\<close> and in \<open>Array.prototype.sort\<close> without a comparison
  function: lexicographic by code unit.
\<close>

definition code_unit_cmp :: "string \<Rightarrow> string \<Rightarrow> int" where
  "code_unit_cmp s t = (if s < t then - 1 else if t < s then 1 else 0)"

interpretation code_unit: comparator code_unit_cmp
  by unfold_locales (auto simp: code_unit_cmp_def split: if_splits)

lemma code_unit_cmp_zero: "code_unit_cmp s t = 0 \<longleftrightarrow> s = t"
  by (auto simp: code_unit_cmp_def)

lemma upto_Suc_shift: "map ((+) 1) [0..n] = [1..n + (1 :: int)]"
  by (rule nth_equalityI) auto

subsection \<open>Sorting by a comparator\<close>

text \<open>
  \<open>Array.prototype.sort\<close> with a comparison function, as an insertion sort. The code sorts only
  with comparators that are zero on indistinguishable elements, so every sorting algorithm gives
  this result.
\<close>

fun sort_insert :: "('a \<Rightarrow> 'a \<Rightarrow> int) \<Rightarrow> 'a \<Rightarrow> 'a list \<Rightarrow> 'a list" where
  "sort_insert cmp x [] = [x]"
| "sort_insert cmp x (y # ys) = (if cmp x y \<le> 0 then x # y # ys else y # sort_insert cmp x ys)"

definition js_sort :: "('a \<Rightarrow> 'a \<Rightarrow> int) \<Rightarrow> 'a list \<Rightarrow> 'a list" where
  "js_sort cmp xs = foldr (sort_insert cmp) xs []"

lemma mset_sort_insert [simp]: "mset (sort_insert cmp x xs) = add_mset x (mset xs)"
  by (induction xs) auto

lemma mset_js_sort [simp]: "mset (js_sort cmp xs) = mset xs"
  by (induction xs) (auto simp: js_sort_def)

lemma set_sort_insert [simp]: "set (sort_insert cmp x xs) = insert x (set xs)"
  by (induction xs) auto

context comparator
begin

lemma sort_insert_sorted:
  "sorted_wrt (\<lambda>x y. cmp x y \<le> 0) xs \<Longrightarrow> sorted_wrt (\<lambda>x y. cmp x y \<le> 0) (sort_insert cmp x xs)"
proof (induction xs)
  case (Cons y ys)
  show ?case
  proof (cases "cmp x y \<le> 0")
    case True
    then show ?thesis using Cons.prems cmp_trans [OF True] by auto
  next
    case False
    then show ?thesis using Cons total [of x y] by auto
  qed
qed simp

lemma js_sort_sorted: "sorted_wrt (\<lambda>x y. cmp x y \<le> 0) (js_sort cmp xs)"
  by (induction xs) (simp_all add: js_sort_def sort_insert_sorted)

end

end
