(* ===== verification/JS_Number.thy ===== *)
theory JS_Number
  imports Complex_Main
begin

text \<open>
  The Number type of JavaScript: IEEE 754 doubles. A finite double is the rational number it
  denotes; the two zeros are one value, since no operation of the modelled code tells them apart
  (\<open>===\<close>, \<open><\<close>, \<open>String\<close> and \<open>JSON.stringify\<close> do not, and every division of the code has a divisor
  that is not zero). Arithmetic is exact rational arithmetic followed by \<open>round_double\<close>,
  round-to-nearest, ties to even, with gradual underflow and overflow to an infinity.
\<close>

subsection \<open>Binary exponent and rounding\<close>

datatype jsnum = NaN | PInf | NInf | Fin rat

function ilog2_int :: "int \<Rightarrow> int" where
  "ilog2_int n = (if n \<le> 1 then 0 else 1 + ilog2_int (n div 2))"
  by pat_completeness auto
termination
  by (relation "measure nat") auto

declare ilog2_int.simps [simp del]

definition ilog2 :: "rat \<Rightarrow> int" where
  "ilog2 r = (let (p, q) = quotient_of r; e = ilog2_int p - ilog2_int q
     in if 2 powi e \<le> r then e else e - 1)"

definition round_half_even :: "rat \<Rightarrow> int" where
  "round_half_even r = (let f = floor r; d = r - of_int f
     in if d < 1/2 then f else if d > 1/2 then f + 1 else if even f then f else f + 1)"

definition ulp :: "rat \<Rightarrow> rat" where
  "ulp r = 2 powi (max (ilog2 \<bar>r\<bar> - 52) (- 1074))"

definition round_double :: "rat \<Rightarrow> jsnum" where
  "round_double r =
     (if r = 0 then Fin 0
      else let v = of_int (round_half_even (r / ulp r)) * ulp r
           in if ilog2 \<bar>r\<bar> < 1023 then Fin v
              else if v \<ge> 2 ^ 1024 then PInf
              else if v \<le> - (2 ^ 1024) then NInf
              else Fin v)"

lemma ilog2_int_bounds: "1 \<le> n \<Longrightarrow> 0 \<le> ilog2_int n \<and> 2 powi (ilog2_int n) \<le> (of_int n :: rat) \<and> (of_int n :: rat) < 2 * 2 powi (ilog2_int n)"
proof (induction n rule: ilog2_int.induct)
  case (1 n)
  show ?case
  proof (cases "n \<le> 1")
    case True
    with 1 have "n = 1" by simp
    then show ?thesis by (simp add: ilog2_int.simps)
  next
    case False
    define m where "m = n div 2"
    from False have "1 \<le> m" by (simp add: m_def)
    with 1 False have IH: "0 \<le> ilog2_int m" "2 powi (ilog2_int m) \<le> (of_int m :: rat)"
      "(of_int m :: rat) < 2 * 2 powi (ilog2_int m)"
      by (auto simp: m_def)
    define k where "k = nat (ilog2_int m)"
    with IH have k: "ilog2_int m = int k" by simp
    with IH have "(of_int (2 ^ k) :: rat) \<le> of_int m" "(of_int m :: rat) < of_int (2 * 2 ^ k)" by auto
    then have "2 ^ k \<le> m" "m < 2 * 2 ^ k" by linarith+
    moreover have "2 * m \<le> n" "n \<le> 2 * m + 1" by (auto simp: m_def)
    ultimately have "2 * 2 ^ k \<le> n" "n < 2 * (2 * 2 ^ k)" by linarith+
    then have "(of_int (2 * 2 ^ k) :: rat) \<le> of_int n" "(of_int n :: rat) < of_int (2 * (2 * 2 ^ k))"
      by linarith+
    moreover have "ilog2_int n = int (Suc k)"
      using False k by (simp add: ilog2_int.simps [of n] m_def)
    ultimately show ?thesis by (simp add: power_int_def nat_add_distrib)
  qed
qed

lemma ilog2_bounds:
  assumes "0 < r"
  shows "2 powi (ilog2 r) \<le> r" and "r < 2 * 2 powi (ilog2 r)"
proof -
  obtain p q where pq: "quotient_of r = (p, q)" by fastforce
  then have r: "r = of_int p / of_int q" and q: "0 < q"
    using quotient_of_div quotient_of_denom_pos by blast+
  with assms have p: "0 < p" by (simp add: zero_less_divide_iff)
  define e where "e = ilog2_int p - ilog2_int q"
  let ?P = "2 powi (ilog2_int p) :: rat" and ?Q = "2 powi (ilog2_int q) :: rat"
  have P: "?P \<le> of_int p" "of_int p < 2 * ?P" and Q: "?Q \<le> of_int q" "of_int q < 2 * ?Q"
    using ilog2_int_bounds [of p] ilog2_int_bounds [of q] p q by auto
  have pos: "0 < ?P" "0 < ?Q" by simp_all
  have e: "2 powi e = ?P / ?Q" by (simp add: e_def power_int_diff)
  have up: "r < 2 * 2 powi e"
  proof -
    have "of_int p * ?Q < (2 * ?P) * of_int q"
      using P Q pos p q by (intro mult_less_le_imp_less) auto
    then show ?thesis using q pos by (simp add: r e divide_simps mult.commute mult.left_commute)
  qed
  have lo: "2 powi e < 2 * r"
  proof -
    have "?P * of_int q < of_int p * (2 * ?Q)"
      using P Q pos p q by (intro mult_le_less_imp_less) auto
    then show ?thesis using q pos by (simp add: r e divide_simps mult.commute mult.left_commute)
  qed
  have il: "ilog2 r = (if 2 powi e \<le> r then e else e - 1)"
    by (simp add: ilog2_def pq e_def Let_def)
  have half: "2 * 2 powi (e - 1) = (2 powi e :: rat)"
    by (simp add: power_int_diff)
  show "2 powi (ilog2 r) \<le> r" using lo half by (auto simp: il)
  show "r < 2 * 2 powi (ilog2 r)" using up half by (auto simp: il)
qed

lemma round_half_even_of_int [simp]: "round_half_even (of_int n) = n"
  by (simp add: round_half_even_def Let_def)

lemma round_half_even_near: "\<bar>of_int (round_half_even r) - r\<bar> \<le> 1 / 2"
  using of_int_floor_le [of r] floor_correct [of r] by (auto simp: round_half_even_def Let_def abs_le_iff)


lemma powi_int_cases:
  assumes "a \<le> b"
  obtains k :: nat where "(2 :: rat) powi b = 2 ^ k * 2 powi a" and "b = a + int k"
proof
  show "b = a + int (nat (b - a))" using assms by simp
  then show "(2 :: rat) powi b = 2 ^ nat (b - a) * 2 powi a"
    by (metis mult.commute power_int_add power_int_of_nat zero_neq_numeral)
qed

text \<open>
  A rational is a multiple of its unit in the last place exactly when rounding leaves it alone.
\<close>

lemma ulp_pos [simp]: "0 < ulp r"
  by (simp add: ulp_def)

lemma round_double_exact:
  assumes "r = of_int n * ulp r" and "\<bar>r\<bar> < 2 ^ 1024"
  shows "round_double r = Fin r"
proof -
  have "r / ulp r = of_int n"
    using assms(1) ulp_pos [of r] by (metis less_irrefl nonzero_mult_div_cancel_right)
  then have "of_int (round_half_even (r / ulp r)) * ulp r = r"
    using assms(1) by (metis round_half_even_of_int)
  moreover have "r < 2 ^ 1024" "- (2 ^ 1024) < r" using assms(2) by linarith+
  ultimately show ?thesis by (auto simp: round_double_def Let_def)
qed

lemma powi_lessD: "(2 :: rat) powi a < 2 powi b \<Longrightarrow> a < b"
  using power_int_increasing [of b a "2 :: rat"] by (auto simp: not_less [symmetric])

lemma ilog2_less:
  assumes "0 < r" and "r < 2 powi e" shows "ilog2 r < e"
proof -
  have "(2 :: rat) powi (ilog2 r) < 2 powi e"
    using ilog2_bounds(1) [OF assms(1)] assms(2) by linarith
  then show ?thesis by (rule powi_lessD)
qed

lemma ilog2_eq:
  assumes "2 powi e \<le> r" and "r < 2 * 2 powi e" shows "ilog2 r = e"
proof -
  have r: "0 < r" using assms(1) by (meson less_le_trans zero_less_numeral zero_less_power_int)
  have "2 * 2 powi e = (2 powi (e + 1) :: rat)" by (simp add: power_int_add)
  then have "ilog2 r < e + 1" using ilog2_less [OF r, of "e + 1"] assms(2) by linarith
  moreover have "(2 :: rat) powi e < 2 powi (ilog2 r + 1)"
    using ilog2_bounds(2) [OF r] assms(1) by (simp add: power_int_add)
  then have "e < ilog2 r + 1" by (rule powi_lessD)
  ultimately show ?thesis by simp
qed

lemma int_multiple_of_ulp:
  assumes "\<bar>n\<bar> \<le> 2 ^ 53" and "n \<noteq> 0"
  shows "\<exists>m. (of_int n :: rat) = of_int m * ulp (of_int n)"
proof (cases "\<bar>n\<bar> = 2 ^ 53")
  case True
  have "\<bar>rat_of_int n\<bar> = 2 ^ 53" using True by (metis of_int_abs of_int_numeral of_int_power)
  then have "ilog2 \<bar>rat_of_int n\<bar> = 53" by (simp add: ilog2_eq power_int_def)
  then have u: "ulp (of_int n) = 2" by (simp add: ulp_def power_int_def)
  have "even n" using True by (metis dvd_abs_iff dvd_refl even_power zero_less_numeral)
  then obtain m where "n = 2 * m" by blast
  then show ?thesis using u by (intro exI [of _ m]) simp
next
  case False
  with assms have "\<bar>n\<bar> < 2 ^ 53" by simp
  then have lt: "\<bar>rat_of_int n\<bar> < 2 powi 53"
    by (simp add: power_int_def)
  have pos: "0 < \<bar>rat_of_int n\<bar>" using assms(2) by simp
  from ilog2_less [OF pos lt] have "ilog2 \<bar>rat_of_int n\<bar> - 52 \<le> 0" by simp
  then have "max (ilog2 \<bar>rat_of_int n\<bar> - 52) (- 1074) \<le> 0" by simp
  then obtain k where k: "(2 :: rat) powi 0 = 2 ^ k * ulp (of_int n)"
    unfolding ulp_def by (rule powi_int_cases) auto
  show ?thesis
    by (rule exI [of _ "n * 2 ^ k"]) (use k in \<open>simp add: mult.assoc\<close>)
qed

lemma round_double_of_int [simp]:
  assumes "\<bar>n\<bar> \<le> 2 ^ 53"
  shows "round_double (of_int n) = Fin (of_int n)"
proof (cases "n = 0")
  case True
  then show ?thesis by (simp add: round_double_def)
next
  case False
  from int_multiple_of_ulp [OF assms False]
  obtain m where m: "rat_of_int n = of_int m * ulp (of_int n)" ..
  have "\<bar>n\<bar> < 2 ^ 1024" using assms by simp
  then have "\<bar>rat_of_int n\<bar> < 2 ^ 1024"
    by (metis of_int_abs of_int_less_iff of_int_numeral of_int_power)
  then show ?thesis by (rule round_double_exact [OF m])
qed

lemma round_double_0 [simp]: "round_double 0 = Fin 0"
  by (simp add: round_double_def)

lemma round_double_numeral:
  "numeral w \<le> (2 ^ 53 :: int) \<Longrightarrow> round_double (numeral w) = Fin (numeral w)"
  "numeral w \<le> (2 ^ 53 :: int) \<Longrightarrow> round_double (- numeral w) = Fin (- numeral w)"
  using round_double_of_int [of "numeral w"] round_double_of_int [of "- numeral w"] by simp_all

lemma round_double_1 [simp]: "round_double 1 = Fin 1" "round_double (- 1) = Fin (- 1)"
  using round_double_of_int [of 1] round_double_of_int [of "- 1"] by simp_all


subsection \<open>Comparison, arithmetic and the Math functions\<close>

text \<open>The operators \<open>===\<close>, \<open><\<close> and \<open><=\<close> on two numbers: every comparison with NaN is false.\<close>

fun num_eq :: "jsnum \<Rightarrow> jsnum \<Rightarrow> bool" where
  "num_eq (Fin a) (Fin b) = (a = b)"
| "num_eq PInf PInf = True"
| "num_eq NInf NInf = True"
| "num_eq _ _ = False"

fun num_lt :: "jsnum \<Rightarrow> jsnum \<Rightarrow> bool" where
  "num_lt (Fin a) (Fin b) = (a < b)"
| "num_lt NInf (Fin b) = True"
| "num_lt NInf PInf = True"
| "num_lt (Fin a) PInf = True"
| "num_lt _ _ = False"

definition num_le :: "jsnum \<Rightarrow> jsnum \<Rightarrow> bool" where
  "num_le a b \<longleftrightarrow> num_lt a b \<or> num_eq a b"

lemma num_le_Fin [simp]: "num_le (Fin a) (Fin b) = (a \<le> b)"
  by (auto simp: num_le_def)

fun is_finite :: "jsnum \<Rightarrow> bool" where
  "is_finite (Fin _) = True"
| "is_finite _ = False"

fun num_neg :: "jsnum \<Rightarrow> jsnum" where
  "num_neg NaN = NaN"
| "num_neg PInf = NInf"
| "num_neg NInf = PInf"
| "num_neg (Fin a) = Fin (- a)"

fun num_add :: "jsnum \<Rightarrow> jsnum \<Rightarrow> jsnum" where
  "num_add (Fin a) (Fin b) = round_double (a + b)"
| "num_add NaN _ = NaN"
| "num_add _ NaN = NaN"
| "num_add PInf NInf = NaN"
| "num_add NInf PInf = NaN"
| "num_add PInf _ = PInf"
| "num_add NInf _ = NInf"
| "num_add _ PInf = PInf"
| "num_add _ NInf = NInf"

definition num_sub :: "jsnum \<Rightarrow> jsnum \<Rightarrow> jsnum" where
  "num_sub a b = num_add a (num_neg b)"

definition signed_inf :: "bool \<Rightarrow> jsnum" where
  "signed_inf neg = (if neg then NInf else PInf)"

fun num_negative :: "jsnum \<Rightarrow> bool" where
  "num_negative (Fin a) = (a < 0)"
| "num_negative NInf = True"
| "num_negative _ = False"

fun num_mul :: "jsnum \<Rightarrow> jsnum \<Rightarrow> jsnum" where
  "num_mul (Fin a) (Fin b) = round_double (a * b)"
| "num_mul NaN _ = NaN"
| "num_mul _ NaN = NaN"
| "num_mul a b = (if a = Fin 0 \<or> b = Fin 0 then NaN
     else signed_inf (num_negative a \<noteq> num_negative b))"

fun num_div :: "jsnum \<Rightarrow> jsnum \<Rightarrow> jsnum" where
  "num_div (Fin a) (Fin b) =
     (if b = 0 then (if a = 0 then NaN else signed_inf (a < 0)) else round_double (a / b))"
| "num_div NaN _ = NaN"
| "num_div _ NaN = NaN"
| "num_div (Fin _) _ = Fin 0"
| "num_div a (Fin b) = signed_inf (num_negative a \<noteq> (b < 0))"
| "num_div _ _ = NaN"

text \<open>
  The remainder takes the sign of the dividend; it is exact, so it is not rounded.
\<close>

definition rat_trunc :: "rat \<Rightarrow> int" where
  "rat_trunc r = (if r < 0 then - \<lfloor>- r\<rfloor> else \<lfloor>r\<rfloor>)"

fun num_mod :: "jsnum \<Rightarrow> jsnum \<Rightarrow> jsnum" where
  "num_mod (Fin a) (Fin b) = (if b = 0 then NaN else Fin (a - b * of_int (rat_trunc (a / b))))"
| "num_mod NaN _ = NaN"
| "num_mod _ NaN = NaN"
| "num_mod (Fin a) _ = Fin a"
| "num_mod _ _ = NaN"

fun math_floor :: "jsnum \<Rightarrow> jsnum" where
  "math_floor (Fin a) = Fin (of_int \<lfloor>a\<rfloor>)"
| "math_floor x = x"

fun math_ceil :: "jsnum \<Rightarrow> jsnum" where
  "math_ceil (Fin a) = Fin (of_int \<lceil>a\<rceil>)"
| "math_ceil x = x"

text \<open>\<open>Math.round\<close> takes ties towards plus infinity.\<close>

fun math_round :: "jsnum \<Rightarrow> jsnum" where
  "math_round (Fin a) = Fin (of_int \<lfloor>a + 1 / 2\<rfloor>)"
| "math_round x = x"

fun math_abs :: "jsnum \<Rightarrow> jsnum" where
  "math_abs (Fin a) = Fin \<bar>a\<bar>"
| "math_abs NInf = PInf"
| "math_abs x = x"

lemma num_lt_irrefl [simp]: "\<not> num_lt a a"
  by (cases a) auto

lemma num_lt_trans: "num_lt a b \<Longrightarrow> num_lt b c \<Longrightarrow> num_lt a c"
  by (cases a; cases b; cases c) auto

lemma num_mod_bound:
  assumes "b \<noteq> 0"
  shows "\<exists>m. num_mod (Fin a) (Fin b) = Fin m \<and> \<bar>m\<bar> < \<bar>b\<bar> \<and> (m = 0 \<or> sgn m = sgn a)"
proof -
  define q where "q = a / b"
  define m where "m = b * (q - of_int (rat_trunc q))"
  have a: "a = b * q" using assms by (simp add: q_def)
  have fr: "\<bar>q - of_int (rat_trunc q)\<bar> < 1" and sg: "0 \<le> (q - of_int (rat_trunc q)) * q"
  proof -
    have "0 \<le> q - of_int (rat_trunc q) \<and> q - of_int (rat_trunc q) < 1" if "0 \<le> q"
      using floor_correct [of q] that by (simp add: rat_trunc_def)
    moreover have "q - of_int (rat_trunc q) \<le> 0 \<and> - 1 < q - of_int (rat_trunc q)" if "q < 0"
      using floor_correct [of "- q"] of_int_floor_le [of "- q"] that by (simp add: rat_trunc_def, linarith)
    ultimately show "\<bar>q - of_int (rat_trunc q)\<bar> < 1" "0 \<le> (q - of_int (rat_trunc q)) * q"
      by (cases "q < 0"; auto simp: mult_nonpos_nonpos)+
  qed
  have eq: "num_mod (Fin a) (Fin b) = Fin m"
    using assms by (simp add: m_def q_def right_diff_distrib)
  have "\<bar>m\<bar> < \<bar>b\<bar>"
    using fr assms by (simp add: m_def abs_mult)
  moreover have "q - of_int (rat_trunc q) = 0 \<or> sgn (q - of_int (rat_trunc q)) = sgn q"
    using sg of_int_floor_le [of q]
    by (cases "q = 0") (auto simp: rat_trunc_def sgn_if zero_le_mult_iff not_less intro: order.antisym split: if_splits)
  then have "m = 0 \<or> sgn m = sgn a"
    by (auto simp: m_def a sgn_mult)
  ultimately show ?thesis using eq by blast
qed

subsection \<open>Numbers as strings\<close>

text \<open>Decimal digits, and the conversion of a string of digits to the integer it denotes.\<close>

definition digit_char :: "int \<Rightarrow> char" where
  "digit_char d = char_of (48 + d)"

definition char_digit :: "char \<Rightarrow> int" where
  "char_digit c = of_char c - 48"

definition is_digit :: "char \<Rightarrow> bool" where
  "is_digit c \<longleftrightarrow> 0 \<le> char_digit c \<and> char_digit c \<le> 9"

function int_string :: "int \<Rightarrow> string" where
  "int_string n = (if n < 10 then [digit_char n] else int_string (n div 10) @ [digit_char (n mod 10)])"
  by pat_completeness auto
termination
  by (relation "measure nat") auto

declare int_string.simps [simp del]

definition digits_value :: "string \<Rightarrow> int" where
  "digits_value ds = foldl (\<lambda>a c. 10 * a + char_digit c) 0 ds"

text \<open>
  \<open>String(x)\<close> for a finite number (ECMA-262, 9.8.1): the shortest decimal that reads back as the
  number, laid out as an integer, a decimal fraction or in exponent form.
  \<open>dec_exp\<close> finds \<open>n\<close> with \<open>10 powi (n - 1) \<le> r < 10 powi n\<close>; its fuel of 400 covers every double,
  since these lie between \<open>10 powi (- 324)\<close> and \<open>10 powi 309\<close>.
\<close>

fun dec_exp :: "nat \<Rightarrow> rat \<Rightarrow> int" where
  "dec_exp 0 r = 0"
| "dec_exp (Suc fuel) r =
     (if r \<ge> 10 then 1 + dec_exp fuel (r / 10)
      else if r < 1 / 10 then dec_exp fuel (10 * r) - 1
      else if r \<ge> 1 then 1 else 0)"

definition dec_candidates :: "rat \<Rightarrow> int list" where
  "dec_candidates x = (let f = \<lfloor>x\<rfloor>; d = x - of_int f
     in if d < 1 / 2 \<or> d = 1 / 2 \<and> even f then [f, f + 1] else [f + 1, f])"

text \<open>The first number of digits \<open>k\<close> for which a \<open>k\<close>-digit decimal reads back as \<open>r\<close>.\<close>

fun shortest_digits :: "rat \<Rightarrow> int \<Rightarrow> int list \<Rightarrow> int \<times> int \<times> int" where
  "shortest_digits r n [] = (\<lfloor>r * 10 powi (17 - n)\<rfloor>, n, 17)"
| "shortest_digits r n (k # ks) =
     (case filter (\<lambda>s. 10 ^ nat (k - 1) \<le> s \<and> s \<le> 10 ^ nat k
             \<and> round_double (of_int s * 10 powi (n - k)) = Fin r)
        (dec_candidates (r * 10 powi (k - n))) of
        s # _ \<Rightarrow> if s = 10 ^ nat k then (10 ^ nat (k - 1), n + 1, k) else (s, n, k)
      | [] \<Rightarrow> shortest_digits r n ks)"

definition layout_number :: "int \<times> int \<times> int \<Rightarrow> string" where
  "layout_number = (\<lambda>(s, n, k). let ds = int_string s in
     if k \<le> n \<and> n \<le> 21 then ds @ replicate (nat (n - k)) (CHR ''0'')
     else if 0 < n \<and> n \<le> 21 then take (nat n) ds @ ''.'' @ drop (nat n) ds
     else if - 6 < n \<and> n \<le> 0 then ''0.'' @ replicate (nat (- n)) (CHR ''0'') @ ds
     else let e = (if n - 1 < 0 then ''e-'' @ int_string (1 - n) else ''e+'' @ int_string (n - 1))
          in if k = 1 then ds @ e else take 1 ds @ ''.'' @ drop 1 ds @ e)"

fun num_string :: "jsnum \<Rightarrow> string" where
  "num_string NaN = ''NaN''"
| "num_string PInf = ''Infinity''"
| "num_string NInf = ''-Infinity''"
| "num_string (Fin r) =
     (if r = 0 then ''0''
      else (if r < 0 then ''-'' else [])
        @ layout_number (shortest_digits \<bar>r\<bar> (dec_exp 400 \<bar>r\<bar>) [1..17]))"

text \<open>\<open>Number(s)\<close> for a string (ECMA-262, 9.3.1): white space around a decimal or hexadecimal literal.\<close>

definition is_space :: "char \<Rightarrow> bool" where
  "is_space c \<longleftrightarrow> of_char c \<in> {9, 10, 11, 12, 13, 32, 160 :: int}"

definition trim_left :: "string \<Rightarrow> string" where
  "trim_left s = dropWhile is_space s"

definition trim_string :: "string \<Rightarrow> string" where
  "trim_string s = rev (trim_left (rev (trim_left s)))"

definition hex_digit :: "char \<Rightarrow> int option" where
  "hex_digit c = (let n = of_char c in
     if 48 \<le> n \<and> n \<le> 57 then Some (n - 48)
     else if 97 \<le> n \<and> n \<le> 102 then Some (n - 87)
     else if 65 \<le> n \<and> n \<le> 70 then Some (n - 55)
     else None)"

fun hex_value :: "int \<Rightarrow> string \<Rightarrow> int option" where
  "hex_value a [] = Some a"
| "hex_value a (c # cs) = (case hex_digit c of None \<Rightarrow> None | Some d \<Rightarrow> hex_value (16 * a + d) cs)"

definition signed_digits :: "string \<Rightarrow> int option" where
  "signed_digits s =
     (let (neg, ds) = (case s of [] \<Rightarrow> (False, []) | c # t \<Rightarrow>
           if c = CHR ''-'' then (True, t) else if c = CHR ''+'' then (False, t) else (False, s))
      in if ds = [] \<or> \<not> list_all is_digit ds then None
         else Some (if neg then - digits_value ds else digits_value ds))"

definition parse_decimal :: "string \<Rightarrow> rat option" where
  "parse_decimal s =
     (let ip = takeWhile is_digit s; r1 = dropWhile is_digit s;
          (fp, r2) = (case r1 of [] \<Rightarrow> ([], []) | c # t \<Rightarrow>
             if c = CHR ''.'' then (takeWhile is_digit t, dropWhile is_digit t) else ([], r1));
          ex = (case r2 of [] \<Rightarrow> Some 0 | c # t \<Rightarrow>
             if c = CHR ''e'' \<or> c = CHR ''E'' then signed_digits t else None)
      in if ip = [] \<and> fp = [] then None
         else map_option (\<lambda>e. of_int (digits_value (ip @ fp)) * 10 powi (e - int (length fp))) ex)"

definition unsigned_number :: "string \<Rightarrow> jsnum" where
  "unsigned_number s = (if s = ''Infinity'' then PInf
     else case parse_decimal s of None \<Rightarrow> NaN | Some r \<Rightarrow> round_double r)"

definition string_number :: "string \<Rightarrow> jsnum" where
  "string_number s = (let t = trim_string s in
     case t of [] \<Rightarrow> Fin 0
     | c # u \<Rightarrow>
       if c = CHR ''-'' then num_neg (unsigned_number u)
       else if c = CHR ''+'' then unsigned_number u
       else if take 2 t = ''0x'' \<or> take 2 t = ''0X'' then
         (if length t = 2 then NaN
          else case hex_value 0 (drop 2 t) of None \<Rightarrow> NaN | Some n \<Rightarrow> round_double (of_int n))
       else unsigned_number t)"

text \<open>\<open>parseInt(s, 10)\<close>: the longest prefix of decimal digits, after white space and a sign.\<close>

definition parse_int10 :: "string \<Rightarrow> jsnum" where
  "parse_int10 s = (let t = trim_left s;
      (neg, u) = (case t of [] \<Rightarrow> (False, []) | c # v \<Rightarrow>
         if c = CHR ''-'' then (True, v) else if c = CHR ''+'' then (False, v) else (False, t));
      ds = takeWhile is_digit u
    in if ds = [] then NaN
       else let x = round_double (of_int (digits_value ds)) in if neg then num_neg x else x)"

subsection \<open>Rounding error\<close>

lemma round_double_error:
  assumes "\<bar>r\<bar> < 2 ^ 46"
  obtains q where "round_double r = Fin q" "\<bar>q - r\<bar> \<le> 1 / 256"
proof (cases "r = 0")
  case True
  then show thesis using that [of 0] by simp
next
  case False
  have "\<bar>r\<bar> < 2 powi 46" using assms by (simp add: power_int_def)
  then have il: "ilog2 \<bar>r\<bar> < 46" using ilog2_less [of "\<bar>r\<bar>" 46] False by simp
  then have "ulp r \<le> 2 powi (- 7)" unfolding ulp_def by (intro power_int_increasing) auto
  then have u: "ulp r \<le> 1 / 128" by (simp add: power_int_def power_divide)
  define q where "q = of_int (round_half_even (r / ulp r)) * ulp r"
  have "q - r = (of_int (round_half_even (r / ulp r)) - r / ulp r) * ulp r"
    using ulp_pos [of r] by (simp add: q_def left_diff_distrib less_imp_neq [symmetric])
  then have "\<bar>q - r\<bar> = \<bar>of_int (round_half_even (r / ulp r)) - r / ulp r\<bar> * ulp r"
    by (simp add: abs_mult less_imp_le)
  also have "\<dots> \<le> 1 / 2 * (1 / 128)"
    by (rule mult_mono) (use round_half_even_near u in \<open>simp_all add: less_imp_le\<close>)
  finally have "\<bar>q - r\<bar> \<le> 1 / 256" by simp
  moreover have "round_double r = Fin q" using il False by (simp add: round_double_def q_def Let_def)
  ultimately show thesis by (rule that [rotated])
qed

lemma ceil_hundredth:
  assumes "0 \<le> k" "k < 2 ^ 46"
  shows "math_ceil (round_double (of_int k / 100)) = Fin (of_int \<lceil>of_int k / 100 :: rat\<rceil>)"
proof (cases "100 dvd k")
  case True
  then obtain m where m: "k = 100 * m" by blast
  then have "\<bar>m\<bar> \<le> 2 ^ 53" using assms by simp
  then show ?thesis using m by simp
next
  case False
  define f where "f = k div 100"
  have r: "100 * f + 1 \<le> k" "k \<le> 100 * f + 99" using False unfolding f_def by presburger+
  have lo: "of_int f + 1 / 100 \<le> (of_int k / 100 :: rat)"
    using r(1) by (simp add: field_simps)
  have hi: "(of_int k / 100 :: rat) \<le> of_int f + 99 / 100"
    using r(2) by (simp add: field_simps)
  have "\<bar>of_int k / 100 :: rat\<bar> < 2 ^ 46" using assms by (simp add: field_simps)
  then obtain q where q: "round_double (of_int k / 100) = Fin q" "\<bar>q - of_int k / 100\<bar> \<le> 1 / 256"
    by (rule round_double_error)
  then have "of_int f < q" "q \<le> of_int f + 1" using lo hi by linarith+
  then have "\<lceil>q\<rceil> = f + 1" by (simp add: ceiling_eq_iff)
  moreover have "\<lceil>of_int k / 100 :: rat\<rceil> = f + 1" using lo hi by (simp add: ceiling_eq_iff)
  ultimately show ?thesis using q by simp
qed

subsection \<open>A linear order\<close>

text \<open>
  The numbers as a linear order, with \<open>NaN\<close> at the bottom: it agrees with the operators \<open><\<close> and \<open><=\<close>
  wherever neither operand is \<open>NaN\<close>.
\<close>

instantiation jsnum :: linorder
begin

definition less_eq_jsnum :: "jsnum \<Rightarrow> jsnum \<Rightarrow> bool" where
  "less_eq_jsnum a b = (case (a, b) of
      (NaN, _) \<Rightarrow> True | (_, NaN) \<Rightarrow> False | (NInf, _) \<Rightarrow> True | (_, NInf) \<Rightarrow> False
    | (_, PInf) \<Rightarrow> True | (PInf, _) \<Rightarrow> False | (Fin x, Fin y) \<Rightarrow> x \<le> y)"

definition less_jsnum :: "jsnum \<Rightarrow> jsnum \<Rightarrow> bool" where
  "less_jsnum a b = (a \<le> b \<and> \<not> b \<le> a)"

instance
  by standard (auto simp: less_eq_jsnum_def less_jsnum_def split: jsnum.splits)

end

lemma num_lt_iff: "a \<noteq> NaN \<Longrightarrow> b \<noteq> NaN \<Longrightarrow> num_lt a b \<longleftrightarrow> a < b"
  by (cases a; cases b) (auto simp: less_eq_jsnum_def less_jsnum_def)

lemma num_le_iff: "a \<noteq> NaN \<Longrightarrow> b \<noteq> NaN \<Longrightarrow> num_le a b \<longleftrightarrow> a \<le> b"
  by (cases a; cases b) (auto simp: less_eq_jsnum_def num_le_def)

end
