(* ===== verification/JS_Value.thy ===== *)
theory JS_Value
  imports Arango_Prelude JS_Number
begin

text \<open>
  The JavaScript values that flow through the AQL runtime: primitives, arrays without holes, plain
  objects and, because \<open>FIX_VALUE\<close> and \<open>NORMALIZE\<close> look at them, functions (with their source text).
  An object is the list of its own properties in the order in which they were created; a string is
  the list of its code units, those below 256. Property names that collide with members of
  \<open>Object.prototype\<close> (\<open>hasOwnProperty\<close>, \<open>toString\<close>, \<open>valueOf\<close>, \<open>__proto__\<close>) are outside the model.
\<close>

datatype jsval =
    JUndef
  | JNull
  | JBool bool
  | JNum jsnum
  | JStr string
  | JArr "jsval list"
  | JObj "(string \<times> jsval) list"
  | JFun string

type_synonym jsobj = "(string \<times> jsval) list"

text \<open>A property key: an array index or a name.\<close>

datatype jskey = KIdx nat | KName string

subsection \<open>Objects\<close>

definition obj_get :: "jsobj \<Rightarrow> string \<Rightarrow> jsval" where
  "obj_get ob k = (case map_of ob k of None \<Rightarrow> JUndef | Some v \<Rightarrow> v)"

definition obj_has :: "jsobj \<Rightarrow> string \<Rightarrow> bool" where
  "obj_has ob k \<longleftrightarrow> map_of ob k \<noteq> None"

definition obj_put :: "string \<Rightarrow> jsval \<Rightarrow> jsobj \<Rightarrow> jsobj" where
  "obj_put k v ob = AList.update k v ob"

definition obj_del :: "string \<Rightarrow> jsobj \<Rightarrow> jsobj" where
  "obj_del k ob = AList.delete k ob"

text \<open>
  \<open>Object.keys\<close> and \<open>for (k in o)\<close> list the array indices (canonical decimals below \<open>2 ^ 32 - 1\<close>) in
  ascending order first, then the other names in creation order.
\<close>

definition array_index :: "string \<Rightarrow> int option" where
  "array_index s = (if s \<noteq> [] \<and> list_all is_digit s \<and> (hd s \<noteq> CHR ''0'' \<or> length s = 1)
        \<and> digits_value s < 4294967295
     then Some (digits_value s) else None)"

definition object_keys :: "jsobj \<Rightarrow> string list" where
  "object_keys ob = (let ks = map fst ob in
     sort_key (\<lambda>k. the (array_index k)) (filter (\<lambda>k. array_index k \<noteq> None) ks)
       @ filter (\<lambda>k. array_index k = None) ks)"

definition object_entries :: "jsobj \<Rightarrow> jsobj" where
  "object_entries ob = map (\<lambda>k. (k, obj_get ob k)) (object_keys ob)"

definition arr_get :: "jsval list \<Rightarrow> nat \<Rightarrow> jsval" where
  "arr_get xs i = (if i < length xs then xs ! i else JUndef)"

fun js_get :: "jsval \<Rightarrow> jskey \<Rightarrow> jsval" where
  "js_get (JArr xs) (KIdx i) = arr_get xs i"
| "js_get (JObj ob) (KName k) = obj_get ob k"
| "js_get _ _ = JUndef"

lemma obj_get_put [simp]: "obj_get (obj_put k v ob) k' = (if k' = k then v else obj_get ob k')"
  by (simp add: obj_get_def obj_put_def update_conv')

lemma obj_has_put [simp]: "obj_has (obj_put k v ob) k' \<longleftrightarrow> k' = k \<or> obj_has ob k'"
  by (simp add: obj_has_def obj_put_def update_conv')

lemma obj_get_del [simp]: "obj_get (obj_del k ob) k' = (if k' = k then JUndef else obj_get ob k')"
  by (simp add: obj_get_def obj_del_def delete_conv')

lemma obj_has_del [simp]: "obj_has (obj_del k ob) k' \<longleftrightarrow> k' \<noteq> k \<and> obj_has ob k'"
  by (simp add: obj_has_def obj_del_def delete_conv')

lemma obj_empty [simp]: "obj_get [] k = JUndef" "\<not> obj_has [] k"
  by (simp_all add: obj_get_def obj_has_def)

lemma obj_get_Cons [simp]: "obj_get ((k, v) # ob) k' = (if k' = k then v else obj_get ob k')"
  by (simp add: obj_get_def)

lemma obj_has_Cons [simp]: "obj_has ((k, v) # ob) k' \<longleftrightarrow> k' = k \<or> obj_has ob k'"
  by (simp add: obj_has_def)

lemma obj_has_iff: "obj_has ob k \<longleftrightarrow> k \<in> fst ` set ob"
  by (simp add: obj_has_def map_of_eq_None_iff)

lemma obj_get_absent: "\<not> obj_has ob k \<Longrightarrow> obj_get ob k = JUndef"
  by (simp add: obj_has_def obj_get_def)

lemma set_object_keys [simp]: "set (object_keys ob) = {k. obj_has ob k}"
  by (auto simp: object_keys_def obj_has_iff Let_def)

lemma distinct_object_keys: "distinct (map fst ob) \<Longrightarrow> distinct (object_keys ob)"
  by (auto simp: object_keys_def Let_def distinct_sort)

lemma length_object_keys [simp]: "length (object_keys ob) = length ob"
  using sum_length_filter_compl [of "\<lambda>k. array_index k \<noteq> None" "map fst ob"]
  by (simp add: object_keys_def Let_def)

lemma distinct_obj_put: "distinct (map fst ob) \<Longrightarrow> distinct (map fst (obj_put k v ob))"
  by (simp add: obj_put_def distinct_update)

lemma distinct_obj_del: "distinct (map fst ob) \<Longrightarrow> distinct (map fst (obj_del k ob))"
  by (simp add: obj_del_def distinct_delete)

lemma map_fst_object_entries [simp]: "map fst (object_entries ob) = object_keys ob"
  by (simp add: object_entries_def comp_def)

lemma map_of_map_Pair: "map_of (map (\<lambda>k. (k, f k)) ks) k = (if k \<in> set ks then Some (f k) else None)"
  by (induction ks) auto

lemma obj_get_entries [simp]: "obj_get (object_entries ob) k = obj_get ob k"
  by (cases "obj_has ob k") (auto simp: object_entries_def map_of_map_Pair obj_get_def [of "map _ _"] obj_get_absent)

lemma obj_has_entries [simp]: "obj_has (object_entries ob) k \<longleftrightarrow> obj_has ob k"
  unfolding obj_has_def [of "object_entries ob"] by (simp add: object_entries_def map_of_map_Pair)

subsection \<open>Termination of recursion through arrays and objects\<close>

lemma obj_get_size_list [termination_simp]: "size (obj_get ob k) < Suc (size_list (\<lambda>x. Suc (size (snd x))) ob)"
  by (induction ob) auto

lemma obj_get_size [termination_simp]: "size (obj_get ob k) < size (JObj ob)"
  by (induction ob) auto

lemma arr_get_size [termination_simp]: "size (arr_get xs i) < size (JArr xs)"
  using size_list_estimation' [of "xs ! i" xs _ size] by (auto simp: arr_get_def intro!: le_imp_less_Suc)

lemma object_entries_size [termination_simp]:
  "(k, v) \<in> set (object_entries ob) \<Longrightarrow> size v < Suc (size_list (\<lambda>x. Suc (size (snd x))) ob)"
  using obj_get_size_list [of ob k] by (auto simp: object_entries_def)

subsection \<open>Conversions\<close>

text \<open>\<open>ToBoolean\<close>, the condition of \<open>if\<close>, \<open>!\<close> and \<open>||\<close>.\<close>

fun js_truthy :: "jsval \<Rightarrow> bool" where
  "js_truthy JUndef = False"
| "js_truthy JNull = False"
| "js_truthy (JBool b) = b"
| "js_truthy (JNum n) = (n \<noteq> NaN \<and> n \<noteq> Fin 0)"
| "js_truthy (JStr s) = (s \<noteq> [])"
| "js_truthy _ = True"

fun join :: "string \<Rightarrow> string list \<Rightarrow> string" where
  "join sep [] = []"
| "join sep [s] = s"
| "join sep (s # t # ss) = s @ sep @ join sep (t # ss)"

text \<open>\<open>ToString\<close>; an array joins its elements with commas and leaves \<open>null\<close> and \<open>undefined\<close> out.\<close>

fun js_string :: "jsval \<Rightarrow> string" where
  "js_string JUndef = ''undefined''"
| "js_string JNull = ''null''"
| "js_string (JBool b) = (if b then ''true'' else ''false'')"
| "js_string (JNum n) = num_string n"
| "js_string (JStr s) = s"
| "js_string (JArr xs) =
     join '','' (map (\<lambda>x. if x = JNull \<or> x = JUndef then [] else js_string x) xs)"
| "js_string (JObj _) = ''[object Object]''"
| "js_string (JFun src) = src"

fun js_number :: "jsval \<Rightarrow> jsnum" where
  "js_number JUndef = NaN"
| "js_number JNull = Fin 0"
| "js_number (JBool b) = Fin (if b then 1 else 0)"
| "js_number (JNum n) = n"
| "js_number v = string_number (js_string v)"

text \<open>The operators \<open><\<close> and \<open><=\<close>: by code unit on two strings, numerically otherwise.\<close>

fun to_primitive :: "jsval \<Rightarrow> jsval" where
  "to_primitive (JArr xs) = JStr (js_string (JArr xs))"
| "to_primitive (JObj ob) = JStr (js_string (JObj ob))"
| "to_primitive (JFun src) = JStr src"
| "to_primitive v = v"

definition js_lt :: "jsval \<Rightarrow> jsval \<Rightarrow> bool" where
  "js_lt l r = (case (to_primitive l, to_primitive r) of
      (JStr s, JStr t) \<Rightarrow> s < t
    | (p, q) \<Rightarrow> num_lt (js_number p) (js_number q))"

definition js_le :: "jsval \<Rightarrow> jsval \<Rightarrow> bool" where
  "js_le l r = (case (to_primitive l, to_primitive r) of
      (JStr s, JStr t) \<Rightarrow> s \<le> t
    | (p, q) \<Rightarrow> num_le (js_number p) (js_number q))"

lemma js_lt_num [simp]: "js_lt (JNum a) (JNum b) = num_lt a b"
  "js_lt JNull (JNum b) = num_lt (Fin 0) b" "js_lt (JNum a) JNull = num_lt a (Fin 0)"
  "js_lt (JBool p) (JBool q) = (\<not> p \<and> q)" "\<not> js_lt JUndef v" "\<not> js_lt v JUndef"
  by (auto simp: js_lt_def split: jsval.splits prod.splits)

lemma js_le_num [simp]: "js_le (JNum a) (JNum b) = num_le a b"
  "js_le JNull (JNum b) = num_le (Fin 0) b" "js_le (JNum a) JNull = num_le a (Fin 0)"
  "js_le (JBool p) (JBool q) = (p \<longrightarrow> q)"
  by (auto simp: js_le_def num_le_def)

text \<open>\<open>===\<close> on primitive values (the code compares objects with it nowhere).\<close>

fun js_eq :: "jsval \<Rightarrow> jsval \<Rightarrow> bool" where
  "js_eq (JNum a) (JNum b) = num_eq a b"
| "js_eq a b = (a = b)"

subsection \<open>\<open>JSON.stringify\<close>\<close>

definition hex_char :: "int \<Rightarrow> char" where
  "hex_char d = (if d < 10 then char_of (48 + d) else char_of (87 + d))"

definition json_escape :: "char \<Rightarrow> string" where
  "json_escape c = (let n = of_char c :: int in
     if n = 34 then [char_of (92 :: int), c]
     else if n = 92 then [c, c]
     else if n = 8 then [char_of (92 :: int), CHR ''b'']
     else if n = 12 then [char_of (92 :: int), CHR ''f'']
     else if n = 10 then [char_of (92 :: int), CHR ''n'']
     else if n = 13 then [char_of (92 :: int), CHR ''r'']
     else if n = 9 then [char_of (92 :: int), CHR ''t'']
     else if n < 32 then char_of (92 :: int) # ''u00'' @ [hex_char (n div 16), hex_char (n mod 16)]
     else [c])"

definition json_quote :: "string \<Rightarrow> string" where
  "json_quote s = char_of (34 :: int) # concat (map json_escape s) @ [char_of (34 :: int)]"

fun json_stringify :: "jsval \<Rightarrow> string option" where
  "json_stringify JUndef = None"
| "json_stringify (JFun _) = None"
| "json_stringify JNull = Some ''null''"
| "json_stringify (JBool b) = Some (if b then ''true'' else ''false'')"
| "json_stringify (JNum n) = Some (if is_finite n then num_string n else ''null'')"
| "json_stringify (JStr s) = Some (json_quote s)"
| "json_stringify (JArr xs) = Some (''['' @
     join '','' (map (\<lambda>x. case json_stringify x of None \<Rightarrow> ''null'' | Some s \<Rightarrow> s) xs) @ '']'')"
| "json_stringify (JObj ob) = Some (''{'' @
     join '','' (concat (map (\<lambda>(k, v). case json_stringify v of None \<Rightarrow> []
        | Some s \<Rightarrow> [json_quote k @ '':'' @ s]) (object_entries ob))) @ ''}'')"

subsection \<open>Exceptions, splitting and enumeration\<close>

text \<open>The exceptions that the code raises, or that the language raises for it.\<close>

datatype js_exc = ArangoError int string | TypeError | SyntaxError

text \<open>\<open>String.prototype.split\<close> with a separator of one character.\<close>

fun split_char :: "char \<Rightarrow> string \<Rightarrow> string list" where
  "split_char sep [] = [[]]"
| "split_char sep (c # cs) = (if c = sep then [] # split_char sep cs
     else case split_char sep cs of [] \<Rightarrow> [[c]] | p # ps \<Rightarrow> (c # p) # ps)"

lemma split_char_nonempty [simp]: "split_char sep s \<noteq> []"
  by (induction s) (auto split: list.splits)

lemma split_char_one: "split_char sep s = [a] \<longleftrightarrow> s = a \<and> sep \<notin> set s"
proof (induction s arbitrary: a)
  case (Cons c s)
  obtain p ps where ps: "split_char sep s = p # ps" by (cases "split_char sep s") auto
  show ?case using ps Cons.IH [of p] Cons.IH [of s] by (cases a) auto
qed auto

lemma split_char_two: "split_char sep s = [a, b] \<longleftrightarrow> s = a @ sep # b \<and> sep \<notin> set a \<and> sep \<notin> set b"
proof (induction s arbitrary: a)
  case (Cons c s)
  show ?case
  proof (cases "c = sep")
    case True
    then show ?thesis by (cases a) (auto simp: split_char_one)
  next
    case False
    obtain p ps where ps: "split_char sep s = p # ps" by (cases "split_char sep s") auto
    show ?thesis
    proof (cases a)
      case Nil
      then show ?thesis using False ps by auto
    next
      case (Cons d a')
      then show ?thesis using False ps Cons.IH [of a'] by auto
    qed
  qed
qed simp

text \<open>The properties of an object in the order of \<open>for (k in o)\<close>, whatever their values are.\<close>

definition enumerated :: "(string \<times> 'a) list \<Rightarrow> (string \<times> 'a) list" where
  "enumerated xs =
     sort_key (\<lambda>x. the (array_index (fst x))) (filter (\<lambda>x. array_index (fst x) \<noteq> None) xs)
       @ filter (\<lambda>x. array_index (fst x) = None) xs"

lemma set_enumerated [simp]: "set (enumerated xs) = set xs"
  by (auto simp: enumerated_def)

lemma mset_enumerated [simp]: "mset (enumerated xs) = mset xs"
  unfolding enumerated_def mset_append mset_sort by (induction xs) auto

end
