(* ===== verification/AQL_Types.thy ===== *)
theory AQL_Types
  imports JS_Value
begin

text \<open>
  The helper section of \<open>js/server/modules/org/arangodb/aql.js\<close>: warnings and exceptions, type
  weights, cloning and normalising values, key lists and member access. A function that may raise a
  warning returns its value together with the warnings it registered, in order; one that may throw
  returns a sum with the exception on the left.
\<close>

subsection \<open>Errors, warnings, exceptions\<close>

datatype aql_error =
    ERROR_INTERNAL
  | ERROR_ARANGO_COLLECTION_NOT_FOUND
  | ERROR_ARANGO_NO_INDEX
  | ERROR_QUERY_FUNCTION_ARGUMENT_NUMBER_MISMATCH
  | ERROR_QUERY_FUNCTION_ARGUMENT_TYPE_MISMATCH
  | ERROR_QUERY_INVALID_REGEX
  | ERROR_QUERY_INVALID_ARITHMETIC_VALUE
  | ERROR_QUERY_DIVISION_BY_ZERO
  | ERROR_QUERY_ARRAY_EXPECTED
  | ERROR_QUERY_FAIL_CALLED
  | ERROR_QUERY_INVALID_DATE_VALUE
  | ERROR_QUERY_COLLECTION_USED_IN_EXPRESSION
  | ERROR_QUERY_DISALLOWED_DYNAMIC_CALL
  | ERROR_QUERY_FUNCTION_INVALID_CODE
  | ERROR_QUERY_FUNCTION_NOT_FOUND
  | ERROR_QUERY_FUNCTION_RUNTIME_ERROR

fun error_code :: "aql_error \<Rightarrow> int" where
  "error_code ERROR_INTERNAL = 4"
| "error_code ERROR_ARANGO_COLLECTION_NOT_FOUND = 1203"
| "error_code ERROR_ARANGO_NO_INDEX = 1209"
| "error_code ERROR_QUERY_FUNCTION_ARGUMENT_NUMBER_MISMATCH = 1541"
| "error_code ERROR_QUERY_FUNCTION_ARGUMENT_TYPE_MISMATCH = 1542"
| "error_code ERROR_QUERY_INVALID_REGEX = 1543"
| "error_code ERROR_QUERY_INVALID_ARITHMETIC_VALUE = 1561"
| "error_code ERROR_QUERY_DIVISION_BY_ZERO = 1562"
| "error_code ERROR_QUERY_ARRAY_EXPECTED = 1563"
| "error_code ERROR_QUERY_FAIL_CALLED = 1569"
| "error_code ERROR_QUERY_INVALID_DATE_VALUE = 1572"
| "error_code ERROR_QUERY_COLLECTION_USED_IN_EXPRESSION = 1577"
| "error_code ERROR_QUERY_DISALLOWED_DYNAMIC_CALL = 1578"
| "error_code ERROR_QUERY_FUNCTION_INVALID_CODE = 1581"
| "error_code ERROR_QUERY_FUNCTION_NOT_FOUND = 1582"
| "error_code ERROR_QUERY_FUNCTION_RUNTIME_ERROR = 1583"

fun error_message :: "aql_error \<Rightarrow> string" where
  "error_message ERROR_INTERNAL = ''internal error''"
| "error_message ERROR_ARANGO_COLLECTION_NOT_FOUND = ''collection not found''"
| "error_message ERROR_ARANGO_NO_INDEX = ''no suitable index known''"
| "error_message ERROR_QUERY_FUNCTION_ARGUMENT_NUMBER_MISMATCH =
     ''invalid number of arguments for function '' @ [CHR 39] @ ''%s()'' @ [CHR 39] @
     '', expected number of arguments: minimum: %d, maximum: %d''"
| "error_message ERROR_QUERY_FUNCTION_ARGUMENT_TYPE_MISMATCH =
     ''invalid argument type in call to function '' @ [CHR 39] @ ''%s()'' @ [CHR 39]"
| "error_message ERROR_QUERY_INVALID_REGEX = ''invalid regex value''"
| "error_message ERROR_QUERY_INVALID_ARITHMETIC_VALUE = ''invalid arithmetic value''"
| "error_message ERROR_QUERY_DIVISION_BY_ZERO = ''division by zero''"
| "error_message ERROR_QUERY_ARRAY_EXPECTED = ''array expected''"
| "error_message ERROR_QUERY_FAIL_CALLED = ''FAIL(%s) called''"
| "error_message ERROR_QUERY_INVALID_DATE_VALUE = ''invalid date value''"
| "error_message ERROR_QUERY_COLLECTION_USED_IN_EXPRESSION =
     ''collection '' @ [CHR 39] @ ''%s'' @ [CHR 39] @ '' used as expression operand''"
| "error_message ERROR_QUERY_DISALLOWED_DYNAMIC_CALL =
     ''disallowed dynamic call to '' @ [CHR 39] @ ''%s'' @ [CHR 39]"
| "error_message ERROR_QUERY_FUNCTION_INVALID_CODE = ''invalid user function code''"
| "error_message ERROR_QUERY_FUNCTION_NOT_FOUND =
     ''user function '' @ [CHR 39] @ ''%s()'' @ [CHR 39] @ '' not found''"
| "error_message ERROR_QUERY_FUNCTION_RUNTIME_ERROR = ''user function runtime error: %s''"

text \<open>
  \<open>message.replace(/%s/, data)\<close>: the first \<open>%s\<close>, with the \<open>$\<close> sequences of a replacement string
  expanded (\<open>$$\<close>, \<open>$&\<close>, \<open>$`\<close> and \<open>$'\<close>; the pattern has no groups).
\<close>

fun expand_replacement :: "string \<Rightarrow> string \<Rightarrow> string \<Rightarrow> string \<Rightarrow> string" where
  "expand_replacement pre m post [] = []"
| "expand_replacement pre m post [c] = [c]"
| "expand_replacement pre m post (c # d # cs) =
     (if c = CHR ''$'' \<and> d = CHR ''$'' then CHR ''$'' # expand_replacement pre m post cs
      else if c = CHR ''$'' \<and> d = CHR ''&'' then m @ expand_replacement pre m post cs
      else if c = CHR ''$'' \<and> d = CHR 96 then pre @ expand_replacement pre m post cs
      else if c = CHR ''$'' \<and> d = CHR 39 then post @ expand_replacement pre m post cs
      else c # expand_replacement pre m post (d # cs))"

fun replace_first :: "string \<Rightarrow> string \<Rightarrow> string \<Rightarrow> string" where
  "replace_first pre [] data = []"
| "replace_first pre (c # cs) data =
     (if take 2 (c # cs) = ''%s'' then expand_replacement pre ''%s'' (drop 2 (c # cs)) data @ drop 2 (c # cs)
      else c # replace_first (pre @ [c]) cs data)"

type_synonym warning = "int \<times> string"

text \<open>\<open>func\<close> is \<open>None\<close> where the code passes \<open>null\<close>; \<open>data\<close> is \<open>None\<close> where it passes no string.\<close>

definition in_function :: "string \<Rightarrow> string" where
  "in_function f = ''in function '' @ [CHR 39] @ f @ ''()'' @ [CHR 39] @ '': ''"

definition WARN :: "string option \<Rightarrow> aql_error \<Rightarrow> string option \<Rightarrow> warning" where
  "WARN func error data =
     (if error_code error = error_code ERROR_QUERY_FUNCTION_ARGUMENT_TYPE_MISMATCH
      then (error_code error,
            replace_first [] (error_message error) (case func of None \<Rightarrow> ''null'' | Some f \<Rightarrow> f))
      else let prefix = (case func of None \<Rightarrow> [] | Some f \<Rightarrow> in_function f)
           in case data of
                Some d \<Rightarrow> (error_code error, prefix @ replace_first [] (error_message error) d)
              | None \<Rightarrow> (error_code error, prefix @ error_message error))"

definition THROW :: "string option \<Rightarrow> aql_error \<Rightarrow> string option \<Rightarrow> js_exc" where
  "THROW func error data =
     (let prefix = (case func of None \<Rightarrow> [] | Some f \<Rightarrow> if f = [] then [] else in_function f)
      in case data of
           Some d \<Rightarrow> ArangoError (error_code error) (prefix @ replace_first [] (error_message error) d)
         | None \<Rightarrow> ArangoError (error_code error) (prefix @ error_message error))"

type_synonym 'a warned = "'a \<times> warning list"

definition mismatch :: "string \<Rightarrow> 'a \<Rightarrow> 'a warned" where
  "mismatch func v = (v, [WARN (Some func) ERROR_QUERY_FUNCTION_ARGUMENT_TYPE_MISMATCH None])"

definition array_expected :: "string \<Rightarrow> 'a \<Rightarrow> 'a warned" where
  "array_expected func v = (v, [WARN (Some func) ERROR_QUERY_ARRAY_EXPECTED None])"

abbreviation quiet :: "'a \<Rightarrow> 'a warned" where
  "quiet v \<equiv> (v, [])"

subsection \<open>Type weights\<close>

definition TYPEWEIGHT_NULL :: nat where [typeweight_simps]: "TYPEWEIGHT_NULL = 0"
definition TYPEWEIGHT_BOOL :: nat where [typeweight_simps]: "TYPEWEIGHT_BOOL = 1"
definition TYPEWEIGHT_NUMBER :: nat where [typeweight_simps]: "TYPEWEIGHT_NUMBER = 2"
definition TYPEWEIGHT_STRING :: nat where [typeweight_simps]: "TYPEWEIGHT_STRING = 4"
definition TYPEWEIGHT_ARRAY :: nat where [typeweight_simps]: "TYPEWEIGHT_ARRAY = 8"
definition TYPEWEIGHT_OBJECT :: nat where [typeweight_simps]: "TYPEWEIGHT_OBJECT = 16"

fun TYPEWEIGHT :: "jsval \<Rightarrow> nat" where
  "TYPEWEIGHT (JArr _) = TYPEWEIGHT_ARRAY"
| "TYPEWEIGHT (JBool _) = TYPEWEIGHT_BOOL"
| "TYPEWEIGHT (JNum n) = (if \<not> is_finite n then TYPEWEIGHT_NULL else TYPEWEIGHT_NUMBER)"
| "TYPEWEIGHT (JStr _) = TYPEWEIGHT_STRING"
| "TYPEWEIGHT (JObj _) = TYPEWEIGHT_OBJECT"
| "TYPEWEIGHT _ = TYPEWEIGHT_NULL"

lemma is_finite_iff: "is_finite n \<longleftrightarrow> (\<exists>r. n = Fin r)"
  by (cases n) auto

lemma TYPEWEIGHT_cases:
  obtains (null) "TYPEWEIGHT v = TYPEWEIGHT_NULL"
  | (bool) b where "v = JBool b"
  | (num) r where "v = JNum (Fin r)"
  | (str) s where "v = JStr s"
  | (arr) xs where "v = JArr xs"
  | (obj) ob where "v = JObj ob"
proof (cases v)
  case (JNum n)
  then show thesis using null num by (cases n) auto
qed (auto intro: that)

text \<open>Two values side by side: different weights, or the same shape.\<close>

lemma TYPEWEIGHT_pair_cases [case_names less greater null bool num str arr obj]:
  obtains "TYPEWEIGHT l < TYPEWEIGHT r" | "TYPEWEIGHT r < TYPEWEIGHT l"
  | "TYPEWEIGHT l = TYPEWEIGHT_NULL" "TYPEWEIGHT r = TYPEWEIGHT_NULL"
  | b c where "l = JBool b" "r = JBool c"
  | x y where "l = JNum (Fin x)" "r = JNum (Fin y)"
  | s t where "l = JStr s" "r = JStr t"
  | xs ys where "l = JArr xs" "r = JArr ys"
  | lo ro where "l = JObj lo" "r = JObj ro"
  by (cases l rule: TYPEWEIGHT_cases; cases r rule: TYPEWEIGHT_cases)
    (auto simp: typeweight_simps)

lemma TYPEWEIGHT_iff:
  "TYPEWEIGHT v = TYPEWEIGHT_ARRAY \<longleftrightarrow> (\<exists>xs. v = JArr xs)"
  "TYPEWEIGHT v = TYPEWEIGHT_OBJECT \<longleftrightarrow> (\<exists>ob. v = JObj ob)"
  "TYPEWEIGHT v = TYPEWEIGHT_STRING \<longleftrightarrow> (\<exists>s. v = JStr s)"
  "TYPEWEIGHT v = TYPEWEIGHT_NUMBER \<longleftrightarrow> (\<exists>r. v = JNum (Fin r))"
  "TYPEWEIGHT v = TYPEWEIGHT_BOOL \<longleftrightarrow> (\<exists>b. v = JBool b)"
  by (cases v; auto simp: typeweight_simps is_finite_iff)+

lemma TYPEWEIGHT_composite:
  "TYPEWEIGHT_ARRAY \<le> TYPEWEIGHT v \<longleftrightarrow> (\<exists>xs. v = JArr xs) \<or> (\<exists>ob. v = JObj ob)"
  by (cases v) (auto simp: typeweight_simps)

lemma TYPEWEIGHT_distinct [simp]:
  "TYPEWEIGHT_NULL \<noteq> TYPEWEIGHT_BOOL" "TYPEWEIGHT_NULL \<noteq> TYPEWEIGHT_NUMBER"
  "TYPEWEIGHT_NULL \<noteq> TYPEWEIGHT_STRING" "TYPEWEIGHT_NULL \<noteq> TYPEWEIGHT_ARRAY"
  "TYPEWEIGHT_NULL \<noteq> TYPEWEIGHT_OBJECT" "TYPEWEIGHT_BOOL \<noteq> TYPEWEIGHT_NUMBER"
  "TYPEWEIGHT_BOOL \<noteq> TYPEWEIGHT_STRING" "TYPEWEIGHT_BOOL \<noteq> TYPEWEIGHT_ARRAY"
  "TYPEWEIGHT_BOOL \<noteq> TYPEWEIGHT_OBJECT" "TYPEWEIGHT_NUMBER \<noteq> TYPEWEIGHT_STRING"
  "TYPEWEIGHT_NUMBER \<noteq> TYPEWEIGHT_ARRAY" "TYPEWEIGHT_NUMBER \<noteq> TYPEWEIGHT_OBJECT"
  "TYPEWEIGHT_STRING \<noteq> TYPEWEIGHT_ARRAY" "TYPEWEIGHT_STRING \<noteq> TYPEWEIGHT_OBJECT"
  "TYPEWEIGHT_ARRAY \<noteq> TYPEWEIGHT_OBJECT"
  by (simp_all add: typeweight_simps)

lemmas TYPEWEIGHT_distinct_sym [simp] = TYPEWEIGHT_distinct [symmetric]

subsection \<open>Cloning, boxing and normalising\<close>

text \<open>
  The copy of an object is made in the enumeration order of the original. The code's \<open>FIX_VALUE\<close>
  overwrites the elements of an array in place and returns the array.
\<close>

fun CLONE :: "jsval \<Rightarrow> jsval" where
  "CLONE (JArr xs) = JArr (map CLONE xs)"
| "CLONE (JObj ob) = JObj (map (\<lambda>(k, v). (k, CLONE v)) (object_entries ob))"
| "CLONE v = v"

definition is_function :: "jsval \<Rightarrow> bool" where
  "is_function v \<longleftrightarrow> (case v of JFun _ \<Rightarrow> True | _ \<Rightarrow> False)"

fun FIX_VALUE :: "jsval \<Rightarrow> jsval" where
  "FIX_VALUE JUndef = JNull"
| "FIX_VALUE JNull = JNull"
| "FIX_VALUE (JNum n) = (if \<not> is_finite n then JNull else JNum n)"
| "FIX_VALUE (JBool b) = JBool b"
| "FIX_VALUE (JStr s) = JStr s"
| "FIX_VALUE (JArr xs) = JArr (map FIX_VALUE xs)"
| "FIX_VALUE (JObj ob) = JObj (map (\<lambda>(k, v). (k, FIX_VALUE v))
      (filter (\<lambda>(k, v). \<not> is_function v) (object_entries ob)))"
| "FIX_VALUE (JFun _) = JNull"

definition NUMERIC_VALUE :: "jsnum \<Rightarrow> jsval" where
  "NUMERIC_VALUE n = (if \<not> is_finite n then JNull else JNum n)"

definition FIX :: "jsval \<Rightarrow> jsval" where
  "FIX v = (if v = JUndef then JNull else v)"

definition VALUES :: "jsobj \<Rightarrow> jsval list" where
  "VALUES ob = map (obj_get ob) (object_keys ob)"

text \<open>\<open>KEYS\<close>: the indices of an array, the (sorted) attribute names of an object.\<close>

fun KEYS :: "jsval \<Rightarrow> bool \<Rightarrow> jskey list" where
  "KEYS (JArr xs) doSort = map KIdx [0..<length xs]"
| "KEYS (JObj ob) doSort =
     map KName (if doSort then sort (object_keys ob) else object_keys ob)"
| "KEYS _ doSort = []"

fun KEYLIST :: "jsval \<Rightarrow> jsval \<Rightarrow> jskey list" where
  "KEYLIST (JArr xs) (JArr ys) =
     KEYS (if length xs > length ys then JArr xs else JArr ys) False"
| "KEYLIST (JObj l) (JObj r) =
     map KName (sort (object_keys l @ filter (\<lambda>a. \<not> obj_has l a) (object_keys r)))"
| "KEYLIST _ _ = []"

fun NORMALIZE :: "jsval \<Rightarrow> jsval" where
  "NORMALIZE JUndef = JNull"
| "NORMALIZE JNull = JNull"
| "NORMALIZE (JArr xs) = JArr (map NORMALIZE xs)"
| "NORMALIZE (JObj ob) = JObj (map (\<lambda>a. (a, NORMALIZE (obj_get ob a))) (sort (object_keys ob)))"
| "NORMALIZE v = v"

definition TO_LIST :: "jsval \<Rightarrow> bool \<Rightarrow> jsval list" where
  "TO_LIST param isStringHash =
     (let p1 = (if \<not> js_truthy param then (if isStringHash then JArr [] else JArr [JObj []]) else param);
          p2 = (case p1 of JStr s \<Rightarrow> if isStringHash then JArr [p1] else JObj [(''_id'', p1)] | _ \<Rightarrow> p1)
      in case p2 of JArr xs \<Rightarrow> xs | _ \<Rightarrow> [p2])"

subsection \<open>Member access\<close>

definition GET_INDEX :: "jsval \<Rightarrow> jsval \<Rightarrow> jsval" where
  "GET_INDEX value index =
     (if TYPEWEIGHT value = TYPEWEIGHT_NULL then JNull
      else let result = (case value of
               JObj ob \<Rightarrow> Some (obj_get ob (js_string index))
             | JArr xs \<Rightarrow>
                 (let i = parse_int10 (js_string index);
                      i' = (if num_lt i (Fin 0) then num_add (Fin (of_nat (length xs))) i else i)
                  in case i' of
                       Fin r \<Rightarrow> Some (if 0 \<le> r \<and> r \<le> of_nat (length xs) - 1
                                      then arr_get xs (nat \<lfloor>r\<rfloor>) else JNull)
                     | _ \<Rightarrow> Some JNull)
             | _ \<Rightarrow> None)
           in case result of None \<Rightarrow> JNull
              | Some v \<Rightarrow> if TYPEWEIGHT v = TYPEWEIGHT_NULL then JNull else v)"

definition DOCUMENT_MEMBER :: "jsval \<Rightarrow> string \<Rightarrow> jsval" where
  "DOCUMENT_MEMBER value attributeName =
     (case value of
        JObj ob \<Rightarrow> (let result = obj_get ob attributeName
           in if TYPEWEIGHT result = TYPEWEIGHT_NULL then JNull else result)
      | _ \<Rightarrow> JNull)"

text \<open>
  \<open>EXTRACT_KEYS\<close> collects attribute names from an argument list, starting at an index; a nested list
  with anything but strings is a warning and \<open>null\<close> (here \<open>None\<close>).
\<close>

fun extract_nested :: "string \<Rightarrow> jsobj \<Rightarrow> jsval list \<Rightarrow> jsobj option warned" where
  "extract_nested func keys [] = quiet (Some keys)"
| "extract_nested func keys (key2 # rest) =
     (case key2 of
        JStr s \<Rightarrow> extract_nested func (obj_put s (JBool True) keys) rest
      | _ \<Rightarrow> mismatch func None)"

fun extract_loop :: "string \<Rightarrow> jsobj \<Rightarrow> jsval list \<Rightarrow> jsobj option warned" where
  "extract_loop func keys [] = quiet (Some keys)"
| "extract_loop func keys (key # rest) =
     (case key of
        JStr s \<Rightarrow> extract_loop func (obj_put s (JBool True) keys) rest
      | JNum n \<Rightarrow> extract_loop func (obj_put (num_string n) (JBool True) keys) rest
      | JArr xs \<Rightarrow> (case extract_nested func keys xs of
            (None, ws) \<Rightarrow> (None, ws)
          | (Some keys', ws) \<Rightarrow>
              (let (r, ws') = extract_loop func keys' rest in (r, ws @ ws')))
      | _ \<Rightarrow> extract_loop func keys rest)"

definition EXTRACT_KEYS :: "jsval list \<Rightarrow> nat \<Rightarrow> string \<Rightarrow> jsobj option warned" where
  "EXTRACT_KEYS args startArgument func = extract_loop func [] (drop startArgument args)"

text \<open>The part of a function name after the first \<open>::\<close>.\<close>

fun after_namespace :: "string \<Rightarrow> string option" where
  "after_namespace [] = None"
| "after_namespace (c # cs) = (if take 2 (c # cs) = ''::'' then Some (drop 2 (c # cs)) else after_namespace cs)"

definition NORMALIZE_FNAME :: "string \<Rightarrow> string" where
  "NORMALIZE_FNAME functionName =
     (case after_namespace functionName of None \<Rightarrow> functionName | Some rest \<Rightarrow> rest)"

subsection \<open>Laws of the helpers\<close>

lemma mset_object_keys [simp]: "mset (object_keys ob) = mset (map fst ob)"
  by (simp add: object_keys_def Let_def multiset_partition [symmetric])

lemma sort_object_keys: "sort (object_keys ob) = sort (map fst ob)"
  by (rule properties_for_sort) simp_all

lemma obj_get_map_entries:
  "obj_get (map (\<lambda>(k, v). (k, f v)) (object_entries ob)) k =
     (if obj_has ob k then f (obj_get ob k) else JUndef)"
proof -
  have "map_of (map (\<lambda>(k, v). (k, f v)) (object_entries ob)) k
      = (if obj_has ob k then Some (f (obj_get ob k)) else None)"
    by (simp add: object_entries_def comp_def map_of_map_Pair)
  then show ?thesis by (simp add: obj_get_def [of "map _ _"])
qed

lemma TYPEWEIGHT_CLONE [simp]: "TYPEWEIGHT (CLONE v) = TYPEWEIGHT v"
  by (cases v) auto

lemma CLONE_keys: "fst ` set (map (\<lambda>(k, v). (k, CLONE v)) (object_entries ob)) = {k. obj_has ob k}"
  by (force simp: object_entries_def)

lemma obj_get_CLONE: "obj_get (map (\<lambda>(k, v). (k, CLONE v)) (object_entries ob)) k = CLONE (obj_get ob k)"
  by (simp add: obj_get_map_entries obj_get_absent)

lemma NORMALIZE_obj_get:
  "obj_get (map (\<lambda>a. (a, NORMALIZE (obj_get ob a))) (sort (object_keys ob))) k =
     (if obj_has ob k then NORMALIZE (obj_get ob k) else JUndef)"
  by (simp add: obj_get_def [of "map _ _"] map_of_map_Pair)

lemma NORMALIZE_idem: "NORMALIZE (NORMALIZE v) = NORMALIZE v"
proof (induction v rule: NORMALIZE.induct)
  case (4 ob)
  let ?ob = "map (\<lambda>a. (a, NORMALIZE (obj_get ob a))) (sort (object_keys ob))"
  have "sort (object_keys ?ob) = sort (object_keys ob)"
    by (simp add: sort_object_keys [of ?ob] comp_def sorted_sort_id)
  then show ?case using 4 by (simp add: NORMALIZE_obj_get)
qed auto

text \<open>A boxed value: no \<open>undefined\<close>, no function and no number that is not finite at any depth.\<close>

fun boxed :: "jsval \<Rightarrow> bool" where
  "boxed JUndef = False"
| "boxed (JFun _) = False"
| "boxed (JNum n) = is_finite n"
| "boxed (JArr xs) = list_all boxed xs"
| "boxed (JObj ob) = list_all (\<lambda>(k, v). boxed v) ob"
| "boxed _ = True"

lemma FIX_VALUE_boxed: "boxed (FIX_VALUE v)"
  by (induction v rule: FIX_VALUE.induct) (auto simp: list_all_iff)

end
