(* ===== verification/AQL_Compare.thy ===== *)
theory AQL_Compare
  imports AQL_Types
begin

text \<open>
  The comparison operations of \<open>aql.js\<close>. The collation of strings, \<open>COMPARE_STRING\<close>, is native code
  on top of the ICU library: it is the parameter \<open>cs\<close> of every definition, and the contract that the
  laws below rely on is the locale \<open>comparator\<close>.
\<close>

lemma js_get_size: "TYPEWEIGHT_ARRAY \<le> TYPEWEIGHT v \<Longrightarrow> size (js_get v k) < size v"
  unfolding TYPEWEIGHT_composite
  using arr_get_size obj_get_size by (cases k) fastforce+

subsection \<open>The operations\<close>

function RELATIONAL_EQUAL :: "(string \<Rightarrow> string \<Rightarrow> int) \<Rightarrow> jsval \<Rightarrow> jsval \<Rightarrow> bool" where
  "RELATIONAL_EQUAL cs lhs rhs =
     (if TYPEWEIGHT lhs \<noteq> TYPEWEIGHT rhs then False
      else if TYPEWEIGHT lhs \<ge> TYPEWEIGHT_ARRAY then
        list_all (\<lambda>key. RELATIONAL_EQUAL cs (js_get lhs key) (js_get rhs key)) (KEYLIST lhs rhs)
      else if TYPEWEIGHT lhs = TYPEWEIGHT_NULL then True
      else (case (lhs, rhs) of
          (JStr s, JStr t) \<Rightarrow> cs s t = 0
        | _ \<Rightarrow> js_eq lhs rhs))"
  by pat_completeness auto
termination
  by (relation "measure (\<lambda>(cs, l, r). size l)") (auto intro: js_get_size)

function RELATIONAL_UNEQUAL :: "(string \<Rightarrow> string \<Rightarrow> int) \<Rightarrow> jsval \<Rightarrow> jsval \<Rightarrow> bool" where
  "RELATIONAL_UNEQUAL cs lhs rhs =
     (if TYPEWEIGHT lhs \<noteq> TYPEWEIGHT rhs then True
      else if TYPEWEIGHT lhs \<ge> TYPEWEIGHT_ARRAY then
        list_ex (\<lambda>key. RELATIONAL_UNEQUAL cs (js_get lhs key) (js_get rhs key)) (KEYLIST lhs rhs)
      else if TYPEWEIGHT lhs = TYPEWEIGHT_NULL then False
      else (case (lhs, rhs) of
          (JStr s, JStr t) \<Rightarrow> cs s t \<noteq> 0
        | _ \<Rightarrow> \<not> js_eq lhs rhs))"
  by pat_completeness auto
termination
  by (relation "measure (\<lambda>(cs, l, r). size l)") (auto intro: js_get_size)

function RELATIONAL_GREATER_REC :: "(string \<Rightarrow> string \<Rightarrow> int) \<Rightarrow> jsval \<Rightarrow> jsval \<Rightarrow> bool option" where
  "RELATIONAL_GREATER_REC cs lhs rhs =
     (if TYPEWEIGHT lhs > TYPEWEIGHT rhs then Some True
      else if TYPEWEIGHT lhs < TYPEWEIGHT rhs then Some False
      else if TYPEWEIGHT lhs \<ge> TYPEWEIGHT_ARRAY then
        first_some (\<lambda>key. RELATIONAL_GREATER_REC cs (js_get lhs key) (js_get rhs key)) (KEYLIST lhs rhs)
      else if TYPEWEIGHT lhs = TYPEWEIGHT_NULL then None
      else (case (lhs, rhs) of
          (JStr s, JStr t) \<Rightarrow> Some (cs s t > 0)
        | _ \<Rightarrow> if js_eq lhs rhs then None else Some (js_lt rhs lhs)))"
  by pat_completeness auto
termination
  by (relation "measure (\<lambda>(cs, l, r). size l)") (auto intro: js_get_size)

definition RELATIONAL_GREATER :: "(string \<Rightarrow> string \<Rightarrow> int) \<Rightarrow> jsval \<Rightarrow> jsval \<Rightarrow> bool" where
  "RELATIONAL_GREATER cs lhs rhs =
     (case RELATIONAL_GREATER_REC cs lhs rhs of None \<Rightarrow> False | Some b \<Rightarrow> b)"

function RELATIONAL_GREATEREQUAL_REC :: "(string \<Rightarrow> string \<Rightarrow> int) \<Rightarrow> jsval \<Rightarrow> jsval \<Rightarrow> bool option" where
  "RELATIONAL_GREATEREQUAL_REC cs lhs rhs =
     (if TYPEWEIGHT lhs > TYPEWEIGHT rhs then Some True
      else if TYPEWEIGHT lhs < TYPEWEIGHT rhs then Some False
      else if TYPEWEIGHT lhs \<ge> TYPEWEIGHT_ARRAY then
        first_some (\<lambda>key. RELATIONAL_GREATEREQUAL_REC cs (js_get lhs key) (js_get rhs key)) (KEYLIST lhs rhs)
      else if TYPEWEIGHT lhs = TYPEWEIGHT_NULL then None
      else (case (lhs, rhs) of
          (JStr s, JStr t) \<Rightarrow> Some (cs s t \<ge> 0)
        | _ \<Rightarrow> if js_eq lhs rhs then None else Some (js_le rhs lhs)))"
  by pat_completeness auto
termination
  by (relation "measure (\<lambda>(cs, l, r). size l)") (auto intro: js_get_size)

definition RELATIONAL_GREATEREQUAL :: "(string \<Rightarrow> string \<Rightarrow> int) \<Rightarrow> jsval \<Rightarrow> jsval \<Rightarrow> bool" where
  "RELATIONAL_GREATEREQUAL cs lhs rhs =
     (case RELATIONAL_GREATEREQUAL_REC cs lhs rhs of None \<Rightarrow> True | Some b \<Rightarrow> b)"

function RELATIONAL_LESS_REC :: "(string \<Rightarrow> string \<Rightarrow> int) \<Rightarrow> jsval \<Rightarrow> jsval \<Rightarrow> bool option" where
  "RELATIONAL_LESS_REC cs lhs rhs =
     (if TYPEWEIGHT lhs < TYPEWEIGHT rhs then Some True
      else if TYPEWEIGHT lhs > TYPEWEIGHT rhs then Some False
      else if TYPEWEIGHT lhs \<ge> TYPEWEIGHT_ARRAY then
        first_some (\<lambda>key. RELATIONAL_LESS_REC cs (js_get lhs key) (js_get rhs key)) (KEYLIST lhs rhs)
      else if TYPEWEIGHT lhs = TYPEWEIGHT_NULL then None
      else (case (lhs, rhs) of
          (JStr s, JStr t) \<Rightarrow> Some (cs s t < 0)
        | _ \<Rightarrow> if js_eq lhs rhs then None else Some (js_lt lhs rhs)))"
  by pat_completeness auto
termination
  by (relation "measure (\<lambda>(cs, l, r). size l)") (auto intro: js_get_size)

definition RELATIONAL_LESS :: "(string \<Rightarrow> string \<Rightarrow> int) \<Rightarrow> jsval \<Rightarrow> jsval \<Rightarrow> bool" where
  "RELATIONAL_LESS cs lhs rhs =
     (case RELATIONAL_LESS_REC cs lhs rhs of None \<Rightarrow> False | Some b \<Rightarrow> b)"

function RELATIONAL_LESSEQUAL_REC :: "(string \<Rightarrow> string \<Rightarrow> int) \<Rightarrow> jsval \<Rightarrow> jsval \<Rightarrow> bool option" where
  "RELATIONAL_LESSEQUAL_REC cs lhs rhs =
     (if TYPEWEIGHT lhs < TYPEWEIGHT rhs then Some True
      else if TYPEWEIGHT lhs > TYPEWEIGHT rhs then Some False
      else if TYPEWEIGHT lhs \<ge> TYPEWEIGHT_ARRAY then
        first_some (\<lambda>key. RELATIONAL_LESSEQUAL_REC cs (js_get lhs key) (js_get rhs key)) (KEYLIST lhs rhs)
      else if TYPEWEIGHT lhs = TYPEWEIGHT_NULL then None
      else (case (lhs, rhs) of
          (JStr s, JStr t) \<Rightarrow> Some (cs s t \<le> 0)
        | _ \<Rightarrow> if js_eq lhs rhs then None else Some (js_le lhs rhs)))"
  by pat_completeness auto
termination
  by (relation "measure (\<lambda>(cs, l, r). size l)") (auto intro: js_get_size)

definition RELATIONAL_LESSEQUAL :: "(string \<Rightarrow> string \<Rightarrow> int) \<Rightarrow> jsval \<Rightarrow> jsval \<Rightarrow> bool" where
  "RELATIONAL_LESSEQUAL cs lhs rhs =
     (case RELATIONAL_LESSEQUAL_REC cs lhs rhs of None \<Rightarrow> True | Some b \<Rightarrow> b)"

function RELATIONAL_CMP :: "(string \<Rightarrow> string \<Rightarrow> int) \<Rightarrow> jsval \<Rightarrow> jsval \<Rightarrow> int" where
  "RELATIONAL_CMP cs lhs rhs =
     (if TYPEWEIGHT lhs < TYPEWEIGHT rhs then - 1
      else if TYPEWEIGHT lhs > TYPEWEIGHT rhs then 1
      else if TYPEWEIGHT lhs \<ge> TYPEWEIGHT_ARRAY then
        first_nonzero (\<lambda>key. RELATIONAL_CMP cs (js_get lhs key) (js_get rhs key)) (KEYLIST lhs rhs)
      else if TYPEWEIGHT lhs = TYPEWEIGHT_NULL then 0
      else (case (lhs, rhs) of
          (JStr s, JStr t) \<Rightarrow> cs s t
        | _ \<Rightarrow> if js_lt lhs rhs then - 1 else if js_lt rhs lhs then 1 else 0))"
  by pat_completeness auto
termination
  by (relation "measure (\<lambda>(cs, l, r). size l)") (auto intro: js_get_size)

declare RELATIONAL_EQUAL.simps [simp del] RELATIONAL_UNEQUAL.simps [simp del]
  RELATIONAL_GREATER_REC.simps [simp del] RELATIONAL_GREATEREQUAL_REC.simps [simp del]
  RELATIONAL_LESS_REC.simps [simp del] RELATIONAL_LESSEQUAL_REC.simps [simp del]
  RELATIONAL_CMP.simps [simp del]

text \<open>\<open>IN\<close> raises a warning and is false when the right operand is not an array.\<close>

definition RELATIONAL_IN :: "(string \<Rightarrow> string \<Rightarrow> int) \<Rightarrow> jsval \<Rightarrow> jsval \<Rightarrow> bool warned" where
  "RELATIONAL_IN cs lhs rhs =
     (case rhs of
        JArr ys \<Rightarrow> quiet (list_ex (RELATIONAL_EQUAL cs lhs) ys)
      | _ \<Rightarrow> (False, [WARN None ERROR_QUERY_ARRAY_EXPECTED None]))"

definition RELATIONAL_NOT_IN :: "(string \<Rightarrow> string \<Rightarrow> int) \<Rightarrow> jsval \<Rightarrow> jsval \<Rightarrow> bool warned" where
  "RELATIONAL_NOT_IN cs lhs rhs = (let (r, ws) = RELATIONAL_IN cs lhs rhs in (\<not> r, ws))"

subsection \<open>Characteristic equations\<close>

lemma RELATIONAL_CMP_null:
  "TYPEWEIGHT l = TYPEWEIGHT_NULL \<Longrightarrow> TYPEWEIGHT r = TYPEWEIGHT_NULL \<Longrightarrow> RELATIONAL_CMP cs l r = 0"
  by (subst RELATIONAL_CMP.simps) (simp add: typeweight_simps)

lemma RELATIONAL_CMP_weight:
  "TYPEWEIGHT l < TYPEWEIGHT r \<Longrightarrow> RELATIONAL_CMP cs l r = - 1"
  "TYPEWEIGHT r < TYPEWEIGHT l \<Longrightarrow> RELATIONAL_CMP cs l r = 1"
  by (subst RELATIONAL_CMP.simps, simp)+

lemma RELATIONAL_CMP_prim [aql_simps]:
  "RELATIONAL_CMP cs (JStr s) (JStr t) = cs s t"
  "RELATIONAL_CMP cs (JNum (Fin a)) (JNum (Fin b)) = (if a < b then - 1 else if b < a then 1 else 0)"
  "RELATIONAL_CMP cs (JBool p) (JBool q) = (if \<not> p \<and> q then - 1 else if p \<and> \<not> q then 1 else 0)"
  by (subst RELATIONAL_CMP.simps, simp add: typeweight_simps)+

lemma RELATIONAL_CMP_undef [simp]: "RELATIONAL_CMP cs JUndef JUndef = 0"
  by (rule RELATIONAL_CMP_null) simp_all

definition arr_cmp :: "(string \<Rightarrow> string \<Rightarrow> int) \<Rightarrow> jsval list \<Rightarrow> jsval list \<Rightarrow> nat \<Rightarrow> int" where
  "arr_cmp cs xs ys i = RELATIONAL_CMP cs (arr_get xs i) (arr_get ys i)"

definition obj_cmp :: "(string \<Rightarrow> string \<Rightarrow> int) \<Rightarrow> jsobj \<Rightarrow> jsobj \<Rightarrow> string \<Rightarrow> int" where
  "obj_cmp cs l r k = RELATIONAL_CMP cs (obj_get l k) (obj_get r k)"

lemma KEYLIST_arr: "KEYLIST (JArr xs) (JArr ys) = map KIdx [0..<max (length xs) (length ys)]"
  by (simp add: max_def)

lemma RELATIONAL_CMP_arr:
  "RELATIONAL_CMP cs (JArr xs) (JArr ys) = first_nonzero (arr_cmp cs xs ys) [0..<max (length xs) (length ys)]"
  by (subst RELATIONAL_CMP.simps)
    (simp add: KEYLIST_arr first_nonzero_map comp_def arr_cmp_def typeweight_simps del: KEYLIST.simps cong: first_nonzero_cong)

lemma RELATIONAL_CMP_obj:
  "RELATIONAL_CMP cs (JObj l) (JObj r) =
     first_nonzero (obj_cmp cs l r) (sorted_list_of_set {k. obj_has l k \<or> obj_has r k})"
proof -
  have "set (object_keys l @ filter (\<lambda>a. \<not> obj_has l a) (object_keys r)) = {k. obj_has l k \<or> obj_has r k}"
    by auto
  then show ?thesis
    by (subst RELATIONAL_CMP.simps)
      (simp add: first_nonzero_map first_nonzero_sort comp_def obj_cmp_def typeweight_simps cong: first_nonzero_cong)
qed

lemma finite_obj_has [simp]: "finite {k. obj_has ob k}"
  by (metis List.finite_set set_object_keys)

text \<open>The scan may run over any larger range: the extra keys compare \<open>undefined\<close> with \<open>undefined\<close>.\<close>

lemma RELATIONAL_CMP_arr_range:
  assumes "max (length xs) (length ys) \<le> n"
  shows "RELATIONAL_CMP cs (JArr xs) (JArr ys) = first_nonzero (arr_cmp cs xs ys) [0..<n]"
  unfolding RELATIONAL_CMP_arr
  by (rule first_nonzero_upt_extend [OF assms]) (auto simp: arr_cmp_def arr_get_def)

lemma RELATIONAL_CMP_obj_range:
  assumes "finite K" "{k. obj_has l k \<or> obj_has r k} \<subseteq> K"
  shows "RELATIONAL_CMP cs (JObj l) (JObj r) = first_nonzero (obj_cmp cs l r) (sorted_list_of_set K)"
  unfolding RELATIONAL_CMP_obj
  by (rule first_nonzero_sorted_subset [OF assms]) (auto simp: obj_cmp_def obj_get_absent)

subsection \<open>The comparison is a total preorder\<close>

text \<open>
  The contract of the native collation, and what follows from it for values: antisymmetry by
  induction on the left operand, transitivity by induction on the three operands together, where
  arrays and objects are compared over a key list that covers all three.
\<close>

lemma first_nonzero_sym:
  assumes "\<And>k. (f k \<le> 0 \<longleftrightarrow> 0 \<le> g k) \<and> (0 \<le> f k \<longleftrightarrow> g k \<le> (0 :: int))"
  shows "(first_nonzero f ks \<le> 0 \<longleftrightarrow> 0 \<le> first_nonzero g ks) \<and>
     (0 \<le> first_nonzero f ks \<longleftrightarrow> first_nonzero g ks \<le> 0)"
  using first_nonzero_neg_iff [of ks f g] first_nonzero_neg_iff [of ks g f] assms by metis

lemma arr_trans:
  assumes "\<And>i. cmp_triangle (arr_cmp cs xs ys i) (arr_cmp cs ys zs i) (arr_cmp cs xs zs i)"
    and "RELATIONAL_CMP cs (JArr xs) (JArr ys) \<le> 0" "RELATIONAL_CMP cs (JArr ys) (JArr zs) \<le> 0"
  shows "RELATIONAL_CMP cs (JArr xs) (JArr zs) \<le> 0"
proof -
  define n where "n = max (length xs) (max (length ys) (length zs))"
  have n: "max (length xs) (length ys) \<le> n" "max (length ys) (length zs) \<le> n" "max (length xs) (length zs) \<le> n"
    by (auto simp: n_def)
  show ?thesis
    using assms(2,3) first_nonzero_trans [OF assms(1)]
    by (simp add: RELATIONAL_CMP_arr_range [OF n(1)] RELATIONAL_CMP_arr_range [OF n(2)]
        RELATIONAL_CMP_arr_range [OF n(3)])
qed

lemma obj_trans:
  assumes "\<And>k. cmp_triangle (obj_cmp cs xo yo k) (obj_cmp cs yo zo k) (obj_cmp cs xo zo k)"
    and "RELATIONAL_CMP cs (JObj xo) (JObj yo) \<le> 0" "RELATIONAL_CMP cs (JObj yo) (JObj zo) \<le> 0"
  shows "RELATIONAL_CMP cs (JObj xo) (JObj zo) \<le> 0"
proof -
  define K where "K = {k. obj_has xo k} \<union> {k. obj_has yo k} \<union> {k. obj_has zo k}"
  have K: "finite K" "{k. obj_has xo k \<or> obj_has yo k} \<subseteq> K" "{k. obj_has yo k \<or> obj_has zo k} \<subseteq> K"
    "{k. obj_has xo k \<or> obj_has zo k} \<subseteq> K"
    by (auto simp: K_def)
  show ?thesis
    using assms(2,3) first_nonzero_trans [OF assms(1)]
    by (simp add: RELATIONAL_CMP_obj_range [OF K(1,2)] RELATIONAL_CMP_obj_range [OF K(1,3)]
        RELATIONAL_CMP_obj_range [OF K(1,4)])
qed

locale collation = comparator COMPARE_STRING
  for COMPARE_STRING :: "string \<Rightarrow> string \<Rightarrow> int"
begin

lemma value_sym:
  "(RELATIONAL_CMP COMPARE_STRING l r \<le> 0 \<longleftrightarrow> 0 \<le> RELATIONAL_CMP COMPARE_STRING r l) \<and>
   (0 \<le> RELATIONAL_CMP COMPARE_STRING l r \<longleftrightarrow> RELATIONAL_CMP COMPARE_STRING r l \<le> 0)"
proof (induction l arbitrary: r rule: measure_induct_rule [of size])
  case (less l)
  show ?case
  proof (cases l r rule: TYPEWEIGHT_pair_cases)
    case (str s t)
    then show ?thesis using cmp_sym [of s t] cmp_sym [of t s] by (auto simp: aql_simps)
  next
    case (arr xs ys)
    have "(arr_cmp COMPARE_STRING xs ys i \<le> 0 \<longleftrightarrow> 0 \<le> arr_cmp COMPARE_STRING ys xs i)
      \<and> (0 \<le> arr_cmp COMPARE_STRING xs ys i \<longleftrightarrow> arr_cmp COMPARE_STRING ys xs i \<le> 0)" for i
      unfolding arr_cmp_def by (rule less) (simp only: arr arr_get_size)
    then show ?thesis
      by (simp add: arr RELATIONAL_CMP_arr max.commute [of "length ys"] first_nonzero_sym)
  next
    case (obj lo ro)
    have "(obj_cmp COMPARE_STRING lo ro k \<le> 0 \<longleftrightarrow> 0 \<le> obj_cmp COMPARE_STRING ro lo k)
      \<and> (0 \<le> obj_cmp COMPARE_STRING lo ro k \<longleftrightarrow> obj_cmp COMPARE_STRING ro lo k \<le> 0)" for k
      unfolding obj_cmp_def by (rule less) (simp only: obj obj_get_size)
    then show ?thesis
      by (simp add: obj RELATIONAL_CMP_obj disj_commute [of "obj_has ro _"] first_nonzero_sym)
  qed (simp_all add: RELATIONAL_CMP_weight RELATIONAL_CMP_null aql_simps)
qed

lemma value_triangle_if_trans:
  assumes "RELATIONAL_CMP COMPARE_STRING x y \<le> 0 \<Longrightarrow> RELATIONAL_CMP COMPARE_STRING y z \<le> 0
      \<Longrightarrow> RELATIONAL_CMP COMPARE_STRING x z \<le> 0"
    and "RELATIONAL_CMP COMPARE_STRING y z \<le> 0 \<Longrightarrow> RELATIONAL_CMP COMPARE_STRING z x \<le> 0
      \<Longrightarrow> RELATIONAL_CMP COMPARE_STRING y x \<le> 0"
    and "RELATIONAL_CMP COMPARE_STRING z x \<le> 0 \<Longrightarrow> RELATIONAL_CMP COMPARE_STRING x y \<le> 0
      \<Longrightarrow> RELATIONAL_CMP COMPARE_STRING z y \<le> 0"
  shows "cmp_triangle (RELATIONAL_CMP COMPARE_STRING x y) (RELATIONAL_CMP COMPARE_STRING y z)
    (RELATIONAL_CMP COMPARE_STRING x z)"
  unfolding cmp_triangle_def
  using assms value_sym [of x z] value_sym [of x y] value_sym [of y z] by blast

lemma value_trans:
  "RELATIONAL_CMP COMPARE_STRING x y \<le> 0 \<Longrightarrow> RELATIONAL_CMP COMPARE_STRING y z \<le> 0 \<Longrightarrow>
   RELATIONAL_CMP COMPARE_STRING x z \<le> 0"
proof (induction "size x + size y + size z" arbitrary: x y z rule: less_induct)
  case less
  have same_weight: ?case if "TYPEWEIGHT x = TYPEWEIGHT y" "TYPEWEIGHT y = TYPEWEIGHT z"
  proof (cases x y rule: TYPEWEIGHT_pair_cases)
    case (str s t)
    with that obtain u where "z = JStr u" by (metis TYPEWEIGHT.simps(4) TYPEWEIGHT_iff(3))
    with str show ?thesis using less.prems cmp_trans by (auto simp: aql_simps)
  next
    case (arr xs ys)
    with that obtain zs where z: "z = JArr zs" by (metis TYPEWEIGHT.simps(1) TYPEWEIGHT_iff(1))
    have sz: "size (arr_get xs i) < size x" "size (arr_get ys i) < size y" "size (arr_get zs i) < size z" for i
      by (simp_all only: arr z arr_get_size)
    have "cmp_triangle (arr_cmp COMPARE_STRING xs ys i) (arr_cmp COMPARE_STRING ys zs i)
        (arr_cmp COMPARE_STRING xs zs i)" for i
      unfolding arr_cmp_def
      by (rule value_triangle_if_trans; rule less.hyps; (assumption | use sz [of i] in linarith))
    then show ?thesis using less.prems unfolding arr z by (rule arr_trans)
  next
    case (obj xo yo)
    with that obtain zo where z: "z = JObj zo" by (metis TYPEWEIGHT.simps(5) TYPEWEIGHT_iff(2))
    have sz: "size (obj_get xo k) < size x" "size (obj_get yo k) < size y" "size (obj_get zo k) < size z" for k
      by (simp_all only: obj z obj_get_size)
    have "cmp_triangle (obj_cmp COMPARE_STRING xo yo k) (obj_cmp COMPARE_STRING yo zo k)
        (obj_cmp COMPARE_STRING xo zo k)" for k
      unfolding obj_cmp_def
      by (rule value_triangle_if_trans; rule less.hyps; (assumption | use sz [of k] in linarith))
    then show ?thesis using less.prems unfolding obj z by (rule obj_trans)
  next
    case (bool b c)
    with that obtain d where "z = JBool d" by (metis TYPEWEIGHT.simps(2) TYPEWEIGHT_iff(5))
    with bool show ?thesis using less.prems by (auto simp: aql_simps split: if_splits)
  next
    case (num p q)
    with that obtain r where "z = JNum (Fin r)" by (metis TYPEWEIGHT_iff(4))
    with num show ?thesis using less.prems by (auto simp: aql_simps split: if_splits)
  qed (use that in \<open>simp_all add: RELATIONAL_CMP_null\<close>)
  have "TYPEWEIGHT x \<le> TYPEWEIGHT y" "TYPEWEIGHT y \<le> TYPEWEIGHT z"
    using less.prems RELATIONAL_CMP_weight(2) by (metis not_le not_one_le_zero)+
  then show ?case using same_weight RELATIONAL_CMP_weight(1) [of x z COMPARE_STRING] by fastforce
qed

end

sublocale collation \<subseteq> rel: comparator "RELATIONAL_CMP COMPARE_STRING"
  by unfold_locales (use value_sym value_trans in blast)+

interpretation code_unit_collation: collation code_unit_cmp
  by unfold_locales

subsection \<open>The other operators against the comparison\<close>

lemma list_all_cong_keys: "(\<And>k. k \<in> set ks \<Longrightarrow> P k = Q k) \<Longrightarrow> list_all P ks = list_all Q ks"
  by (induction ks) auto

lemma EQUAL_iff_CMP: "RELATIONAL_EQUAL cs l r \<longleftrightarrow> RELATIONAL_CMP cs l r = 0"
proof (induction l arbitrary: r rule: measure_induct_rule [of size])
  case (less l)
  have "RELATIONAL_EQUAL cs (js_get l k) (js_get r k) \<longleftrightarrow> RELATIONAL_CMP cs (js_get l k) (js_get r k) = 0"
    if "TYPEWEIGHT_ARRAY \<le> TYPEWEIGHT l" for k
    by (rule less) (rule js_get_size [OF that])
  then show ?case
    by (subst RELATIONAL_EQUAL.simps, subst RELATIONAL_CMP.simps, cases l r rule: TYPEWEIGHT_pair_cases)
      (auto simp: list_all_iff typeweight_simps)
qed

lemma UNEQUAL_iff_EQUAL: "RELATIONAL_UNEQUAL cs l r \<longleftrightarrow> \<not> RELATIONAL_EQUAL cs l r"
proof (induction l arbitrary: r rule: measure_induct_rule [of size])
  case (less l)
  have "RELATIONAL_UNEQUAL cs (js_get l k) (js_get r k) \<longleftrightarrow> \<not> RELATIONAL_EQUAL cs (js_get l k) (js_get r k)"
    if "TYPEWEIGHT_ARRAY \<le> TYPEWEIGHT l" for k
    by (rule less) (rule js_get_size [OF that])
  then show ?case
    by (subst RELATIONAL_UNEQUAL.simps, subst RELATIONAL_EQUAL.simps, cases l r rule: TYPEWEIGHT_pair_cases)
      (auto simp: list_all_iff list_ex_iff typeweight_simps)
qed

text \<open>
  A scan with \<open>null\<close> for "equal so far" (\<open>first_some\<close>) agrees with a scan for the first nonzero
  comparison, for every relation between the two kinds of answer that carries over.
\<close>

lemma first_some_nonzero:
  assumes "\<And>k. k \<in> set ks \<Longrightarrow> R (f k) (g k)" and "R None 0"
    and "\<And>c. R None c \<Longrightarrow> c = 0" and "\<And>b c. R (Some b) 0 \<Longrightarrow> R (Some b) c"
  shows "R (first_some f ks) (first_nonzero g ks)"
  using assms(1)
proof (induction ks)
  case Nil
  then show ?case using assms(2) by simp
next
  case (Cons k ks)
  then have "R (f k) (g k)" "R (first_some f ks) (first_nonzero g ks)" by auto
  then show ?case using assms(3,4) by (cases "f k"; cases "g k = 0") (auto simp: Let_def)
qed

text \<open>No strings inside: the values on which the four order operators decide as \<open>RELATIONAL_CMP\<close> does.\<close>

fun string_free :: "jsval \<Rightarrow> bool" where
  "string_free (JStr _) = False"
| "string_free (JArr xs) = list_all string_free xs"
| "string_free (JObj ob) = list_all (\<lambda>(k, v). string_free v) ob"
| "string_free _ = True"

lemma string_free_get: "string_free v \<Longrightarrow> string_free (js_get v k)"
proof (cases v)
  case (JObj ob)
  moreover assume "string_free v"
  ultimately show ?thesis
    by (cases k) (auto simp: obj_get_def list_all_iff dest!: map_of_SomeD split: option.splits)
qed (cases k; auto simp: arr_get_def list_all_iff)+

definition less_answer :: "bool \<Rightarrow> bool option \<Rightarrow> int \<Rightarrow> bool" where
  "less_answer free ans c = (case ans of None \<Rightarrow> c = 0 | Some True \<Rightarrow> c < 0 | Some False \<Rightarrow> free \<longrightarrow> 0 < c)"

definition less_equal_answer :: "bool \<Rightarrow> bool option \<Rightarrow> int \<Rightarrow> bool" where
  "less_equal_answer free ans c = (case ans of None \<Rightarrow> c = 0 | Some True \<Rightarrow> free \<longrightarrow> c < 0 | Some False \<Rightarrow> 0 < c)"

lemmas answer_defs = less_answer_def less_equal_answer_def

lemma first_some_less_answer:
  "(\<And>k. k \<in> set ks \<Longrightarrow> less_answer free (f k) (g k)) \<Longrightarrow>
     less_answer free (first_some f ks) (first_nonzero g ks)"
  "(\<And>k. k \<in> set ks \<Longrightarrow> less_equal_answer free (f k) (g k)) \<Longrightarrow>
     less_equal_answer free (first_some f ks) (first_nonzero g ks)"
  by (rule first_some_nonzero; auto simp: answer_defs split: bool.splits)+

lemma first_some_greater_answer:
  "(\<And>k. k \<in> set ks \<Longrightarrow> less_answer free (f k) (- g k)) \<Longrightarrow>
     less_answer free (first_some f ks) (- first_nonzero g ks)"
  "(\<And>k. k \<in> set ks \<Longrightarrow> less_equal_answer free (f k) (- g k)) \<Longrightarrow>
     less_equal_answer free (first_some f ks) (- first_nonzero g ks)"
  by (rule first_some_nonzero [where R = "\<lambda>a c. less_answer free a (- c)"]
        first_some_nonzero [where R = "\<lambda>a c. less_equal_answer free a (- c)"];
      auto simp: answer_defs split: bool.splits)+

lemma LESS_REC_answer:
  "less_answer (string_free l) (RELATIONAL_LESS_REC cs l r) (RELATIONAL_CMP cs l r)"
proof (induction l arbitrary: r rule: measure_induct_rule [of size])
  case (less l)
  show ?case
  proof (cases "TYPEWEIGHT l = TYPEWEIGHT r \<and> TYPEWEIGHT_ARRAY \<le> TYPEWEIGHT l")
    case True
    then have "less_answer (string_free l) (RELATIONAL_LESS_REC cs (js_get l k) (js_get r k))
        (RELATIONAL_CMP cs (js_get l k) (js_get r k))" for k
      using less [OF js_get_size, of k "js_get r k"] string_free_get [of l k]
      by (auto simp: answer_defs split: option.splits bool.splits)
    then show ?thesis
      using True by (subst RELATIONAL_LESS_REC.simps, subst RELATIONAL_CMP.simps) (simp add: first_some_less_answer)
  next
    case False
    then show ?thesis
      by (subst RELATIONAL_LESS_REC.simps, subst RELATIONAL_CMP.simps, cases l r rule: TYPEWEIGHT_pair_cases)
        (auto simp: typeweight_simps answer_defs num_le_def split: bool.splits)
  qed
qed

lemma LESSEQUAL_REC_answer:
  "less_equal_answer (string_free l) (RELATIONAL_LESSEQUAL_REC cs l r) (RELATIONAL_CMP cs l r)"
proof (induction l arbitrary: r rule: measure_induct_rule [of size])
  case (less l)
  show ?case
  proof (cases "TYPEWEIGHT l = TYPEWEIGHT r \<and> TYPEWEIGHT_ARRAY \<le> TYPEWEIGHT l")
    case True
    then have "less_equal_answer (string_free l) (RELATIONAL_LESSEQUAL_REC cs (js_get l k) (js_get r k))
        (RELATIONAL_CMP cs (js_get l k) (js_get r k))" for k
      using less [OF js_get_size, of k "js_get r k"] string_free_get [of l k]
      by (auto simp: answer_defs split: option.splits bool.splits)
    then show ?thesis
      using True by (subst RELATIONAL_LESSEQUAL_REC.simps, subst RELATIONAL_CMP.simps) (simp add: first_some_less_answer)
  next
    case False
    then show ?thesis
      by (subst RELATIONAL_LESSEQUAL_REC.simps, subst RELATIONAL_CMP.simps, cases l r rule: TYPEWEIGHT_pair_cases)
        (auto simp: typeweight_simps answer_defs num_le_def split: bool.splits)
  qed
qed

lemma GREATER_REC_answer:
  "less_answer (string_free l) (RELATIONAL_GREATER_REC cs l r) (- RELATIONAL_CMP cs l r)"
proof (induction l arbitrary: r rule: measure_induct_rule [of size])
  case (less l)
  show ?case
  proof (cases "TYPEWEIGHT l = TYPEWEIGHT r \<and> TYPEWEIGHT_ARRAY \<le> TYPEWEIGHT l")
    case True
    then have "less_answer (string_free l) (RELATIONAL_GREATER_REC cs (js_get l k) (js_get r k))
        (- RELATIONAL_CMP cs (js_get l k) (js_get r k))" for k
      using less [OF js_get_size, of k "js_get r k"] string_free_get [of l k]
      by (auto simp: answer_defs split: option.splits bool.splits)
    then show ?thesis
      using True by (subst RELATIONAL_GREATER_REC.simps, subst RELATIONAL_CMP.simps) (simp add: first_some_greater_answer)
  next
    case False
    then show ?thesis
      by (subst RELATIONAL_GREATER_REC.simps, subst RELATIONAL_CMP.simps, cases l r rule: TYPEWEIGHT_pair_cases)
        (auto simp: typeweight_simps answer_defs num_le_def split: bool.splits)
  qed
qed

lemma GREATEREQUAL_REC_answer:
  "less_equal_answer (string_free l) (RELATIONAL_GREATEREQUAL_REC cs l r) (- RELATIONAL_CMP cs l r)"
proof (induction l arbitrary: r rule: measure_induct_rule [of size])
  case (less l)
  show ?case
  proof (cases "TYPEWEIGHT l = TYPEWEIGHT r \<and> TYPEWEIGHT_ARRAY \<le> TYPEWEIGHT l")
    case True
    then have "less_equal_answer (string_free l) (RELATIONAL_GREATEREQUAL_REC cs (js_get l k) (js_get r k))
        (- RELATIONAL_CMP cs (js_get l k) (js_get r k))" for k
      using less [OF js_get_size, of k "js_get r k"] string_free_get [of l k]
      by (auto simp: answer_defs split: option.splits bool.splits)
    then show ?thesis
      using True by (subst RELATIONAL_GREATEREQUAL_REC.simps, subst RELATIONAL_CMP.simps) (simp add: first_some_greater_answer)
  next
    case False
    then show ?thesis
      by (subst RELATIONAL_GREATEREQUAL_REC.simps, subst RELATIONAL_CMP.simps, cases l r rule: TYPEWEIGHT_pair_cases)
        (auto simp: typeweight_simps answer_defs num_le_def split: bool.splits)
  qed
qed

context collation
begin

lemma value_comparator: "comparator (RELATIONAL_CMP COMPARE_STRING)"
  by (rule rel.comparator_axioms)

end

lemma RELATIONAL_CMP_comparator: "comparator cs \<Longrightarrow> comparator (RELATIONAL_CMP cs)"
  by (rule collation.value_comparator [OF collation.intro])

lemma EQUAL_refl: "comparator cs \<Longrightarrow> RELATIONAL_EQUAL cs v v"
  by (simp add: EQUAL_iff_CMP comparator.refl [OF RELATIONAL_CMP_comparator])

subsection \<open>Properties\<close>

text \<open>
  C1: for every collation of strings that is a comparison, \<open>RELATIONAL_CMP\<close>, the comparison that AQL
  sorts and groups by, is a total preorder on all values: reflexive, antisymmetric in its sign, total
  and transitive.
\<close>

theorem relational_cmp_total_preorder:
  assumes "comparator cs"
  shows "RELATIONAL_CMP cs x x = 0
    \<and> (RELATIONAL_CMP cs x y < 0 \<longleftrightarrow> 0 < RELATIONAL_CMP cs y x)
    \<and> (RELATIONAL_CMP cs x y \<le> 0 \<or> RELATIONAL_CMP cs y x \<le> 0)
    \<and> (RELATIONAL_CMP cs x y \<le> 0 \<and> RELATIONAL_CMP cs y z \<le> 0 \<longrightarrow> RELATIONAL_CMP cs x z \<le> 0)"
  using RELATIONAL_CMP_comparator [OF assms]
  by (simp add: comparator.refl comparator.less_iff comparator.total) (blast intro: comparator.cmp_trans)

theorem relational_cmp_total_preorder_witness:
  "RELATIONAL_CMP code_unit_cmp (JObj [(''a'', JNum (Fin 1))]) (JObj [(''b'', JNull), (''a'', JArr [])]) \<le> 0
   \<and> RELATIONAL_CMP code_unit_cmp (JObj [(''a'', JNum (Fin 1))]) (JObj [(''a'', JArr [JBool True])]) \<le> 0"
proof -
  let ?x = "JObj [(''a'', JNum (Fin 1))]" and ?y = "JObj [(''b'', JNull), (''a'', JArr [])]"
    and ?z = "JObj [(''a'', JArr [JBool True])]"
  have "RELATIONAL_CMP code_unit_cmp ?x ?y \<le> 0" "RELATIONAL_CMP code_unit_cmp ?y ?z \<le> 0"
    by code_simp+
  then show ?thesis
    using relational_cmp_total_preorder [OF code_unit.comparator_axioms, of ?x ?y ?z] by blast
qed

text \<open>
  \<open>==\<close> holds exactly where the comparison is zero, and \<open>!=\<close> is its negation, on all values and for
  every collation.
\<close>

theorem relational_equal_iff_cmp:
  "(RELATIONAL_EQUAL cs l r \<longleftrightarrow> RELATIONAL_CMP cs l r = 0)
   \<and> (RELATIONAL_UNEQUAL cs l r \<longleftrightarrow> RELATIONAL_CMP cs l r \<noteq> 0)"
  by (simp add: EQUAL_iff_CMP UNEQUAL_iff_EQUAL)

lemmas order_answers = LESS_REC_answer GREATER_REC_answer LESSEQUAL_REC_answer GREATEREQUAL_REC_answer

lemmas order_operators = RELATIONAL_LESS_def RELATIONAL_GREATER_def RELATIONAL_LESSEQUAL_def
  RELATIONAL_GREATEREQUAL_def

text \<open>
  C2: the strict operators never contradict the comparison, on all values: \<open><\<close> implies a negative and
  \<open>>\<close> a positive comparison, and where \<open><=\<close> or \<open>>=\<close> fails the comparison is strictly the other way.
  On a left operand without strings inside, the four operators decide exactly as the comparison does.
\<close>

theorem relational_order_sound:
  "(RELATIONAL_LESS cs l r \<longrightarrow> RELATIONAL_CMP cs l r < 0)
   \<and> (RELATIONAL_GREATER cs l r \<longrightarrow> 0 < RELATIONAL_CMP cs l r)
   \<and> (\<not> RELATIONAL_LESSEQUAL cs l r \<longrightarrow> 0 < RELATIONAL_CMP cs l r)
   \<and> (\<not> RELATIONAL_GREATEREQUAL cs l r \<longrightarrow> RELATIONAL_CMP cs l r < 0)
   \<and> (string_free l \<longrightarrow>
       (RELATIONAL_LESS cs l r \<longleftrightarrow> RELATIONAL_CMP cs l r < 0)
       \<and> (RELATIONAL_GREATER cs l r \<longleftrightarrow> 0 < RELATIONAL_CMP cs l r)
       \<and> (RELATIONAL_LESSEQUAL cs l r \<longleftrightarrow> RELATIONAL_CMP cs l r \<le> 0)
       \<and> (RELATIONAL_GREATEREQUAL cs l r \<longleftrightarrow> 0 \<le> RELATIONAL_CMP cs l r))"
  using order_answers [of l cs r]
  by (auto simp: order_operators answer_defs split: option.splits bool.splits)

theorem relational_order_sound_witness:
  "RELATIONAL_LESS code_unit_cmp (JArr [JNum (Fin 1), JStr ''a'']) (JArr [JNum (Fin 1), JStr ''b''])
   \<and> RELATIONAL_CMP code_unit_cmp (JArr [JNum (Fin 1), JStr ''a'']) (JArr [JNum (Fin 1), JStr ''b'']) < 0
   \<and> (RELATIONAL_LESSEQUAL code_unit_cmp (JArr [JNull, JNum (Fin 2)]) (JArr [JUndef, JNum (Fin 2)])
     \<longleftrightarrow> RELATIONAL_CMP code_unit_cmp (JArr [JNull, JNum (Fin 2)]) (JArr [JUndef, JNum (Fin 2)]) \<le> 0)"
proof -
  have "RELATIONAL_LESS code_unit_cmp (JArr [JNum (Fin 1), JStr ''a'']) (JArr [JNum (Fin 1), JStr ''b''])"
    by code_simp
  moreover have "string_free (JArr [JNull, JNum (Fin 2)])" by simp
  ultimately show ?thesis using relational_order_sound by blast
qed

text \<open>The scan of two lists: what the operators do up to the first pair that they decide.\<close>

lemma order_REC_arr:
  "RELATIONAL_LESS_REC cs (JArr xs) (JArr ys) =
     first_some (\<lambda>i. RELATIONAL_LESS_REC cs (arr_get xs i) (arr_get ys i)) [0..<max (length xs) (length ys)]"
  "RELATIONAL_GREATER_REC cs (JArr xs) (JArr ys) =
     first_some (\<lambda>i. RELATIONAL_GREATER_REC cs (arr_get xs i) (arr_get ys i)) [0..<max (length xs) (length ys)]"
  "RELATIONAL_LESSEQUAL_REC cs (JArr xs) (JArr ys) =
     first_some (\<lambda>i. RELATIONAL_LESSEQUAL_REC cs (arr_get xs i) (arr_get ys i)) [0..<max (length xs) (length ys)]"
  "RELATIONAL_GREATEREQUAL_REC cs (JArr xs) (JArr ys) =
     first_some (\<lambda>i. RELATIONAL_GREATEREQUAL_REC cs (arr_get xs i) (arr_get ys i)) [0..<max (length xs) (length ys)]"
  by (subst RELATIONAL_LESS_REC.simps RELATIONAL_GREATER_REC.simps RELATIONAL_LESSEQUAL_REC.simps
      RELATIONAL_GREATEREQUAL_REC.simps,
    simp add: KEYLIST_arr first_some_map comp_def typeweight_simps del: KEYLIST.simps cong: first_some_cong)+

lemma order_REC_str:
  "RELATIONAL_LESS_REC cs (JStr s) (JStr t) = Some (cs s t < 0)"
  "RELATIONAL_GREATER_REC cs (JStr s) (JStr t) = Some (0 < cs s t)"
  "RELATIONAL_LESSEQUAL_REC cs (JStr s) (JStr t) = Some (cs s t \<le> 0)"
  "RELATIONAL_GREATEREQUAL_REC cs (JStr s) (JStr t) = Some (0 \<le> cs s t)"
  by (subst RELATIONAL_LESS_REC.simps RELATIONAL_GREATER_REC.simps RELATIONAL_LESSEQUAL_REC.simps
      RELATIONAL_GREATEREQUAL_REC.simps, simp add: typeweight_simps)+

lemma order_REC_equal:
  assumes "string_free l" "RELATIONAL_CMP cs l r = 0"
  shows "RELATIONAL_LESS_REC cs l r = None" "RELATIONAL_GREATER_REC cs l r = None"
    "RELATIONAL_LESSEQUAL_REC cs l r = None" "RELATIONAL_GREATEREQUAL_REC cs l r = None"
  using assms order_answers [of l cs r] by (auto simp: answer_defs split: option.splits bool.splits)

lemma first_some_upt:
  "\<forall>i < n. f i = None \<Longrightarrow> f n = Some b \<Longrightarrow> first_some f [0..<Suc (n + m)] = Some b"
proof -
  assume "\<forall>i < n. f i = None" "f n = Some b"
  moreover have "[0..<Suc (n + m)] = [0..<n] @ n # [Suc n..<Suc (n + m)]"
    using upt_add_eq_append [of 0 n "Suc m"] upt_conv_Cons [of n "n + Suc m"] by (simp del: upt_Suc)
  moreover have "first_some f (is @ js) = first_some f js" if "\<forall>i \<in> set is. f i = None" for "is" js
    using that by (induction "is") auto
  ultimately show ?thesis by simp
qed

lemma first_nonzero_upt:
  assumes "\<forall>i < n. f i = 0"
  shows "first_nonzero f [0..<Suc (n + m)] =
    (if f n = 0 then first_nonzero (\<lambda>i. f (Suc n + i)) [0..<m] else f n)"
proof -
  have "[Suc n..<Suc (n + m)] = map ((+) (Suc n)) [0..<m]"
    by (rule nth_equalityI) (simp_all del: upt_Suc)
  then have "[0..<Suc (n + m)] = [0..<n] @ n # map ((+) (Suc n)) [0..<m]"
    using upt_add_eq_append [of 0 n "Suc m"] upt_conv_Cons [of n "n + Suc m"] by (simp del: upt_Suc)
  moreover have "first_nonzero f (is @ js) = first_nonzero f js" if "\<forall>i \<in> set is. f i = 0" for "is" js
    using that by (induction "is") auto
  ultimately show ?thesis using assms by (simp add: first_nonzero_map comp_def Let_def del: upt_Suc)
qed

text \<open>
  C3: with strings inside lists the order operators stop at the first pair of strings, equal or not:
  on two lists that begin with elements without strings that compare equal, one for one, and go on
  with a string each, all four operators give the verdict of the collation on the two strings and
  never look at the rest. The comparison goes on to the rest where the strings are equal.
\<close>

theorem relational_order_stops_at_string:
  assumes "length xs = length ys"
    and "\<forall>i < length xs. string_free (xs ! i) \<and> RELATIONAL_CMP cs (xs ! i) (ys ! i) = 0"
  shows "(RELATIONAL_LESS cs (JArr (xs @ JStr s # us)) (JArr (ys @ JStr t # vs)) \<longleftrightarrow> cs s t < 0)
    \<and> (RELATIONAL_GREATER cs (JArr (xs @ JStr s # us)) (JArr (ys @ JStr t # vs)) \<longleftrightarrow> 0 < cs s t)
    \<and> (RELATIONAL_LESSEQUAL cs (JArr (xs @ JStr s # us)) (JArr (ys @ JStr t # vs)) \<longleftrightarrow> cs s t \<le> 0)
    \<and> (RELATIONAL_GREATEREQUAL cs (JArr (xs @ JStr s # us)) (JArr (ys @ JStr t # vs)) \<longleftrightarrow> 0 \<le> cs s t)
    \<and> RELATIONAL_CMP cs (JArr (xs @ JStr s # us)) (JArr (ys @ JStr t # vs)) =
       (if cs s t = 0 then RELATIONAL_CMP cs (JArr us) (JArr vs) else cs s t)"
proof -
  let ?l = "xs @ JStr s # us" and ?r = "ys @ JStr t # vs"
  have len: "max (length ?l) (length ?r) = Suc (length xs + max (length us) (length vs))"
    using assms(1) by simp
  have at: "arr_get ?l (length xs) = JStr s" "arr_get ?r (length xs) = JStr t"
    by (simp_all add: arr_get_def) (simp_all add: assms(1) nth_append)
  have before: "arr_get ?l i = xs ! i" "arr_get ?r i = ys ! i" if "i < length xs" for i
    using that assms(1) by (simp_all add: arr_get_def nth_append)
  have after: "arr_get ?l (Suc (length xs) + i) = arr_get us i"
    "arr_get ?r (Suc (length xs) + i) = arr_get vs i" for i
    using assms(1) by (simp_all add: arr_get_def nth_append)
  have "RELATIONAL_LESS_REC cs (JArr ?l) (JArr ?r) = Some (cs s t < 0)"
    "RELATIONAL_GREATER_REC cs (JArr ?l) (JArr ?r) = Some (0 < cs s t)"
    "RELATIONAL_LESSEQUAL_REC cs (JArr ?l) (JArr ?r) = Some (cs s t \<le> 0)"
    "RELATIONAL_GREATEREQUAL_REC cs (JArr ?l) (JArr ?r) = Some (0 \<le> cs s t)"
    unfolding order_REC_arr len
    by (rule first_some_upt; use assms(2) in \<open>simp add: at before order_REC_equal order_REC_str\<close>)+
  moreover have "RELATIONAL_CMP cs (JArr ?l) (JArr ?r) =
      (if cs s t = 0 then RELATIONAL_CMP cs (JArr us) (JArr vs) else cs s t)"
    unfolding RELATIONAL_CMP_arr len
    by (subst first_nonzero_upt)
      (use assms(2) in \<open>auto simp: arr_cmp_def [abs_def] at before after RELATIONAL_CMP_prim simp del: add_Suc\<close>)
  ultimately show ?thesis by (simp add: order_operators)
qed

theorem relational_order_stops_at_string_witness:
  "RELATIONAL_LESSEQUAL code_unit_cmp (JArr [JNull, JStr ''a'', JNum (Fin 2)]) (JArr [JUndef, JStr ''a'', JNum (Fin 1)])
   \<and> RELATIONAL_CMP code_unit_cmp (JArr [JNull, JStr ''a'', JNum (Fin 2)]) (JArr [JUndef, JStr ''a'', JNum (Fin 1)]) = 1"
proof -
  have "RELATIONAL_CMP code_unit_cmp (JArr [JNum (Fin 2)]) (JArr [JNum (Fin 1)]) = 1" by code_simp
  then show ?thesis
    using relational_order_stops_at_string [of "[JNull]" "[JUndef]" code_unit_cmp "''a''" "[JNum (Fin 2)]" "''a''" "[JNum (Fin 1)]"]
    by (simp add: RELATIONAL_CMP_null)
qed

end
