(* ===== verification/AQL_Cast.thy ===== *)
theory AQL_Cast
  imports AQL_Compare
begin

text \<open>
  The logical, arithmetic, typecast, typecheck and numeric functions of \<open>aql.js\<close>. The operands of
  the short-circuit operators are thunks in the code and functions from \<open>unit\<close> here.
\<close>

subsection \<open>Casts\<close>

fun AQL_TO_BOOL :: "jsval \<Rightarrow> bool" where
  "AQL_TO_BOOL (JBool b) = b"
| "AQL_TO_BOOL (JNum n) = (is_finite n \<and> \<not> num_eq n (Fin 0))"
| "AQL_TO_BOOL (JStr s) = (s \<noteq> [])"
| "AQL_TO_BOOL (JArr _) = True"
| "AQL_TO_BOOL (JObj _) = True"
| "AQL_TO_BOOL _ = False"

fun AQL_TO_NUMBER :: "jsval \<Rightarrow> jsval" where
  "AQL_TO_NUMBER JUndef = JNull"
| "AQL_TO_NUMBER JNull = JNum (Fin 0)"
| "AQL_TO_NUMBER (JBool b) = JNum (Fin (if b then 1 else 0))"
| "AQL_TO_NUMBER (JNum n) = (if \<not> is_finite n then JNull else JNum n)"
| "AQL_TO_NUMBER (JStr s) =
     (let result = NUMERIC_VALUE (string_number s)
      in if TYPEWEIGHT result = TYPEWEIGHT_NUMBER then result else JNull)"
| "AQL_TO_NUMBER (JArr []) = JNum (Fin 0)"
| "AQL_TO_NUMBER (JArr [x]) = AQL_TO_NUMBER x"
| "AQL_TO_NUMBER (JArr (_ # _ # _)) = JNull"
| "AQL_TO_NUMBER (JObj _) = JNull"
| "AQL_TO_NUMBER (JFun _) = JNull"

fun AQL_TO_STRING :: "jsval \<Rightarrow> string" where
  "AQL_TO_STRING (JBool b) = (if b then ''true'' else ''false'')"
| "AQL_TO_STRING (JStr s) = s"
| "AQL_TO_STRING (JNum n) = (if \<not> is_finite n then ''null'' else num_string n)"
| "AQL_TO_STRING (JArr xs) = js_string (JArr xs)"
| "AQL_TO_STRING (JObj ob) = js_string (JObj ob)"
| "AQL_TO_STRING _ = ''null''"

fun AQL_TO_ARRAY :: "jsval \<Rightarrow> jsval" where
  "AQL_TO_ARRAY (JArr xs) = JArr xs"
| "AQL_TO_ARRAY (JObj ob) = JArr (VALUES ob)"
| "AQL_TO_ARRAY (JBool b) = JArr [JBool b]"
| "AQL_TO_ARRAY (JNum n) = (if \<not> is_finite n then JArr [] else JArr [JNum n])"
| "AQL_TO_ARRAY (JStr s) = JArr [JStr s]"
| "AQL_TO_ARRAY _ = JArr []"

subsection \<open>Type checks\<close>

definition AQL_IS_NULL :: "jsval \<Rightarrow> bool" where
  "AQL_IS_NULL value \<longleftrightarrow> TYPEWEIGHT value = TYPEWEIGHT_NULL"

definition AQL_IS_BOOL :: "jsval \<Rightarrow> bool" where
  "AQL_IS_BOOL value \<longleftrightarrow> TYPEWEIGHT value = TYPEWEIGHT_BOOL"

definition AQL_IS_NUMBER :: "jsval \<Rightarrow> bool" where
  "AQL_IS_NUMBER value \<longleftrightarrow> TYPEWEIGHT value = TYPEWEIGHT_NUMBER"

definition AQL_IS_STRING :: "jsval \<Rightarrow> bool" where
  "AQL_IS_STRING value \<longleftrightarrow> TYPEWEIGHT value = TYPEWEIGHT_STRING"

definition AQL_IS_ARRAY :: "jsval \<Rightarrow> bool" where
  "AQL_IS_ARRAY value \<longleftrightarrow> TYPEWEIGHT value = TYPEWEIGHT_ARRAY"

definition AQL_IS_OBJECT :: "jsval \<Rightarrow> bool" where
  "AQL_IS_OBJECT value \<longleftrightarrow> TYPEWEIGHT value = TYPEWEIGHT_OBJECT"

lemmas typecheck_defs = AQL_IS_NULL_def AQL_IS_BOOL_def AQL_IS_NUMBER_def AQL_IS_STRING_def
  AQL_IS_ARRAY_def AQL_IS_OBJECT_def

subsection \<open>Logical operations\<close>

definition TERNARY_OPERATOR :: "jsval \<Rightarrow> (unit \<Rightarrow> 'a) \<Rightarrow> (unit \<Rightarrow> 'a) \<Rightarrow> 'a" where
  "TERNARY_OPERATOR condition truePart falsePart =
     (if js_truthy condition then truePart () else falsePart ())"

definition LOGICAL_AND :: "(unit \<Rightarrow> jsval) \<Rightarrow> (unit \<Rightarrow> jsval) \<Rightarrow> jsval" where
  "LOGICAL_AND lhs rhs = (let l = lhs () in if \<not> js_truthy l then l else rhs ())"

definition LOGICAL_OR :: "(unit \<Rightarrow> jsval) \<Rightarrow> (unit \<Rightarrow> jsval) \<Rightarrow> jsval" where
  "LOGICAL_OR lhs rhs = (let l = lhs () in if js_truthy l then l else rhs ())"

definition LOGICAL_NOT :: "jsval \<Rightarrow> bool" where
  "LOGICAL_NOT lhs \<longleftrightarrow> \<not> AQL_TO_BOOL lhs"

subsection \<open>Arithmetic operations\<close>

definition UNARY_PLUS :: "jsval \<Rightarrow> jsval" where
  "UNARY_PLUS value = (case AQL_TO_NUMBER value of
      JNum n \<Rightarrow> AQL_TO_NUMBER (JNum n) | _ \<Rightarrow> JNull)"

definition UNARY_MINUS :: "jsval \<Rightarrow> jsval" where
  "UNARY_MINUS value = (case AQL_TO_NUMBER value of
      JNum n \<Rightarrow> AQL_TO_NUMBER (JNum (num_neg n)) | _ \<Rightarrow> JNull)"

text \<open>The three operators that share their guards; \<open>null\<close> operands make the result \<open>null\<close>.\<close>

definition ARITHMETIC_PLUS :: "jsval \<Rightarrow> jsval \<Rightarrow> jsval" where
  "ARITHMETIC_PLUS lhs rhs = (case AQL_TO_NUMBER lhs of
      JNum a \<Rightarrow> (case AQL_TO_NUMBER rhs of
          JNum b \<Rightarrow> AQL_TO_NUMBER (JNum (num_add a b)) | _ \<Rightarrow> JNull)
    | _ \<Rightarrow> JNull)"

definition ARITHMETIC_MINUS :: "jsval \<Rightarrow> jsval \<Rightarrow> jsval" where
  "ARITHMETIC_MINUS lhs rhs = (case AQL_TO_NUMBER lhs of
      JNum a \<Rightarrow> (case AQL_TO_NUMBER rhs of
          JNum b \<Rightarrow> AQL_TO_NUMBER (JNum (num_sub a b)) | _ \<Rightarrow> JNull)
    | _ \<Rightarrow> JNull)"

definition ARITHMETIC_TIMES :: "jsval \<Rightarrow> jsval \<Rightarrow> jsval" where
  "ARITHMETIC_TIMES lhs rhs = (case AQL_TO_NUMBER lhs of
      JNum a \<Rightarrow> (case AQL_TO_NUMBER rhs of
          JNum b \<Rightarrow> AQL_TO_NUMBER (JNum (num_mul a b)) | _ \<Rightarrow> JNull)
    | _ \<Rightarrow> JNull)"

definition division_by_zero :: warning where
  "division_by_zero = WARN None ERROR_QUERY_DIVISION_BY_ZERO None"

definition ARITHMETIC_DIVIDE :: "jsval \<Rightarrow> jsval \<Rightarrow> jsval warned" where
  "ARITHMETIC_DIVIDE lhs rhs = (case AQL_TO_NUMBER lhs of
      JNum a \<Rightarrow> (case AQL_TO_NUMBER rhs of
          JNum b \<Rightarrow> if num_eq b (Fin 0) then (JNull, [division_by_zero])
                    else quiet (AQL_TO_NUMBER (JNum (num_div a b)))
        | _ \<Rightarrow> (JNull, [division_by_zero]))
    | _ \<Rightarrow> quiet JNull)"

definition ARITHMETIC_MODULUS :: "jsval \<Rightarrow> jsval \<Rightarrow> jsval warned" where
  "ARITHMETIC_MODULUS lhs rhs = (case AQL_TO_NUMBER lhs of
      JNum a \<Rightarrow> (case AQL_TO_NUMBER rhs of
          JNum b \<Rightarrow> if num_eq b (Fin 0) then (JNull, [division_by_zero])
                    else quiet (AQL_TO_NUMBER (JNum (num_mod a b)))
        | _ \<Rightarrow> (JNull, [division_by_zero]))
    | _ \<Rightarrow> quiet JNull)"

lemmas arithmetic_defs = UNARY_PLUS_def UNARY_MINUS_def ARITHMETIC_PLUS_def ARITHMETIC_MINUS_def
  ARITHMETIC_TIMES_def ARITHMETIC_DIVIDE_def ARITHMETIC_MODULUS_def

subsection \<open>Numeric functions\<close>

text \<open>A \<open>null\<close> from the cast becomes the number 0 in the Math functions.\<close>

definition AQL_FLOOR :: "jsval \<Rightarrow> jsval" where
  "AQL_FLOOR value = NUMERIC_VALUE (math_floor (js_number (AQL_TO_NUMBER value)))"

definition AQL_CEIL :: "jsval \<Rightarrow> jsval" where
  "AQL_CEIL value = NUMERIC_VALUE (math_ceil (js_number (AQL_TO_NUMBER value)))"

definition AQL_ROUND :: "jsval \<Rightarrow> jsval" where
  "AQL_ROUND value = NUMERIC_VALUE (math_round (js_number (AQL_TO_NUMBER value)))"

definition AQL_ABS :: "jsval \<Rightarrow> jsval" where
  "AQL_ABS value = NUMERIC_VALUE (math_abs (js_number (AQL_TO_NUMBER value)))"

subsection \<open>Laws\<close>

lemma AQL_TO_NUMBER_type: "AQL_TO_NUMBER v = JNull \<or> (\<exists>r. AQL_TO_NUMBER v = JNum (Fin r))"
  by (induction v rule: AQL_TO_NUMBER.induct) (auto simp: is_finite_iff NUMERIC_VALUE_def Let_def)

lemma AQL_TO_NUMBER_cases:
  obtains (null) "AQL_TO_NUMBER v = JNull" | (num) r where "AQL_TO_NUMBER v = JNum (Fin r)"
  using AQL_TO_NUMBER_type by blast

lemma AQL_TO_BOOL_weight:
  "AQL_TO_BOOL v \<longleftrightarrow> (case v of JBool b \<Rightarrow> b | JNum n \<Rightarrow> n \<noteq> Fin 0 \<and> TYPEWEIGHT v \<noteq> TYPEWEIGHT_NULL
     | JStr s \<Rightarrow> s \<noteq> [] | _ \<Rightarrow> TYPEWEIGHT_ARRAY \<le> TYPEWEIGHT v)"
  by (cases v) (auto simp: typeweight_simps is_finite_iff)

lemma AQL_TO_ARRAY_type: "\<exists>xs. AQL_TO_ARRAY v = JArr xs"
  by (cases v) auto

lemma js_number_to_number: "\<exists>r. js_number (AQL_TO_NUMBER v) = Fin r"
  by (cases v rule: AQL_TO_NUMBER_cases) auto

subsection \<open>Properties\<close>

text \<open>
  exactly one of the six type checks holds of every value.
\<close>

theorem typechecks_partition:
  "length (filter (\<lambda>check. check v)
     [AQL_IS_NULL, AQL_IS_BOOL, AQL_IS_NUMBER, AQL_IS_STRING, AQL_IS_ARRAY, AQL_IS_OBJECT]) = 1"
  by (cases v rule: TYPEWEIGHT_cases) (auto simp: typecheck_defs)

text \<open>
  C4: the arithmetic operators and the numeric functions always return \<open>null\<close> or a finite number,
  whatever their operands are; no infinity and no NaN escapes.
\<close>

theorem arithmetic_finite:
  "list_all (\<lambda>v. v = JNull \<or> (\<exists>r. v = JNum (Fin r)))
     [UNARY_PLUS a, UNARY_MINUS a, ARITHMETIC_PLUS a b, ARITHMETIC_MINUS a b, ARITHMETIC_TIMES a b,
      fst (ARITHMETIC_DIVIDE a b), fst (ARITHMETIC_MODULUS a b),
      AQL_FLOOR a, AQL_CEIL a, AQL_ROUND a, AQL_ABS a]"
proof -
  have num: "AQL_TO_NUMBER (JNum n) = JNull \<or> (\<exists>r. AQL_TO_NUMBER (JNum n) = JNum (Fin r))" for n
    by (rule AQL_TO_NUMBER_type)
  obtain r where r: "js_number (AQL_TO_NUMBER a) = Fin r" using js_number_to_number by blast
  show ?thesis
    using num by (cases a rule: AQL_TO_NUMBER_cases; cases b rule: AQL_TO_NUMBER_cases)
      (auto simp: arithmetic_defs r AQL_FLOOR_def AQL_CEIL_def AQL_ROUND_def AQL_ABS_def NUMERIC_VALUE_def)
qed

text \<open>
  division and modulus warn about a division by zero, and return \<open>null\<close>, exactly when the dividend
  casts to a number and the divisor does not or casts to zero.
\<close>

theorem division_warning:
  "(ARITHMETIC_DIVIDE a b = (JNull, [division_by_zero]) \<longleftrightarrow>
      AQL_TO_NUMBER a \<noteq> JNull \<and> (AQL_TO_NUMBER b = JNull \<or> AQL_TO_NUMBER b = JNum (Fin 0)))
   \<and> (snd (ARITHMETIC_DIVIDE a b) = snd (ARITHMETIC_MODULUS a b))"
  by (cases a rule: AQL_TO_NUMBER_cases; cases b rule: AQL_TO_NUMBER_cases)
    (auto simp: arithmetic_defs)

text \<open>
  on integers the operators are exact as long as operands and result stay within \<open>2 ^ 53\<close>.
\<close>

theorem arithmetic_exact_on_safe_integers:
  assumes "\<bar>a + b\<bar> \<le> 2 ^ 53" and "\<bar>a - b\<bar> \<le> 2 ^ 53" and "\<bar>a * b\<bar> \<le> 2 ^ 53"
  shows "ARITHMETIC_PLUS (JNum (Fin (of_int a))) (JNum (Fin (of_int b))) = JNum (Fin (of_int (a + b)))
    \<and> ARITHMETIC_MINUS (JNum (Fin (of_int a))) (JNum (Fin (of_int b))) = JNum (Fin (of_int (a - b)))
    \<and> ARITHMETIC_TIMES (JNum (Fin (of_int a))) (JNum (Fin (of_int b))) = JNum (Fin (of_int (a * b)))"
  using assms round_double_of_int [of "a + b"] round_double_of_int [of "a - b"] round_double_of_int [of "a * b"]
  by (simp add: arithmetic_defs num_sub_def)

theorem arithmetic_exact_on_safe_integers_witness:
  "ARITHMETIC_TIMES (JNum (Fin (of_int 3))) (JNum (Fin (of_int 1000000007))) = JNum (Fin (of_int 3000000021))"
  using arithmetic_exact_on_safe_integers [of 3 1000000007] by simp

text \<open>
  the modulus of two numbers has the sign of the dividend and is smaller in size than the divisor.
\<close>

theorem modulus_bound:
  assumes "b \<noteq> 0"
  shows "\<exists>m. ARITHMETIC_MODULUS (JNum (Fin a)) (JNum (Fin b)) = (JNum (Fin m), [])
    \<and> \<bar>m\<bar> < \<bar>b\<bar> \<and> (m = 0 \<or> sgn m = sgn a)"
  using num_mod_bound [OF assms, of a] assms by (auto simp: arithmetic_defs simp del: num_mod.simps)

theorem modulus_bound_witness:
  "\<exists>m. ARITHMETIC_MODULUS (JNum (Fin (- 7))) (JNum (Fin 3)) = (JNum (Fin m), [])
    \<and> \<bar>m\<bar> < 3 \<and> (m = 0 \<or> sgn m = - 1)"
  using modulus_bound [of 3 "- 7"] by simp

end
