(* ===== verification/AQL_Lists.thy ===== *)
theory AQL_Lists
  imports AQL_Cast
begin

text \<open>
  The list processing functions of \<open>aql.js\<close>, from \<open>AQL_LENGTH\<close> to \<open>AQL_FLATTEN\<close>. A function with a
  variable number of arguments takes the list of its arguments. An omitted argument is \<open>JUndef\<close>.
\<close>

definition jnat :: "nat \<Rightarrow> jsval" where
  "jnat n = JNum (Fin (of_nat n))"

subsection \<open>Access\<close>

definition AQL_LENGTH :: "jsval \<Rightarrow> jsval" where
  "AQL_LENGTH value = (case value of
      JArr xs \<Rightarrow> jnat (length xs)
    | JObj ob \<Rightarrow> jnat (length (KEYS value False))
    | JBool b \<Rightarrow> jnat (if b then 1 else 0)
    | _ \<Rightarrow> if TYPEWEIGHT value = TYPEWEIGHT_NULL then jnat 0 else jnat (length (AQL_TO_STRING value)))"

definition AQL_FIRST :: "jsval \<Rightarrow> jsval warned" where
  "AQL_FIRST value = (case value of
      JArr xs \<Rightarrow> quiet (if xs = [] then JNull else hd xs)
    | _ \<Rightarrow> array_expected ''FIRST'' JNull)"

definition AQL_LAST :: "jsval \<Rightarrow> jsval warned" where
  "AQL_LAST value = (case value of
      JArr xs \<Rightarrow> quiet (if xs = [] then JNull else last xs)
    | _ \<Rightarrow> array_expected ''LAST'' JNull)"

fun position_loop :: "(string \<Rightarrow> string \<Rightarrow> int) \<Rightarrow> jsval \<Rightarrow> nat \<Rightarrow> jsval list \<Rightarrow> nat option" where
  "position_loop cs search i [] = None"
| "position_loop cs search i (x # xs) =
     (if RELATIONAL_EQUAL cs x search then Some i else position_loop cs search (Suc i) xs)"

definition AQL_POSITION :: "(string \<Rightarrow> string \<Rightarrow> int) \<Rightarrow> jsval \<Rightarrow> jsval \<Rightarrow> jsval \<Rightarrow> jsval warned" where
  "AQL_POSITION cs value search returnIndex = (case value of
      JArr xs \<Rightarrow> quiet (case position_loop cs search 0 xs of
          Some i \<Rightarrow> if js_truthy returnIndex then jnat i else JBool True
        | None \<Rightarrow> if js_truthy returnIndex then JNum (Fin (- 1)) else JBool False)
    | _ \<Rightarrow> array_expected ''POSITION'' JNull)"

text \<open>
  \<open>value[position]\<close> on an array: the element at an integer position, \<open>undefined\<close> at a fraction and
  for \<open>null\<close>, which names the property \<open>"null"\<close>.
\<close>

fun arr_at :: "jsval list \<Rightarrow> jsval \<Rightarrow> jsval" where
  "arr_at xs (JNum (Fin r)) = (if 0 \<le> r \<and> r = of_int \<lfloor>r\<rfloor> then arr_get xs (nat \<lfloor>r\<rfloor>) else JUndef)"
| "arr_at xs _ = JUndef"

definition AQL_NTH :: "jsval \<Rightarrow> jsval \<Rightarrow> jsval warned" where
  "AQL_NTH value position = (case value of
      JArr xs \<Rightarrow> (let p = AQL_TO_NUMBER position in
          quiet (if js_lt p (jnat 0) \<or> js_le (jnat (length xs)) p then JNull else arr_at xs p))
    | _ \<Rightarrow> array_expected ''NTH'' JNull)"

definition AQL_REVERSE :: "jsval \<Rightarrow> jsval warned" where
  "AQL_REVERSE value = (case value of
      JStr s \<Rightarrow> quiet (JStr (rev s))
    | JArr xs \<Rightarrow> quiet (JArr (rev (map CLONE xs)))
    | _ \<Rightarrow> array_expected ''REVERSE'' JNull)"

subsection \<open>Ranges\<close>

text \<open>
  The two counting loops. They need not end, so they are partial: \<open>None\<close> is a loop that runs forever.
\<close>

partial_function (option) range_up :: "jsnum \<Rightarrow> jsnum \<Rightarrow> jsnum \<Rightarrow> jsnum list option" where
  "range_up i to step =
     (if num_le i to then Option.bind (range_up (num_add i step) to step) (\<lambda>r. Some (i # r))
      else Some [])"

partial_function (option) range_down :: "jsnum \<Rightarrow> jsnum \<Rightarrow> jsnum \<Rightarrow> jsnum list option" where
  "range_down i to step =
     (if num_le to i then Option.bind (range_down (num_add i step) to step) (\<lambda>r. Some (i # r))
      else Some [])"

declare range_up.simps [code] range_down.simps [code]

text \<open>The loop variable starts as \<open>from\<close> itself, which is \<open>null\<close> when the cast failed.\<close>

definition range_values :: "jsval \<Rightarrow> jsnum list \<Rightarrow> jsval list" where
  "range_values from ns = (case ns of [] \<Rightarrow> [] | _ # r \<Rightarrow> from # map JNum r)"

definition AQL_RANGE :: "jsval \<Rightarrow> jsval \<Rightarrow> jsval \<Rightarrow> jsval warned option" where
  "AQL_RANGE from0 to0 step0 =
     (let from = AQL_TO_NUMBER from0; to = AQL_TO_NUMBER to0;
          step1 = (if step0 = JUndef
                   then (if js_le from to then JNum (Fin 1) else JNum (Fin (- 1))) else step0);
          step = AQL_TO_NUMBER step1;
          f = js_number from; t = js_number to; s = js_number step
      in if js_eq step (JNum (Fin 0)) then Some (mismatch ''RANGE'' JNull)
         else if js_lt from to \<and> js_lt step (JNum (Fin 0)) then Some (mismatch ''RANGE'' JNull)
         else if js_lt to from \<and> js_lt (JNum (Fin 0)) step then Some (mismatch ''RANGE'' JNull)
         else if js_lt step (JNum (Fin 0)) \<and> js_le to from
         then map_option (\<lambda>r. quiet (JArr (range_values from r))) (range_down f t s)
         else map_option (\<lambda>r. quiet (JArr (range_values from r))) (range_up f t s))"

subsection \<open>Sets of values\<close>

text \<open>
  The set functions index the normalised values by their JSON text in an object, and read the
  object back in its enumeration order. \<open>JSON.stringify\<close> of a function is \<open>undefined\<close>, which becomes
  the property name \<open>"undefined"\<close>.
\<close>

definition json_key :: "jsval \<Rightarrow> string" where
  "json_key v = (case json_stringify v of None \<Rightarrow> ''undefined'' | Some s \<Rightarrow> s)"

definition add_key :: "jsobj \<Rightarrow> jsval \<Rightarrow> jsobj" where
  "add_key keys value = (let normalized = NORMALIZE value; key = json_key normalized
     in if obj_has keys key then keys else obj_put key normalized keys)"


fun union_loop :: "jsval list \<Rightarrow> jsval list \<Rightarrow> jsval warned" where
  "union_loop result [] = quiet (JArr result)"
| "union_loop result (element # rest) = (case element of
      JArr xs \<Rightarrow> union_loop (result @ xs) rest
    | _ \<Rightarrow> mismatch ''UNION'' JNull)"

definition AQL_UNION :: "jsval list \<Rightarrow> jsval warned" where
  "AQL_UNION arguments = union_loop [] arguments"

fun union_distinct_loop :: "jsobj \<Rightarrow> jsval list \<Rightarrow> jsval warned" where
  "union_distinct_loop keys [] = quiet (JArr (VALUES keys))"
| "union_distinct_loop keys (element # rest) = (case element of
      JArr xs \<Rightarrow> union_distinct_loop (foldl add_key keys xs) rest
    | _ \<Rightarrow> mismatch ''UNION_DISTINCT'' JNull)"

definition AQL_UNION_DISTINCT :: "jsval list \<Rightarrow> jsval warned" where
  "AQL_UNION_DISTINCT arguments = union_distinct_loop [] arguments"

definition minus_key :: "jsobj \<Rightarrow> jsval \<Rightarrow> jsobj" where
  "minus_key keys value = (let key = json_key (NORMALIZE value)
     in if obj_has keys key then obj_del key keys else keys)"

fun minus_loop :: "bool \<Rightarrow> jsobj \<Rightarrow> jsval list \<Rightarrow> jsval warned" where
  "minus_loop first keys [] = quiet (JArr (VALUES keys))"
| "minus_loop first keys (element # rest) = (case element of
      JArr xs \<Rightarrow> minus_loop False (foldl (if first then add_key else minus_key) keys xs) rest
    | _ \<Rightarrow> mismatch ''MINUS'' JNull)"

definition AQL_MINUS :: "jsval list \<Rightarrow> jsval warned" where
  "AQL_MINUS arguments = minus_loop True [] arguments"

definition set_key :: "jsobj \<Rightarrow> jsval \<Rightarrow> jsobj" where
  "set_key keys value = (let normalized = NORMALIZE value in obj_put (json_key normalized) normalized keys)"

definition common_key :: "jsobj \<Rightarrow> jsobj \<Rightarrow> jsval \<Rightarrow> jsobj" where
  "common_key keys newKeys value = (let normalized = NORMALIZE value; key = json_key normalized
     in if obj_has keys key then obj_put key normalized newKeys else newKeys)"

fun intersection_loop :: "bool \<Rightarrow> jsobj \<Rightarrow> jsval list \<Rightarrow> jsval warned" where
  "intersection_loop first keys [] = quiet (JArr (VALUES keys))"
| "intersection_loop first keys (element # rest) = (case element of
      JArr xs \<Rightarrow> intersection_loop False
        (if first then foldl set_key keys xs else foldl (common_key keys) [] xs) rest
    | _ \<Rightarrow> mismatch ''INTERSECTION'' JNull)"

definition AQL_INTERSECTION :: "jsval list \<Rightarrow> jsval warned" where
  "AQL_INTERSECTION arguments = intersection_loop True [] arguments"

subsection \<open>Removing and adding elements\<close>

definition contained :: "(string \<Rightarrow> string \<Rightarrow> int) \<Rightarrow> jsval \<Rightarrow> jsval list \<Rightarrow> bool" where
  "contained cs v xs = fst (RELATIONAL_IN cs v (JArr xs))"

definition AQL_REMOVE_VALUES :: "(string \<Rightarrow> string \<Rightarrow> int) \<Rightarrow> jsval \<Rightarrow> jsval \<Rightarrow> jsval warned" where
  "AQL_REMOVE_VALUES cs list values =
     (if TYPEWEIGHT values = TYPEWEIGHT_NULL then quiet list
      else case values of
        JArr vs \<Rightarrow>
          (if TYPEWEIGHT list = TYPEWEIGHT_NULL then quiet (JArr [])
           else case list of
             JArr xs \<Rightarrow> quiet (JArr (map CLONE (filter (\<lambda>x. \<not> contained cs x vs) xs)))
           | _ \<Rightarrow> mismatch ''REMOVE_VALUES'' JNull)
      | _ \<Rightarrow> mismatch ''REMOVE_VALUES'' JNull)"

fun remove_value_loop :: "(string \<Rightarrow> string \<Rightarrow> int) \<Rightarrow> jsval \<Rightarrow> jsval \<Rightarrow> jsval list \<Rightarrow> jsval list" where
  "remove_value_loop cs value limit [] = []"
| "remove_value_loop cs value limit (x # xs) =
     (if js_eq limit (JNum (Fin (- 1))) \<and> RELATIONAL_CMP cs x value = 0
      then remove_value_loop cs value limit xs
      else if js_lt (JNum (Fin 0)) limit \<and> RELATIONAL_CMP cs x value = 0
      then remove_value_loop cs value (JNum (num_sub (js_number limit) (Fin 1))) xs
      else CLONE x # remove_value_loop cs value limit xs)"

definition AQL_REMOVE_VALUE :: "(string \<Rightarrow> string \<Rightarrow> int) \<Rightarrow> jsval \<Rightarrow> jsval \<Rightarrow> jsval \<Rightarrow> jsval warned" where
  "AQL_REMOVE_VALUE cs list value limit =
     (if TYPEWEIGHT list = TYPEWEIGHT_NULL then quiet (JArr [])
      else case list of
        JArr xs \<Rightarrow> quiet (JArr (remove_value_loop cs value
            (if TYPEWEIGHT limit = TYPEWEIGHT_NULL then JNum (Fin (- 1)) else limit) xs))
      | _ \<Rightarrow> mismatch ''REMOVE_VALUE'' JNull)"

text \<open>\<open>Array.prototype.slice\<close>: relative indices, truncated to integers and clipped.\<close>

fun slice_index :: "nat \<Rightarrow> jsnum \<Rightarrow> nat" where
  "slice_index n NaN = 0"
| "slice_index n PInf = n"
| "slice_index n NInf = 0"
| "slice_index n (Fin r) = (let k = rat_trunc r
     in if k < 0 then nat (max (int n + k) 0) else nat (min k (int n)))"

definition slice :: "jsval list \<Rightarrow> jsnum \<Rightarrow> jsnum option \<Rightarrow> jsval list" where
  "slice xs start end = (let n = length xs; a = slice_index n start;
       b = (case end of None \<Rightarrow> n | Some e \<Rightarrow> slice_index n e)
     in take (b - a) (drop a xs))"

definition AQL_REMOVE_NTH :: "jsval \<Rightarrow> jsval \<Rightarrow> jsval warned" where
  "AQL_REMOVE_NTH list position0 =
     (if TYPEWEIGHT list = TYPEWEIGHT_NULL then quiet (JArr [])
      else case list of
        JArr xs \<Rightarrow>
          (let position = AQL_TO_NUMBER position0; p = js_number position;
               n = Fin (of_nat (length xs)); one = Fin 1
           in quiet (JArr
             (if num_le n p \<or> num_lt p (num_neg n) then xs
              else if js_eq position (jnat 0) then slice xs one None
              else if js_eq position (JNum (num_neg n)) then slice xs (num_add p one) None
              else if js_eq position (JNum (num_sub n one)) then slice xs (Fin 0) (Some p)
              else if num_lt p (Fin 0)
              then slice xs (Fin 0) (Some (num_add n p)) @ slice xs (num_add (num_add n p) one) None
              else slice xs (Fin 0) (Some p) @ slice xs (num_add p one) None)))
      | _ \<Rightarrow> mismatch ''REMOVE_NTH'' JNull)"

definition AQL_PUSH :: "(string \<Rightarrow> string \<Rightarrow> int) \<Rightarrow> jsval \<Rightarrow> jsval \<Rightarrow> jsval \<Rightarrow> jsval warned" where
  "AQL_PUSH cs list value unique =
     (if TYPEWEIGHT list = TYPEWEIGHT_NULL then quiet (JArr [value])
      else case list of
        JArr xs \<Rightarrow> quiet (if AQL_TO_BOOL unique \<and> contained cs value xs then list
                          else JArr (map CLONE xs @ [value]))
      | _ \<Rightarrow> mismatch ''PUSH'' JNull)"

definition AQL_APPEND :: "(string \<Rightarrow> string \<Rightarrow> int) \<Rightarrow> jsval \<Rightarrow> jsval \<Rightarrow> jsval \<Rightarrow> jsval warned" where
  "AQL_APPEND cs list values unique =
     (if TYPEWEIGHT values = TYPEWEIGHT_NULL then quiet list
      else let vs = (case values of JArr vs \<Rightarrow> vs | _ \<Rightarrow> [values])
           in if vs = [] then quiet list
              else let u = AQL_TO_BOOL unique;
                       ws = (if length vs > 1 \<and> u then VALUES (foldl add_key [] vs) else vs)
                   in if TYPEWEIGHT list = TYPEWEIGHT_NULL then quiet (JArr ws)
                      else case list of
                        JArr xs \<Rightarrow> quiet (JArr (map CLONE xs @
                            (if u then filter (\<lambda>v. \<not> contained cs v xs) ws else ws)))
                      | _ \<Rightarrow> mismatch ''APPEND'' JNull)"

definition AQL_POP :: "jsval \<Rightarrow> jsval warned" where
  "AQL_POP list =
     (if TYPEWEIGHT list = TYPEWEIGHT_NULL then quiet JNull
      else case list of
        JArr xs \<Rightarrow> quiet (JArr (if xs = [] then [] else butlast (map CLONE xs)))
      | _ \<Rightarrow> mismatch ''POP'' JNull)"

definition AQL_UNSHIFT :: "(string \<Rightarrow> string \<Rightarrow> int) \<Rightarrow> jsval \<Rightarrow> jsval \<Rightarrow> jsval \<Rightarrow> jsval warned" where
  "AQL_UNSHIFT cs list value unique =
     (if TYPEWEIGHT list = TYPEWEIGHT_NULL then quiet (JArr [value])
      else case list of
        JArr xs \<Rightarrow> quiet (if js_truthy unique \<and> contained cs value xs then list
                          else JArr (value # map CLONE xs))
      | _ \<Rightarrow> mismatch ''UNSHIFT'' JUndef)"

definition AQL_SHIFT :: "jsval \<Rightarrow> jsval warned" where
  "AQL_SHIFT list =
     (if TYPEWEIGHT list = TYPEWEIGHT_NULL then quiet JNull
      else case list of
        JArr xs \<Rightarrow> quiet (JArr (if xs = [] then [] else tl (map CLONE xs)))
      | _ \<Rightarrow> mismatch ''SHIFT'' JNull)"

definition AQL_SLICE :: "jsval \<Rightarrow> jsval \<Rightarrow> jsval \<Rightarrow> jsval warned" where
  "AQL_SLICE value from0 to0 = (case value of
      JArr xs \<Rightarrow>
        (let from = js_number (AQL_TO_NUMBER from0);
             to = (case AQL_TO_NUMBER to0 of
                 JNum t \<Rightarrow> Some (if num_le (Fin 0) t then num_add t from else t)
               | _ \<Rightarrow> None)
         in quiet (JArr (slice xs from to)))
    | _ \<Rightarrow> mismatch ''SLICE'' JNull)"

subsection \<open>Flattening\<close>

fun flatten_loop :: "rat \<Rightarrow> nat \<Rightarrow> jsval list \<Rightarrow> jsval list" where
  "flatten_loop maxDepth depth [] = []"
| "flatten_loop maxDepth depth (JArr xs # rest) =
     (if of_nat depth < maxDepth
      then flatten_loop maxDepth (Suc depth) xs @ flatten_loop maxDepth depth rest
      else JArr xs # flatten_loop maxDepth depth rest)"
| "flatten_loop maxDepth depth (v # rest) = v # flatten_loop maxDepth depth rest"

definition AQL_FLATTEN :: "jsval \<Rightarrow> jsval \<Rightarrow> jsval warned" where
  "AQL_FLATTEN values maxDepth = (case values of
      JArr xs \<Rightarrow>
        (let md = (case AQL_TO_NUMBER maxDepth of JNum (Fin r) \<Rightarrow> if r < 1 then 1 else r | _ \<Rightarrow> 1)
         in quiet (JArr (flatten_loop md 0 xs)))
    | _ \<Rightarrow> array_expected ''FLATTEN'' JNull)"

subsection \<open>The key index\<close>









subsection \<open>Properties of the set functions\<close>










lemma Collect_obj_has_Nil [simp]: "Collect (obj_has []) = {}"
  by auto



lemma set_loops_mismatch:
  assumes "\<not> list_all (\<lambda>v. TYPEWEIGHT v = TYPEWEIGHT_ARRAY) args"
  shows "union_loop result args = mismatch ''UNION'' JNull"
    and "union_distinct_loop keys args = mismatch ''UNION_DISTINCT'' JNull"
    and "minus_loop first keys args = mismatch ''MINUS'' JNull"
    and "intersection_loop first keys args = mismatch ''INTERSECTION'' JNull"
  using assms
  by (induction args arbitrary: result keys first) (auto simp: TYPEWEIGHT_iff split: jsval.splits)

text \<open>
  An argument that is no list, in any position, makes each set function of several arguments
  return \<open>null\<close> with one warning that names the function.
\<close>

theorem set_functions_mismatch:
  assumes "\<not> list_all (\<lambda>v. TYPEWEIGHT v = TYPEWEIGHT_ARRAY) args"
  shows "AQL_UNION args = mismatch ''UNION'' JNull
    \<and> AQL_UNION_DISTINCT args = mismatch ''UNION_DISTINCT'' JNull
    \<and> AQL_MINUS args = mismatch ''MINUS'' JNull
    \<and> AQL_INTERSECTION args = mismatch ''INTERSECTION'' JNull"
  using set_loops_mismatch [OF assms]
  by (simp add: AQL_UNION_def AQL_UNION_DISTINCT_def AQL_MINUS_def AQL_INTERSECTION_def)

theorem set_functions_mismatch_witness:
  "AQL_UNION [JArr [], JStr ''x''] = mismatch ''UNION'' JNull
   \<and> AQL_MINUS [JArr [], JStr ''x''] = mismatch ''MINUS'' JNull"
  using set_functions_mismatch [of "[JArr [], JStr ''x'']"] by (simp add: typeweight_simps)

subsection \<open>Properties of ranges\<close>

lemma range_up_ints:
  fixes i t s :: int
  assumes "0 < s" "\<bar>i\<bar> \<le> 2 ^ 53" "\<bar>t\<bar> + s \<le> 2 ^ 53"
  shows "range_up (Fin (of_int i)) (Fin (of_int t)) (Fin (of_int s))
    = Some (map (\<lambda>k. Fin (of_int (i + k * s))) [0..(t - i) div s])"
  using assms(2)
proof (induction "nat (t - i + s)" arbitrary: i rule: less_induct)
  case less
  show ?case
  proof (cases "i \<le> t")
    case True
    have i': "\<bar>i + s\<bar> \<le> 2 ^ 53" using True less.prems assms by linarith
    have q: "(t - i) div s = (t - (i + s)) div s + 1"
      using div_add_self2 [of s "t - i - s"] assms(1) by (simp add: algebra_simps)
    have "0 \<le> (t - i) div s" using True assms(1) by (simp add: pos_imp_zdiv_nonneg_iff)
    then have upto: "[0..(t - i) div s] = 0 # map ((+) 1) [0..(t - (i + s)) div s]"
      by (subst upto_rec1) (auto simp: q upto_Suc_shift)
    have "range_up (Fin (of_int (i + s))) (Fin (of_int t)) (Fin (of_int s))
        = Some (map (\<lambda>k. Fin (of_int (i + s + k * s))) [0..(t - (i + s)) div s])"
      using less.hyps [of "i + s"] True assms(1) i' by simp
    moreover have "num_add (Fin (of_int i)) (Fin (of_int s)) = Fin (of_int (i + s))"
      using round_double_of_int [OF i'] by simp
    ultimately show ?thesis
      using True by (subst range_up.simps) (simp add: upto algebra_simps comp_def)
  next
    case False
    then have "(t - i) div s < 0" using assms(1) by (simp add: pos_imp_zdiv_neg_iff)
    then show ?thesis using False by (subst range_up.simps) simp
  qed
qed

lemma range_down_ints:
  fixes i t s :: int
  assumes "s < 0" "\<bar>i\<bar> \<le> 2 ^ 53" "\<bar>t\<bar> - s \<le> 2 ^ 53"
  shows "range_down (Fin (of_int i)) (Fin (of_int t)) (Fin (of_int s))
    = Some (map (\<lambda>k. Fin (of_int (i + k * s))) [0..(t - i) div s])"
  using assms(2)
proof (induction "nat (i - t - s)" arbitrary: i rule: less_induct)
  case less
  show ?case
  proof (cases "t \<le> i")
    case True
    have i': "\<bar>i + s\<bar> \<le> 2 ^ 53" using True less.prems assms by linarith
    have q: "(t - i) div s = (t - (i + s)) div s + 1"
      using div_add_self2 [of s "t - i - s"] assms(1) by (simp add: algebra_simps)
    have "0 \<le> (t - i) div s" using True assms(1) by (simp add: neg_imp_zdiv_nonneg_iff)
    then have upto: "[0..(t - i) div s] = 0 # map ((+) 1) [0..(t - (i + s)) div s]"
      by (subst upto_rec1) (auto simp: q upto_Suc_shift)
    have "range_down (Fin (of_int (i + s))) (Fin (of_int t)) (Fin (of_int s))
        = Some (map (\<lambda>k. Fin (of_int (i + s + k * s))) [0..(t - (i + s)) div s])"
      using less.hyps [of "i + s"] True assms(1) i' by simp
    moreover have "num_add (Fin (of_int i)) (Fin (of_int s)) = Fin (of_int (i + s))"
      using round_double_of_int [OF i'] by simp
    ultimately show ?thesis
      using True by (subst range_down.simps) (simp add: upto algebra_simps comp_def)
  next
    case False
    then have "(t - i) div s < 0" using assms(1) by (simp add: neg_imp_zdiv_neg_iff)
    then show ?thesis using False by (subst range_down.simps) simp
  qed
qed

lemma range_values_ints:
  "range_values (JNum (f 0)) (map f [0..n]) = map (\<lambda>k. JNum (f k)) [0..n]"
  by (cases "0 \<le> n") (simp_all add: range_values_def upto_rec1 comp_def)

lemma range_values_single [simp]: "range_values v [n] = [v]"
  by (simp add: range_values_def)

abbreviation jint :: "int \<Rightarrow> jsval" where
  "jint n \<equiv> JNum (Fin (of_int n))"

text \<open>
  C6: \<open>RANGE\<close> ends on integers and returns the arithmetic progression from \<open>from\<close> in steps of \<open>step\<close> up
  to and including \<open>to\<close>, upwards for a positive and downwards for a negative step, as long as the
  loop counter stays within the integers a double represents.
\<close>

theorem range_arithmetic_progression:
  fixes a b s :: int
  assumes "\<bar>a\<bar> \<le> 2 ^ 53" "\<bar>b\<bar> + \<bar>s\<bar> \<le> 2 ^ 53" "0 < s \<and> a \<le> b \<or> s < 0 \<and> b \<le> a"
  shows "AQL_RANGE (jint a) (jint b) (jint s)
    = Some (quiet (JArr (map (\<lambda>k. jint (a + k * s)) [0..(b - a) div s])))"
  using assms range_up_ints [of s a b] range_down_ints [of s a b]
    range_values_ints [of "\<lambda>k. Fin (of_int (a + k * s))"]
  by (auto simp: AQL_RANGE_def Let_def)

theorem range_arithmetic_progression_witness:
  "AQL_RANGE (jint 7) (jint 1) (jint (- 3)) = Some (quiet (JArr [jint 7, jint 4, jint 1]))"
  using range_arithmetic_progression [of 7 1 "- 3"] by (simp add: upto.simps)

text \<open>
  C7: A step that is given and casts to \<open>null\<close> passes the guard against endless loops, which compares
  it with \<open>0\<close>: \<open>RANGE\<close> then counts upwards by nothing. It never returns where the first value is at
  most the last one, and returns the empty list where it is larger.
\<close>

theorem range_null_step_diverges:
  fixes a b :: int
  assumes "\<bar>a\<bar> \<le> 2 ^ 53" and "step \<noteq> JUndef" "AQL_TO_NUMBER step = JNull"
  shows "AQL_RANGE (jint a) (jint b) step = (if a \<le> b then None else Some (quiet (JArr [])))"
proof -
  let ?loop = "range_up (Fin (of_int a)) (Fin (of_int b)) (Fin 0)"
  have "?loop = (if a \<le> b then Option.bind ?loop (\<lambda>r. Some (Fin (of_int a) # r)) else Some [])"
    using assms(1) by (subst range_up.simps) simp
  then have "?loop = (if a \<le> b then None else Some [])"
    by (cases "a \<le> b"; cases ?loop) simp_all
  then show ?thesis using assms by (simp add: AQL_RANGE_def Let_def range_values_def)
qed

theorem range_null_step_diverges_witness:
  "AQL_RANGE (jint 1) (jint 2) (JObj []) = None \<and> AQL_RANGE (jint 2) (jint 1) (JArr [JNull, JNull]) = Some (quiet (JArr []))"
  using range_null_step_diverges [of 1 "JObj []" 2] range_null_step_diverges [of 2 "JArr [JNull, JNull]" 1]
  by simp

subsection \<open>Properties of the list operations\<close>

lemma sort_key_id: "sort_key f (sort_key f ks) = sort_key f ks"
  by (rule sort_key_id_if_sorted) simp

lemma object_keys_idem:
  assumes "map fst ob' = object_keys ob"
  shows "object_keys ob' = object_keys ob"
  using assms by (simp add: object_keys_def Let_def filter_sort sort_key_id del: not_None_eq)

lemma CLONE_idem: "CLONE (CLONE v) = CLONE v"
proof (induction v rule: CLONE.induct)
  case (2 ob)
  let ?ob = "map (\<lambda>(k, v). (k, CLONE v)) (object_entries ob)"
  have "map fst ?ob = object_keys ob"
    by (simp add: object_entries_def comp_def case_prod_unfold)
  then have "object_keys ?ob = object_keys ob" by (rule object_keys_idem)
  moreover have "CLONE (obj_get ?ob k) = CLONE (obj_get ob k)" if "obj_has ob k" for k
  proof -
    have "(k, obj_get ob k) \<in> set (object_entries ob)"
      using that by (simp add: object_entries_def image_iff)
    from 2 [OF this refl] show ?thesis by (simp only: obj_get_CLONE)
  qed
  ultimately have "map (\<lambda>(k, v). (k, CLONE v)) (object_entries ?ob) = ?ob"
    unfolding object_entries_def [of ?ob] by (simp add: object_entries_def [of ob])
  then show ?case by (simp del: map_map)
qed auto

lemma CLONE_CMP:
  assumes "comparator cs"
  shows "RELATIONAL_CMP cs (CLONE v) v = 0"
proof (induction v rule: CLONE.induct)
  case (1 xs)
  have "RELATIONAL_CMP cs (arr_get (map CLONE xs) i) (arr_get xs i) = 0" for i
    using 1 by (cases "i < length xs") (simp_all add: arr_get_def comparator.refl [OF RELATIONAL_CMP_comparator [OF assms]])
  then show ?case by (simp add: RELATIONAL_CMP_arr arr_cmp_def first_nonzero_zeroI)
next
  case (2 ob)
  have "RELATIONAL_CMP cs (CLONE (obj_get ob k)) (obj_get ob k) = 0" for k
  proof (cases "obj_has ob k")
    case True
    then have "(k, obj_get ob k) \<in> set (object_entries ob)"
      by (simp add: object_entries_def image_iff)
    from 2 [OF this refl] show ?thesis .
  next
    case False
    then show ?thesis by (simp add: obj_get_absent comparator.refl [OF RELATIONAL_CMP_comparator [OF assms]])
  qed
  then show ?case
    by (simp add: RELATIONAL_CMP_obj obj_cmp_def obj_get_CLONE first_nonzero_zeroI)
qed (simp_all add: comparator.refl [OF RELATIONAL_CMP_comparator [OF assms]])

text \<open>
  C8: \<open>POP\<close> undoes \<open>PUSH\<close>, \<open>SHIFT\<close> undoes \<open>UNSHIFT\<close> and \<open>REVERSE\<close> undoes itself, up to the copy the functions
  make, and that copy compares equal to the original. The pushed value is the new last, the
  unshifted one the new first element.
\<close>

theorem stack_round_trips:
  assumes "comparator cs"
  shows "fst (AQL_POP (fst (AQL_PUSH cs (JArr xs) v JUndef))) = CLONE (JArr xs)
    \<and> AQL_LAST (fst (AQL_PUSH cs (JArr xs) v JUndef)) = quiet v
    \<and> fst (AQL_SHIFT (fst (AQL_UNSHIFT cs (JArr xs) v JUndef))) = CLONE (JArr xs)
    \<and> AQL_FIRST (fst (AQL_UNSHIFT cs (JArr xs) v JUndef)) = quiet v
    \<and> fst (AQL_REVERSE (fst (AQL_REVERSE (JArr xs)))) = CLONE (JArr xs)
    \<and> RELATIONAL_EQUAL cs (CLONE (JArr xs)) (JArr xs)"
  using CLONE_CMP [OF assms, of "JArr xs"]
  by (simp add: AQL_POP_def AQL_PUSH_def AQL_LAST_def AQL_SHIFT_def AQL_UNSHIFT_def AQL_FIRST_def
      AQL_REVERSE_def EQUAL_iff_CMP CLONE_idem comp_def rev_map)

theorem stack_round_trips_witness:
  "fst (AQL_POP (fst (AQL_PUSH code_unit_cmp (JArr [JStr ''a'']) JNull JUndef))) = JArr [JStr ''a'']"
  using stack_round_trips [OF code_unit.comparator_axioms, of "[JStr ''a'']" JNull] by simp

lemma position_loop_Some:
  "position_loop cs v n xs = Some i \<longleftrightarrow>
     n \<le> i \<and> i < n + length xs \<and> RELATIONAL_EQUAL cs (xs ! (i - n)) v
     \<and> (\<forall>j < i - n. \<not> RELATIONAL_EQUAL cs (xs ! j) v)"
proof (induction xs arbitrary: n)
  case (Cons x xs)
  show ?case
  proof (cases "RELATIONAL_EQUAL cs x v")
    case True
    then show ?thesis by (auto simp: nth_Cons' dest: spec [of _ 0])
  next
    case False
    have *: "(\<forall>j < i - n. \<not> RELATIONAL_EQUAL cs ((x # xs) ! j) v)
        \<longleftrightarrow> (\<forall>j < i - Suc n. \<not> RELATIONAL_EQUAL cs (xs ! j) v)" if "Suc n \<le> i"
    proof -
      obtain m where "i = n + Suc m" using le_Suc_ex [of "Suc n" i] \<open>Suc n \<le> i\<close> by auto
      then show ?thesis using False by (simp add: All_less_Suc2)
    qed
    show ?thesis using False Cons.IH [of "Suc n"] * by (cases "n = i") (auto simp: nth_Cons')
  qed
qed simp

lemma position_loop_None: "position_loop cs v n xs = None \<longleftrightarrow> (\<forall>x \<in> set xs. \<not> RELATIONAL_EQUAL cs x v)"
  by (induction xs arbitrary: n) auto

lemma EQUAL_sym: "comparator cs \<Longrightarrow> RELATIONAL_EQUAL cs x y \<longleftrightarrow> RELATIONAL_EQUAL cs y x"
  using comparator.zero_sym [OF RELATIONAL_CMP_comparator] by (simp add: EQUAL_iff_CMP)

text \<open>
  \<open>POSITION\<close> with a truthy third argument returns the least index of an equal element, or \<open>-1\<close>;
  without it, it answers as the operator \<open>IN\<close> does.
\<close>

theorem position_least_index:
  assumes "comparator cs"
  shows "(AQL_POSITION cs (JArr xs) v (JBool True) = quiet (jnat i)
      \<longleftrightarrow> i < length xs \<and> RELATIONAL_EQUAL cs (xs ! i) v \<and> (\<forall>j < i. \<not> RELATIONAL_EQUAL cs (xs ! j) v))
    \<and> (AQL_POSITION cs (JArr xs) v (JBool True) = quiet (JNum (Fin (- 1))) \<longleftrightarrow> \<not> contained cs v xs)
    \<and> AQL_POSITION cs (JArr xs) v (JBool False) = quiet (JBool (contained cs v xs))"
  using position_loop_Some [of cs v 0 xs i] position_loop_None [of cs v 0 xs]
  by (auto simp: AQL_POSITION_def contained_def RELATIONAL_IN_def list_ex_iff jnat_def EQUAL_sym [OF assms]
      split: option.splits)

theorem position_least_index_witness:
  "AQL_POSITION code_unit_cmp (JArr [JNull, JStr ''a'', JStr ''a'']) (JStr ''a'') (JBool True) = quiet (jnat 1)"
proof -
  have "\<not> RELATIONAL_EQUAL code_unit_cmp JNull (JStr ''a'')" by code_simp
  then show ?thesis
    using position_least_index [OF code_unit.comparator_axioms, of "[JNull, JStr ''a'', JStr ''a'']" "JStr ''a''" 1]
    by (simp add: EQUAL_iff_CMP All_less_Suc2)
qed

lemma remove_value_all:
  "remove_value_loop cs v (JNum (Fin (- 1))) xs = map CLONE (filter (\<lambda>x. RELATIONAL_CMP cs x v \<noteq> 0) xs)"
  by (induction xs) simp_all

lemma remove_value_limit:
  assumes "int n \<le> 2 ^ 53"
  shows "length xs \<le> length (remove_value_loop cs v (jint (int n)) xs) + n"
  using assms
proof (induction xs arbitrary: n)
  case (Cons x xs)
  show ?case
  proof (cases n)
    case 0
    then show ?thesis using Cons.IH [of 0] by simp
  next
    case (Suc m)
    have "num_sub (Fin (of_nat (Suc m))) (Fin 1) = Fin (of_nat m)"
      using round_double_of_int [of "int m"] Cons.prems Suc by (simp add: num_sub_def)
    then show ?thesis using Cons.IH [of m] Cons.IH [of "Suc m"] Cons.prems Suc by auto
  qed
qed simp

text \<open>
  \<open>REMOVE_VALUE\<close> without a limit and \<open>REMOVE_VALUES\<close> with a single value remove the same elements,
  although one compares by \<open>RELATIONAL_CMP\<close> and the other by membership; with a limit \<open>n\<close> at most \<open>n\<close>
  elements go.
\<close>

theorem remove_value_agrees:
  assumes "int n \<le> 2 ^ 53"
  shows "AQL_REMOVE_VALUE cs (JArr xs) v JNull = AQL_REMOVE_VALUES cs (JArr xs) (JArr [v])
    \<and> (\<exists>ys. AQL_REMOVE_VALUE cs (JArr xs) v (jint (int n)) = quiet (JArr ys)
          \<and> length xs \<le> length ys + n)"
proof -
  have "filter (\<lambda>x. RELATIONAL_CMP cs x v \<noteq> 0) xs = filter (\<lambda>x. \<not> contained cs x [v]) xs"
    by (simp add: contained_def RELATIONAL_IN_def EQUAL_iff_CMP)
  then show ?thesis using remove_value_limit [OF assms, of xs cs v]
    by (simp add: AQL_REMOVE_VALUE_def AQL_REMOVE_VALUES_def remove_value_all typeweight_simps)
qed

theorem remove_value_agrees_witness:
  "AQL_REMOVE_VALUE code_unit_cmp (JArr [jint 1, jint 2]) (jint 1) JNull
     = AQL_REMOVE_VALUES code_unit_cmp (JArr [jint 1, jint 2]) (JArr [jint 1])"
  by (rule conjunct1 [OF remove_value_agrees [of 1]]) simp

lemma slice_from:
  "slice xs (Fin (of_int k)) None = drop (nat (if k < 0 then int (length xs) + k else k)) xs"
  by (auto simp: slice_def rat_trunc_def Let_def min_def max_def)

lemma slice_to:
  "slice xs (Fin 0) (Some (Fin (of_int k))) = take (nat (if k < 0 then int (length xs) + k else k)) xs"
  by (auto simp: slice_def rat_trunc_def Let_def min_def max_def)

text \<open>The branches of \<open>REMOVE_NTH\<close> in integers.\<close>

lemma remove_nth_ints:
  fixes p :: int
  assumes n: "n = int (length xs)" and "n \<le> 2 ^ 52" "\<bar>p\<bar> < 2 ^ 52"
  shows "AQL_REMOVE_NTH (JArr xs) (jint p) = quiet (JArr
    (if n \<le> p \<or> p < - n then xs
     else if p = 0 then slice xs (Fin (of_int 1)) None
     else if p = - n then slice xs (Fin (of_int (p + 1))) None
     else if p = n - 1 then slice xs (Fin 0) (Some (Fin (of_int p)))
     else if p < 0 then slice xs (Fin 0) (Some (Fin (of_int (n + p)))) @ slice xs (Fin (of_int (n + p + 1))) None
     else slice xs (Fin 0) (Some (Fin (of_int p))) @ slice xs (Fin (of_int (p + 1))) None))"
proof -
  have len: "Fin (of_nat (length xs)) = Fin (of_int n)" using n by simp
  have neg: "num_neg (Fin (of_int n)) = Fin (of_int (- n))" by simp
  have exact: "num_sub (Fin (of_int n)) (Fin 1) = Fin (of_int (n - 1))"
    "num_add (Fin (of_int p)) (Fin 1) = Fin (of_int (p + 1))"
    "num_add (Fin (of_int n)) (Fin (of_int p)) = Fin (of_int (n + p))"
    "num_add (Fin (of_int (n + p))) (Fin 1) = Fin (of_int (n + p + 1))"
    using round_double_of_int [of "n - 1"] round_double_of_int [of "p + 1"]
      round_double_of_int [of "n + p"] round_double_of_int [of "n + p + 1"] assms
    by (simp_all add: num_sub_def)
  have zero: "js_eq (jint p) (jnat 0) \<longleftrightarrow> p = 0" by (simp add: jnat_def)
  have num: "AQL_TO_NUMBER (jint p) = jint p" by simp
  show ?thesis
    unfolding AQL_REMOVE_NTH_def jsval.case Let_def num js_number.simps
    unfolding len neg exact zero of_int_1
    by (simp add: typeweight_simps del: of_int_add of_int_diff of_int_minus)
qed

text \<open>
  \<open>REMOVE_NTH\<close> on a list of at least two elements, with an integer position inside the list,
  removes exactly the element there, counting from the end for a negative position; outside it
  returns the list.
\<close>

theorem remove_nth_spec:
  fixes p :: int
  assumes "2 \<le> length xs" "int (length xs) \<le> 2 ^ 52" "\<bar>p\<bar> < 2 ^ 52"
  shows "AQL_REMOVE_NTH (JArr xs) (jint p) = quiet (JArr
    (if p < - int (length xs) \<or> int (length xs) \<le> p then xs
     else let i = nat (if p < 0 then int (length xs) + p else p) in take i xs @ drop (Suc i) xs))"
proof -
  consider "p < - int (length xs) \<or> int (length xs) \<le> p" | "p = - int (length xs)" | "- int (length xs) < p" "p < 0"
    | "p = 0" | "0 < p" "p = int (length xs) - 1" | "0 < p" "p < int (length xs) - 1"
    by linarith
  then show ?thesis
    unfolding remove_nth_ints [OF refl assms(2,3)] slice_from slice_to Let_def
    using assms(1) by cases (auto simp: Suc_nat_eq_nat_zadd1 ac_simps)
qed

theorem remove_nth_spec_witness:
  "AQL_REMOVE_NTH (JArr [JNull, JBool True, JStr ''a'']) (jint (- 2)) = quiet (JArr [JNull, JStr ''a''])"
  using remove_nth_spec [of "[JNull, JBool True, JStr ''a'']" "- 2"] by (simp add: eval_nat_numeral)

text \<open>
  \<open>REMOVE_NTH\<close> of position \<open>-1\<close> in a list of one element removes nothing: the branch for
  \<open>position === - list.length\<close> takes \<open>list.slice(0)\<close>.
\<close>

theorem remove_nth_single_keeps: "AQL_REMOVE_NTH (JArr [v]) (jint (- 1)) = quiet (JArr [v])"
  using remove_nth_ints [of 1 "[v]" "- 1"] slice_from [of "[v]" 0] by simp

subsection \<open>Properties of flattening\<close>

text \<open>The leaves of a list of values, from left to right, and how deep its lists are nested.\<close>

fun leaves :: "jsval list \<Rightarrow> jsval list" where
  "leaves [] = []"
| "leaves (JArr xs # rest) = leaves xs @ leaves rest"
| "leaves (v # rest) = v # leaves rest"

fun nesting :: "jsval list \<Rightarrow> nat" where
  "nesting [] = 0"
| "nesting (JArr xs # rest) = max (Suc (nesting xs)) (nesting rest)"
| "nesting (v # rest) = nesting rest"

lemma leaves_append [simp]: "leaves (xs @ ys) = leaves xs @ leaves ys"
  by (induction xs rule: leaves.induct) simp_all

lemma flatten_loop_leaves: "leaves (flatten_loop md d xs) = leaves xs"
  by (induction md d xs rule: flatten_loop.induct) simp_all

lemma flatten_loop_deep: "of_nat (d + nesting xs) \<le> md \<Longrightarrow> flatten_loop md d xs = leaves xs"
proof (induction md d xs rule: flatten_loop.induct)
  case (2 md d xs rest)
  have a: "of_nat (Suc d + nesting xs) \<le> md" and b: "of_nat (d + nesting rest) \<le> md"
    using 2(4) by (simp_all add: max_def split: if_splits)
  then have "of_nat d < md" by simp
  then show ?case using 2(1) [OF _ a] 2(2) [OF _ b] by simp
qed simp_all

lemma flatten_loop_one:
  "flatten_loop 1 0 xs = concat (map (\<lambda>v. case v of JArr ys \<Rightarrow> ys | _ \<Rightarrow> [v]) xs)"
proof -
  have id: "flatten_loop 1 (Suc 0) ys = ys" for ys by (induction "1 :: rat" "Suc 0" ys rule: flatten_loop.induct) simp_all
  show ?thesis by (induction "1 :: rat" "0 :: nat" xs rule: flatten_loop.induct) (simp_all add: id)
qed

text \<open>
  C9: \<open>FLATTEN\<close> keeps the leaves of its list and their order whatever the depth; without a depth it
  removes one level, and with a depth of at least the nesting of the list it returns the leaves.
\<close>

theorem flatten_leaves:
  assumes "of_nat (nesting xs) \<le> md" "1 \<le> md"
  shows "(\<exists>ys. AQL_FLATTEN (JArr xs) depth = quiet (JArr ys) \<and> leaves ys = leaves xs)
    \<and> AQL_FLATTEN (JArr xs) JUndef = quiet (JArr (concat (map (\<lambda>v. case v of JArr ys \<Rightarrow> ys | _ \<Rightarrow> [v]) xs)))
    \<and> AQL_FLATTEN (JArr xs) (JNum (Fin md)) = quiet (JArr (leaves xs))"
  using assms
  by (simp add: AQL_FLATTEN_def Let_def flatten_loop_leaves flatten_loop_one flatten_loop_deep)

theorem flatten_leaves_witness:
  "AQL_FLATTEN (JArr [JArr [JNull, JArr [JBool True]], JStr ''a'']) (JNum (Fin 2))
     = quiet (JArr [JNull, JBool True, JStr ''a''])"
  using flatten_leaves [of "[JArr [JNull, JArr [JBool True]], JStr ''a'']" 2] by simp

end
