(* ===== verification/AQL_Aggregate.thy ===== *)
theory AQL_Aggregate
  imports AQL_Lists
begin

text \<open>
  The aggregate functions of \<open>aql.js\<close>, from \<open>AQL_MAX\<close> to \<open>AQL_STDDEV_POPULATION\<close>. \<open>Math.sqrt\<close>, whose
  result the language leaves to the implementation, is a parameter.
\<close>

fun max_loop :: "(string \<Rightarrow> string \<Rightarrow> int) \<Rightarrow> jsval \<Rightarrow> jsval list \<Rightarrow> jsval" where
  "max_loop cs result [] = result"
| "max_loop cs result (value # rest) =
     (if TYPEWEIGHT value \<noteq> TYPEWEIGHT_NULL \<and> (result = JNull \<or> RELATIONAL_GREATER cs value result)
      then max_loop cs value rest else max_loop cs result rest)"

definition AQL_MAX :: "(string \<Rightarrow> string \<Rightarrow> int) \<Rightarrow> jsval \<Rightarrow> jsval warned" where
  "AQL_MAX cs values = (case values of
      JArr xs \<Rightarrow> quiet (max_loop cs JNull xs)
    | _ \<Rightarrow> array_expected ''MAX'' JNull)"

fun min_loop :: "(string \<Rightarrow> string \<Rightarrow> int) \<Rightarrow> jsval \<Rightarrow> jsval list \<Rightarrow> jsval" where
  "min_loop cs result [] = result"
| "min_loop cs result (value # rest) =
     (if TYPEWEIGHT value \<noteq> TYPEWEIGHT_NULL \<and> (result = JNull \<or> RELATIONAL_LESS cs value result)
      then min_loop cs value rest else min_loop cs result rest)"

definition AQL_MIN :: "(string \<Rightarrow> string \<Rightarrow> int) \<Rightarrow> jsval \<Rightarrow> jsval warned" where
  "AQL_MIN cs values = (case values of
      JArr xs \<Rightarrow> quiet (min_loop cs JNull xs)
    | _ \<Rightarrow> array_expected ''MIN'' JNull)"

text \<open>
  The loop the numeric aggregates share: the numbers of a list in order, values of weight null left
  out; any other value ends it.
\<close>

fun numbers :: "jsval list \<Rightarrow> jsnum list option" where
  "numbers [] = Some []"
| "numbers (value # rest) =
     (if TYPEWEIGHT value = TYPEWEIGHT_NULL then numbers rest
      else case value of
        JNum n \<Rightarrow> map_option (\<lambda>ns. n # ns) (numbers rest)
      | _ \<Rightarrow> None)"

definition arithmetic_expected :: "string \<Rightarrow> 'a \<Rightarrow> 'a warned" where
  "arithmetic_expected func v = (v, [WARN (Some func) ERROR_QUERY_INVALID_ARITHMETIC_VALUE None])"

definition AQL_SUM :: "jsval \<Rightarrow> jsval warned" where
  "AQL_SUM values = (case values of
      JArr xs \<Rightarrow> (case numbers xs of
          None \<Rightarrow> mismatch ''SUM'' JNull
        | Some ns \<Rightarrow> quiet (NUMERIC_VALUE (foldl num_add (Fin 0) ns)))
    | _ \<Rightarrow> array_expected ''SUM'' JNull)"

definition AQL_AVERAGE :: "jsval \<Rightarrow> jsval warned" where
  "AQL_AVERAGE values = (case values of
      JArr xs \<Rightarrow> (case numbers xs of
          None \<Rightarrow> arithmetic_expected ''AVERAGE'' JNull
        | Some ns \<Rightarrow> quiet (if length ns = 0 then JNull
            else NUMERIC_VALUE (num_div (foldl num_add (Fin 0) ns) (Fin (of_nat (length ns))))))
    | _ \<Rightarrow> array_expected ''AVERAGE'' JNull)"

text \<open>
  \<open>copy.sort(RELATIONAL_CMP)\<close> on an array of numbers, and \<open>copy[i]\<close> used as a number: \<open>undefined\<close>
  outside the array, which is not a number.
\<close>

definition sort_numbers :: "(string \<Rightarrow> string \<Rightarrow> int) \<Rightarrow> jsnum list \<Rightarrow> jsnum list" where
  "sort_numbers cs ns = map js_number (js_sort (RELATIONAL_CMP cs) (map JNum ns))"

definition num_at :: "jsnum list \<Rightarrow> int \<Rightarrow> jsnum" where
  "num_at ns i = (if 0 \<le> i \<and> i < int (length ns) then ns ! nat i else NaN)"

definition AQL_MEDIAN :: "(string \<Rightarrow> string \<Rightarrow> int) \<Rightarrow> jsval \<Rightarrow> jsval warned" where
  "AQL_MEDIAN cs values = (case values of
      JArr xs \<Rightarrow> (case numbers xs of
          None \<Rightarrow> arithmetic_expected ''MEDIAN'' JNull
        | Some ns \<Rightarrow> quiet
            (if length ns = 0 then JNull
             else let copy = sort_numbers cs ns; midpoint = int (length copy div 2)
                  in if length copy mod 2 = 0
                     then NUMERIC_VALUE (num_div (num_add (num_at copy (midpoint - 1)) (num_at copy midpoint)) (Fin 2))
                     else NUMERIC_VALUE (num_at copy midpoint)))
    | _ \<Rightarrow> array_expected ''MEDIAN'' JNull)"

definition percentile_rank :: "jsnum list \<Rightarrow> jsnum \<Rightarrow> jsval" where
  "percentile_rank copy p =
     (let n = Fin (of_nat (length copy));
          pos = math_ceil (num_div (num_mul p n) (Fin 100))
      in if num_le n pos then NUMERIC_VALUE (num_at copy (int (length copy) - 1))
         else case pos of
           Fin q \<Rightarrow> NUMERIC_VALUE (num_at copy (\<lfloor>q\<rfloor> - 1))
         | _ \<Rightarrow> JNull)"

definition percentile_interpolation :: "jsnum list \<Rightarrow> jsnum \<Rightarrow> jsval" where
  "percentile_interpolation copy p =
     (let n = Fin (of_nat (length copy));
          idx = num_div (num_mul p (num_add n (Fin 1))) (Fin 100);
          pos = math_floor idx;
          delta = num_sub idx pos
      in if num_le n pos then NUMERIC_VALUE (num_at copy (int (length copy) - 1))
         else case pos of
           Fin q \<Rightarrow> NUMERIC_VALUE (num_add
             (num_mul delta (num_sub (num_at copy \<lfloor>q\<rfloor>) (num_at copy (\<lfloor>q\<rfloor> - 1)))) (num_at copy (\<lfloor>q\<rfloor> - 1)))
         | _ \<Rightarrow> JNull)"

definition AQL_PERCENTILE :: "(string \<Rightarrow> string \<Rightarrow> int) \<Rightarrow> jsval \<Rightarrow> jsval \<Rightarrow> jsval \<Rightarrow> jsval warned" where
  "AQL_PERCENTILE cs values p method0 = (case values of
      JArr xs \<Rightarrow>
        (if TYPEWEIGHT p \<noteq> TYPEWEIGHT_NUMBER then mismatch ''PERCENTILE'' JNull
         else if js_le p (jnat 0) \<or> js_lt (jnat 100) p then mismatch ''PERCENTILE'' JNull
         else let method = (if method0 = JNull \<or> method0 = JUndef then JStr ''rank'' else method0)
              in if method \<noteq> JStr ''interpolation'' \<and> method \<noteq> JStr ''rank''
                 then mismatch ''PERCENTILE'' JNull
                 else case numbers xs of
                    None \<Rightarrow> arithmetic_expected ''PERCENTILE'' JNull
                  | Some ns \<Rightarrow> quiet
                      (if length ns = 0 then JNull
                       else if length ns = 1 then JNum (ns ! 0)
                       else let copy = sort_numbers cs ns
                            in if method = JStr ''interpolation''
                               then percentile_interpolation copy (js_number p)
                               else percentile_rank copy (js_number p)))
    | _ \<Rightarrow> array_expected ''PERCENTILE'' JNull)"

record moments =
  m_n :: nat
  m_mean :: jsnum
  m_m2 :: jsnum

definition variance_step :: "moments \<Rightarrow> jsnum \<Rightarrow> moments" where
  "variance_step s current =
     (let delta = num_sub current (m_mean s);
          j = Suc (m_n s);
          mean = num_add (m_mean s) (num_div delta (Fin (of_nat j)))
      in \<lparr>m_n = j, m_mean = mean, m_m2 = num_add (m_m2 s) (num_mul delta (num_sub current mean))\<rparr>)"

definition VARIANCE :: "jsval \<Rightarrow> (nat \<times> jsnum) option warned" where
  "VARIANCE values = (case values of
      JArr xs \<Rightarrow> (case numbers xs of
          None \<Rightarrow> arithmetic_expected ''VARIANCE'' None
        | Some ns \<Rightarrow>
            (let s = foldl variance_step \<lparr>m_n = 0, m_mean = Fin 0, m_m2 = Fin 0\<rparr> ns
             in quiet (Some (m_n s, m_m2 s))))
    | _ \<Rightarrow> array_expected ''VARIANCE'' None)"

definition AQL_VARIANCE_SAMPLE :: "jsval \<Rightarrow> jsval warned" where
  "AQL_VARIANCE_SAMPLE values = (case VARIANCE values of
      (None, ws) \<Rightarrow> (JNull, ws)
    | (Some (n, v), ws) \<Rightarrow>
        (if n < 2 then JNull else NUMERIC_VALUE (num_div v (num_sub (Fin (of_nat n)) (Fin 1))), ws))"

definition AQL_VARIANCE_POPULATION :: "jsval \<Rightarrow> jsval warned" where
  "AQL_VARIANCE_POPULATION values = (case VARIANCE values of
      (None, ws) \<Rightarrow> (JNull, ws)
    | (Some (n, v), ws) \<Rightarrow>
        (if n < 1 then JNull else NUMERIC_VALUE (num_div v (Fin (of_nat n))), ws))"

definition AQL_STDDEV_SAMPLE :: "(jsnum \<Rightarrow> jsnum) \<Rightarrow> jsval \<Rightarrow> jsval warned" where
  "AQL_STDDEV_SAMPLE math_sqrt values = (case VARIANCE values of
      (None, ws) \<Rightarrow> (JNull, ws)
    | (Some (n, v), ws) \<Rightarrow>
        (if n < 2 then JNull else NUMERIC_VALUE (math_sqrt (num_div v (num_sub (Fin (of_nat n)) (Fin 1)))), ws))"

definition AQL_STDDEV_POPULATION :: "(jsnum \<Rightarrow> jsnum) \<Rightarrow> jsval \<Rightarrow> jsval warned" where
  "AQL_STDDEV_POPULATION math_sqrt values = (case VARIANCE values of
      (None, ws) \<Rightarrow> (JNull, ws)
    | (Some (n, v), ws) \<Rightarrow>
        (if n < 1 then JNull else NUMERIC_VALUE (math_sqrt (num_div v (Fin (of_nat n)))), ws))"

subsection \<open>Maximum and minimum\<close>

text \<open>The values the operators order completely: strings, and values without strings inside.\<close>

definition ordered_value :: "jsval \<Rightarrow> bool" where
  "ordered_value v \<longleftrightarrow> string_free v \<or> (\<exists>s. v = JStr s)"

lemma GREATER_iff_CMP:
  assumes "ordered_value l"
  shows "RELATIONAL_GREATER cs l r \<longleftrightarrow> 0 < RELATIONAL_CMP cs l r"
proof (cases "string_free l")
  case True
  then show ?thesis using GREATER_REC_answer [of l cs r]
    by (auto simp: RELATIONAL_GREATER_def answer_defs split: option.splits bool.splits)
next
  case False
  then obtain s where "l = JStr s" using assms by (auto simp: ordered_value_def)
  then show ?thesis
    by (cases r rule: TYPEWEIGHT_cases)
      (auto simp: RELATIONAL_GREATER_def RELATIONAL_GREATER_REC.simps [of cs "JStr s"] RELATIONAL_CMP.simps [of cs "JStr s"]
        typeweight_simps)
qed

lemma LESS_iff_CMP:
  assumes "ordered_value l"
  shows "RELATIONAL_LESS cs l r \<longleftrightarrow> RELATIONAL_CMP cs l r < 0"
proof (cases "string_free l")
  case True
  then show ?thesis using LESS_REC_answer [of l cs r]
    by (auto simp: RELATIONAL_LESS_def answer_defs split: option.splits bool.splits)
next
  case False
  then obtain s where "l = JStr s" using assms by (auto simp: ordered_value_def)
  then show ?thesis
    by (cases r rule: TYPEWEIGHT_cases)
      (auto simp: RELATIONAL_LESS_def RELATIONAL_LESS_REC.simps [of cs "JStr s"] RELATIONAL_CMP.simps [of cs "JStr s"]
        typeweight_simps)
qed

lemma CMP_null_le: "TYPEWEIGHT l = TYPEWEIGHT_NULL \<Longrightarrow> RELATIONAL_CMP cs l r \<le> 0"
  by (subst RELATIONAL_CMP.simps) (auto simp: typeweight_simps)

abbreviation null_weight :: "jsval \<Rightarrow> bool" where
  "null_weight v \<equiv> TYPEWEIGHT v = TYPEWEIGHT_NULL"

context collation
begin

lemma max_loop_step:
  assumes "ordered_value x"
  obtains r' where "max_loop COMPARE_STRING result (x # xs) = max_loop COMPARE_STRING r' xs"
    "r' = result \<or> r' = x \<and> \<not> null_weight x"
    "RELATIONAL_CMP COMPARE_STRING result r' \<le> 0" "RELATIONAL_CMP COMPARE_STRING x r' \<le> 0"
proof (cases "\<not> null_weight x \<and> (result = JNull \<or> RELATIONAL_GREATER COMPARE_STRING x result)")
  case True
  then have "RELATIONAL_CMP COMPARE_STRING result x \<le> 0"
    using CMP_null_le [of JNull] GREATER_iff_CMP [OF assms] rel.cmp_sym [of result x] by auto
  then show thesis using True that [of x] by simp
next
  case False
  then have "RELATIONAL_CMP COMPARE_STRING x result \<le> 0"
    using CMP_null_le [of x] GREATER_iff_CMP [OF assms] by force
  then show thesis using False that [of result] by auto
qed

lemma max_loop_bound:
  assumes "\<forall>x \<in> set xs. ordered_value x"
  shows "(max_loop COMPARE_STRING result xs = result
        \<or> max_loop COMPARE_STRING result xs \<in> set xs \<and> \<not> null_weight (max_loop COMPARE_STRING result xs))
    \<and> RELATIONAL_CMP COMPARE_STRING result (max_loop COMPARE_STRING result xs) \<le> 0
    \<and> (\<forall>x \<in> set xs. RELATIONAL_CMP COMPARE_STRING x (max_loop COMPARE_STRING result xs) \<le> 0)"
  using assms
proof (induction xs arbitrary: result)
  case (Cons x xs)
  obtain r' where "max_loop COMPARE_STRING result (x # xs) = max_loop COMPARE_STRING r' xs"
    "r' = result \<or> r' = x \<and> \<not> null_weight x"
    "RELATIONAL_CMP COMPARE_STRING result r' \<le> 0" "RELATIONAL_CMP COMPARE_STRING x r' \<le> 0"
    using max_loop_step [of x result xs] Cons.prems by auto
  then show ?case using Cons.IH [of r'] Cons.prems rel.cmp_trans
    by (auto simp del: max_loop.simps)
qed simp

lemma min_loop_step:
  assumes "ordered_value x"
  obtains r' where "min_loop COMPARE_STRING result (x # xs) = min_loop COMPARE_STRING r' xs"
    "r' = result \<or> r' = x \<and> \<not> null_weight x"
    "result \<noteq> JNull \<Longrightarrow> r' \<noteq> JNull \<and> RELATIONAL_CMP COMPARE_STRING r' result \<le> 0"
    "\<not> null_weight x \<Longrightarrow> r' \<noteq> JNull \<and> RELATIONAL_CMP COMPARE_STRING r' x \<le> 0"
proof (cases "\<not> null_weight x \<and> (result = JNull \<or> RELATIONAL_LESS COMPARE_STRING x result)")
  case True
  then have "result \<noteq> JNull \<longrightarrow> RELATIONAL_CMP COMPARE_STRING x result \<le> 0" "x \<noteq> JNull"
    using LESS_iff_CMP [OF assms] by auto
  then show thesis using True that [of x] by simp
next
  case False
  then have "\<not> null_weight x \<longrightarrow> result \<noteq> JNull \<and> RELATIONAL_CMP COMPARE_STRING result x \<le> 0"
    using LESS_iff_CMP [OF assms] rel.cmp_sym [of result x] by force
  then show thesis using False that [of result] by auto
qed

lemma min_loop_bound:
  assumes "\<forall>x \<in> set xs. ordered_value x"
  shows "(min_loop COMPARE_STRING result xs = result
        \<or> min_loop COMPARE_STRING result xs \<in> set xs \<and> \<not> null_weight (min_loop COMPARE_STRING result xs))
    \<and> (result \<noteq> JNull \<longrightarrow> min_loop COMPARE_STRING result xs \<noteq> JNull
        \<and> RELATIONAL_CMP COMPARE_STRING (min_loop COMPARE_STRING result xs) result \<le> 0)
    \<and> (\<forall>x \<in> set xs. \<not> null_weight x \<longrightarrow> min_loop COMPARE_STRING result xs \<noteq> JNull
        \<and> RELATIONAL_CMP COMPARE_STRING (min_loop COMPARE_STRING result xs) x \<le> 0)"
  using assms
proof (induction xs arbitrary: result)
  case (Cons x xs)
  obtain r' where "min_loop COMPARE_STRING result (x # xs) = min_loop COMPARE_STRING r' xs"
    "r' = result \<or> r' = x \<and> \<not> null_weight x"
    "result \<noteq> JNull \<Longrightarrow> r' \<noteq> JNull \<and> RELATIONAL_CMP COMPARE_STRING r' result \<le> 0"
    "\<not> null_weight x \<Longrightarrow> r' \<noteq> JNull \<and> RELATIONAL_CMP COMPARE_STRING r' x \<le> 0"
    using min_loop_step [of x result xs] Cons.prems by auto
  then show ?case using Cons.IH [of r'] Cons.prems rel.cmp_trans
    by (auto simp del: min_loop.simps)
qed simp

end

text \<open>
  \<open>MAX\<close> and \<open>MIN\<close> return \<open>null\<close> for a list without values, and otherwise a value of the list that
  bounds every other one in the order of \<open>RELATIONAL_CMP\<close>, for strings and values without strings inside.
\<close>

theorem max_min_bound:
  assumes "comparator cs" "\<forall>x \<in> set xs. ordered_value x" "x \<in> set xs" "\<not> null_weight x"
  shows "fst (AQL_MAX cs (JArr xs)) \<in> set xs \<and> fst (AQL_MIN cs (JArr xs)) \<in> set xs
    \<and> \<not> null_weight (fst (AQL_MAX cs (JArr xs))) \<and> \<not> null_weight (fst (AQL_MIN cs (JArr xs)))
    \<and> RELATIONAL_CMP cs x (fst (AQL_MAX cs (JArr xs))) \<le> 0
    \<and> RELATIONAL_CMP cs (fst (AQL_MIN cs (JArr xs))) x \<le> 0"
proof -
  note c = collation.intro [OF assms(1)]
  have "max_loop cs JNull xs \<noteq> JNull"
  proof
    assume "max_loop cs JNull xs = JNull"
    then have "RELATIONAL_CMP cs x JNull \<le> 0"
      using collation.max_loop_bound [OF c assms(2), of JNull] assms(3) by auto
    then show False using assms(4) by (subst (asm) RELATIONAL_CMP.simps) (auto simp: typeweight_simps split: if_splits)
  qed
  then show ?thesis
    using collation.max_loop_bound [OF c assms(2), of JNull] collation.min_loop_bound [OF c assms(2), of JNull] assms(3,4)
    by (auto simp: AQL_MAX_def AQL_MIN_def)
qed

theorem max_min_bound_witness:
  "RELATIONAL_CMP code_unit_cmp (jint 3) (fst (AQL_MAX code_unit_cmp (JArr [JNull, jint 3, JStr ''a'']))) \<le> 0"
  using max_min_bound [OF code_unit.comparator_axioms, of "[JNull, jint 3, JStr ''a'']" "jint 3"]
  by (simp add: ordered_value_def typeweight_simps)

subsection \<open>Sums and averages\<close>

lemma numbers_ints: "numbers (map jint ks) = Some (map (\<lambda>k. Fin (of_int k)) ks)"
  by (induction ks) (auto simp: typeweight_simps)

lemma foldl_num_add_ints:
  fixes ks :: "int list"
  assumes "\<bar>a\<bar> + sum_list (map abs ks) \<le> 2 ^ 53"
  shows "foldl num_add (Fin (of_int a)) (map (\<lambda>k. Fin (of_int k)) ks) = Fin (of_int (a + sum_list ks))"
  using assms
proof (induction ks arbitrary: a)
  case (Cons k ks)
  have nonneg: "0 \<le> sum_list (map abs ks)" by (rule sum_list_nonneg) auto
  have "\<bar>a + k\<bar> \<le> 2 ^ 53" "\<bar>a + k\<bar> + sum_list (map abs ks) \<le> 2 ^ 53"
    using Cons.prems nonneg abs_triangle_ineq [of a k] by simp_all
  then show ?case using Cons.IH [of "a + k"] round_double_of_int [of "a + k"] by (simp add: algebra_simps)
qed simp

text \<open>
  On integers whose absolute values sum to at most \<open>2 ^ 53\<close>, \<open>SUM\<close> is the exact sum and \<open>AVERAGE\<close> the
  exact mean rounded once to a double.
\<close>

theorem sum_average_exact:
  fixes ks :: "int list"
  assumes "sum_list (map abs ks) \<le> 2 ^ 53" "ks \<noteq> []"
  shows "AQL_SUM (JArr (map jint ks)) = quiet (jint (sum_list ks))
    \<and> AQL_AVERAGE (JArr (map jint ks))
      = quiet (NUMERIC_VALUE (round_double (of_int (sum_list ks) / of_nat (length ks))))"
  using assms foldl_num_add_ints [of 0 ks]
  by (simp add: AQL_SUM_def AQL_AVERAGE_def numbers_ints NUMERIC_VALUE_def)

theorem sum_average_exact_witness:
  "AQL_SUM (JArr [jint 5, jint (- 2)]) = quiet (jint 3)
   \<and> AQL_AVERAGE (JArr [jint 5, jint (- 2)]) = quiet (NUMERIC_VALUE (round_double (3 / 2)))"
  using sum_average_exact [of "[5, - 2]"] by simp

lemma numbers_None_iff: "numbers xs = None \<longleftrightarrow> (\<exists>x \<in> set xs. \<not> null_weight x \<and> TYPEWEIGHT x \<noteq> TYPEWEIGHT_NUMBER)"
  by (induction xs) (auto simp: typeweight_simps split: jsval.splits if_splits)

text \<open>
  A value of a list that is neither a number nor of weight null makes each numeric aggregate
  return \<open>null\<close> with one warning: a type mismatch for \<open>SUM\<close>, an invalid arithmetic value for the others.
\<close>

theorem aggregates_reject:
  assumes "x \<in> set xs" "\<not> null_weight x" "TYPEWEIGHT x \<noteq> TYPEWEIGHT_NUMBER"
  shows "AQL_SUM (JArr xs) = mismatch ''SUM'' JNull
    \<and> AQL_AVERAGE (JArr xs) = arithmetic_expected ''AVERAGE'' JNull
    \<and> AQL_MEDIAN cs (JArr xs) = arithmetic_expected ''MEDIAN'' JNull
    \<and> AQL_VARIANCE_SAMPLE (JArr xs) = arithmetic_expected ''VARIANCE'' JNull
    \<and> AQL_VARIANCE_POPULATION (JArr xs) = arithmetic_expected ''VARIANCE'' JNull"
proof -
  have "numbers xs = None" using assms by (auto simp: numbers_None_iff)
  then show ?thesis
    by (simp add: AQL_SUM_def AQL_AVERAGE_def AQL_MEDIAN_def AQL_VARIANCE_SAMPLE_def AQL_VARIANCE_POPULATION_def
        VARIANCE_def arithmetic_expected_def)
qed

theorem aggregates_reject_witness:
  "AQL_SUM (JArr [jint 1, JStr ''2'']) = mismatch ''SUM'' JNull
   \<and> AQL_AVERAGE (JArr [jint 1, JStr ''2'']) = arithmetic_expected ''AVERAGE'' JNull"
  using aggregates_reject [of "JStr ''2''" "[jint 1, JStr ''2'']"] by (simp add: typeweight_simps)

subsection \<open>Median and percentiles\<close>

lemma js_sort_numbers:
  "map js_number (js_sort (RELATIONAL_CMP cs) (map (\<lambda>r. JNum (Fin r)) rs)) = map Fin (sort rs)"
proof -
  have insert: "sort_insert (RELATIONAL_CMP cs) (JNum (Fin r)) (map (\<lambda>r. JNum (Fin r)) xs)
      = map (\<lambda>r. JNum (Fin r)) (insort r xs)" for r xs
    by (induction xs) (auto simp: RELATIONAL_CMP.simps typeweight_simps)
  have "js_sort (RELATIONAL_CMP cs) (map (\<lambda>r. JNum (Fin r)) rs) = map (\<lambda>r. JNum (Fin r)) (sort rs)"
    by (induction rs) (simp_all add: js_sort_def insert)
  then show ?thesis by simp
qed

lemma sort_numbers_Fin: "sort_numbers cs (map Fin rs) = map Fin (sort rs)"
  using js_sort_numbers [of cs rs] by (simp add: sort_numbers_def comp_def)

lemma numbers_Fin: "numbers (map (\<lambda>r. JNum (Fin r)) rs) = Some (map Fin rs)"
  by (induction rs) (auto simp: typeweight_simps)

lemma num_at_Fin: "0 \<le> i \<Longrightarrow> i < int (length rs) \<Longrightarrow> num_at (map Fin rs) i = Fin (rs ! nat i)"
  by (simp add: num_at_def)

text \<open>
  C10: \<open>MEDIAN\<close> of an odd number of numbers is the middle one in sorted order, of an even number the
  rounded half of the rounded sum of the two middle ones, and it does not depend on the order of
  the list.
\<close>

theorem median_spec:
  fixes rs :: "rat list"
  assumes "rs \<noteq> []"
  shows "AQL_MEDIAN cs (JArr (map (\<lambda>r. JNum (Fin r)) rs)) = quiet
      (if odd (length rs) then JNum (Fin (sort rs ! (length rs div 2)))
       else NUMERIC_VALUE (num_div (round_double (sort rs ! (length rs div 2 - 1) + sort rs ! (length rs div 2))) (Fin 2)))
    \<and> (mset rs = mset rs' \<longrightarrow> AQL_MEDIAN cs (JArr (map (\<lambda>r. JNum (Fin r)) rs'))
          = AQL_MEDIAN cs (JArr (map (\<lambda>r. JNum (Fin r)) rs)))"
proof -
  have mid: "length rs div 2 < length rs" "even (length rs) \<Longrightarrow> 0 < length rs div 2"
    using assms by (cases rs; auto)+
  have perm: "mset rs = mset rs' \<Longrightarrow> sort rs' = sort rs \<and> length rs' = length rs"
    by (metis mset_sort properties_for_sort size_mset sorted_sort)
  have pred: "nat (int (length rs div 2) - 1) = length rs div 2 - 1" by linarith
  have median: "AQL_MEDIAN cs (JArr (map (\<lambda>r. JNum (Fin r)) ts)) = quiet
      (if odd (length rs) then JNum (Fin (sort rs ! (length rs div 2)))
       else NUMERIC_VALUE (num_div (round_double (sort rs ! (length rs div 2 - 1) + sort rs ! (length rs div 2))) (Fin 2)))"
    if "sort ts = sort rs" "length ts = length rs" for ts
    using assms mid that
    by (simp add: AQL_MEDIAN_def numbers_Fin sort_numbers_Fin num_at_Fin pred Let_def NUMERIC_VALUE_def [of "Fin _"]
        flip: even_iff_mod_2_eq_zero)
  show ?thesis using median [of rs] median [of rs'] perm by auto
qed

theorem median_spec_witness:
  "AQL_MEDIAN code_unit_cmp (JArr (map (\<lambda>r. JNum (Fin r)) [3, 1, 2])) = quiet (JNum (Fin 2))"
  using median_spec [of "[3, 1, 2]"] by simp

text \<open>
  The percentile by rank at an integer percentage is the value at the nearest rank in sorted
  order, the smallest value such that at least that share of the values is not greater; the
  rounding of the division by \<open>100\<close> never moves the rank.
\<close>

theorem percentile_nearest_rank:
  fixes rs :: "rat list" and p :: int
  assumes "1 \<le> p" "p \<le> 100" "2 \<le> length rs" "100 * int (length rs) < 2 ^ 46"
  shows "AQL_PERCENTILE cs (JArr (map (\<lambda>r. JNum (Fin r)) rs)) (jint p) JNull
    = quiet (JNum (Fin (sort rs ! nat (\<lceil>of_int (p * int (length rs)) / 100 :: rat\<rceil> - 1))))"
proof -
  define n where "n = int (length rs)"
  define k where "k = p * n"
  define c where "c = \<lceil>of_int k / 100 :: rat\<rceil>"
  have n: "2 \<le> n" "100 * n < 2 ^ 46" using assms by (simp_all add: n_def)
  have k: "0 < k" "k \<le> 100 * n" using assms n by (simp_all add: k_def mult_right_mono)
  have "of_int k / 100 \<le> (of_int n :: rat)" using k(2) by (simp add: field_simps)
  then have c: "1 \<le> c" "c \<le> n" using k(1) by (auto simp: c_def ceiling_le_iff intro: le_ceiling_iff [THEN iffD2])
  have mul: "num_mul (Fin (of_int p)) (Fin (of_nat (length rs))) = Fin (of_int k)"
    using round_double_of_int [of k] k n by (simp add: k_def n_def)
  have ceil: "math_ceil (num_div (Fin (of_int k)) (Fin 100)) = Fin (of_int c)"
    using ceil_hundredth [of k] k n by (simp add: c_def)
  have len: "(of_nat (length rs) :: rat) \<le> of_int c \<longleftrightarrow> n \<le> c"
    using of_int_le_iff [of n c, where ?'a = rat] by (simp add: n_def)
  have "percentile_rank (map Fin (sort rs)) (Fin (of_int p)) = JNum (Fin (sort rs ! nat (c - 1)))"
    using c n mul ceil len
    by (auto simp: percentile_rank_def num_at_Fin NUMERIC_VALUE_def n_def Let_def)
  moreover have "AQL_PERCENTILE cs (JArr (map (\<lambda>r. JNum (Fin r)) rs)) (jint p) JNull
      = quiet (percentile_rank (map Fin (sort rs)) (Fin (of_int p)))"
    using assms numbers_Fin [of rs] sort_numbers_Fin [of cs rs]
    by (cases rs) (auto simp: AQL_PERCENTILE_def jnat_def Let_def)
  ultimately show ?thesis by (simp add: c_def k_def n_def)
qed

theorem percentile_nearest_rank_witness:
  "AQL_PERCENTILE code_unit_cmp (JArr (map (\<lambda>r. JNum (Fin r)) [3, 1, 2])) (jint 34) JNull = quiet (JNum (Fin 2))"
proof -
  have "\<lceil>51 / 50 :: rat\<rceil> = 2" by (simp add: ceiling_eq_iff)
  then show ?thesis using percentile_nearest_rank [of 34 "[3, 1, 2]"] by simp
qed

end
