(* ===== verification/AQL_Documents.thy ===== *)
theory AQL_Documents
  imports AQL_Lists
begin

text \<open>
  The document and control flow functions of \<open>aql.js\<close>, from \<open>AQL_NOT_NULL\<close> to \<open>AQL_FAIL\<close>, with the
  helper \<open>FILTER\<close>. A function that may throw after it registered warnings returns the warnings with
  a sum.
\<close>

definition first_that :: "(jsval \<Rightarrow> bool) \<Rightarrow> jsval list \<Rightarrow> jsval" where
  "first_that P arguments = (case List.find P arguments of Some v \<Rightarrow> v | None \<Rightarrow> JNull)"

definition AQL_NOT_NULL :: "jsval list \<Rightarrow> jsval" where
  "AQL_NOT_NULL arguments = first_that (\<lambda>v. TYPEWEIGHT v \<noteq> TYPEWEIGHT_NULL) arguments"

definition AQL_FIRST_LIST :: "jsval list \<Rightarrow> jsval" where
  "AQL_FIRST_LIST arguments = first_that (\<lambda>v. TYPEWEIGHT v = TYPEWEIGHT_ARRAY) arguments"

definition AQL_FIRST_DOCUMENT :: "jsval list \<Rightarrow> jsval" where
  "AQL_FIRST_DOCUMENT arguments = first_that (\<lambda>v. TYPEWEIGHT v = TYPEWEIGHT_OBJECT) arguments"

fun AQL_PARSE_IDENTIFIER :: "jsval \<Rightarrow> jsval warned" where
  "AQL_PARSE_IDENTIFIER (JStr value) = (case split_char CHR ''/'' value of
      [collection, key] \<Rightarrow> quiet (JObj [(''collection'', JStr collection), (''key'', JStr key)])
    | _ \<Rightarrow> mismatch ''PARSE_IDENTIFIER'' JNull)"
| "AQL_PARSE_IDENTIFIER (JObj ob) =
     (if obj_has ob ''_id'' then AQL_PARSE_IDENTIFIER (obj_get ob ''_id'')
      else mismatch ''PARSE_IDENTIFIER'' JNull)"
| "AQL_PARSE_IDENTIFIER value = mismatch ''PARSE_IDENTIFIER'' JNull"

definition AQL_HAS :: "jsval \<Rightarrow> jsval \<Rightarrow> bool" where
  "AQL_HAS element name = (case element of JObj ob \<Rightarrow> obj_has ob (AQL_TO_STRING name) | _ \<Rightarrow> False)"

text \<open>An internal attribute is one whose name starts with an underscore.\<close>

definition internal_name :: "string \<Rightarrow> bool" where
  "internal_name k \<longleftrightarrow> (case k of c # _ \<Rightarrow> c = CHR ''_'' | [] \<Rightarrow> False)"

definition AQL_ATTRIBUTES :: "jsval \<Rightarrow> jsval \<Rightarrow> jsval \<Rightarrow> jsval warned" where
  "AQL_ATTRIBUTES element removeInternal doSort = (case element of
      JObj ob \<Rightarrow>
        (let keys = (if js_truthy removeInternal then filter (\<lambda>k. \<not> internal_name k) (object_keys ob)
                     else object_keys ob)
         in quiet (JArr (map JStr (if js_truthy doSort then sort keys else keys))))
    | _ \<Rightarrow> mismatch ''ATTRIBUTES'' JNull)"

definition AQL_VALUES :: "jsval \<Rightarrow> jsval \<Rightarrow> jsval warned" where
  "AQL_VALUES element removeInternal = (case element of
      JObj ob \<Rightarrow> quiet (JArr (map (obj_get ob)
        (filter (\<lambda>a. \<not> internal_name a \<or> \<not> js_truthy removeInternal) (object_keys ob))))
    | _ \<Rightarrow> mismatch ''VALUES'' JNull)"

definition zip_objects :: "jsval list \<Rightarrow> jsval list \<Rightarrow> jsobj" where
  "zip_objects keys values = foldl (\<lambda>result (k, v). obj_put (AQL_TO_STRING k) v result) [] (zip keys values)"

definition AQL_ZIP :: "jsval \<Rightarrow> jsval \<Rightarrow> jsval warned" where
  "AQL_ZIP keys values = (case (keys, values) of
      (JArr ks, JArr vs) \<Rightarrow> (if length ks = length vs then quiet (JObj (zip_objects ks vs)) else mismatch ''ZIP'' JNull)
    | _ \<Rightarrow> mismatch ''ZIP'' JNull)"

text \<open>
  \<open>UNSET\<close> and \<open>KEEP\<close> take the document and the argument list behind it. When \<open>EXTRACT_KEYS\<close> gives up
  and returns \<open>null\<close>, the code goes on to index \<open>null\<close>: a \<open>TypeError\<close>, in \<open>UNSET\<close> only if the document
  has an attribute.
\<close>

definition AQL_UNSET :: "jsval \<Rightarrow> jsval list \<Rightarrow> (js_exc + jsval) warned" where
  "AQL_UNSET value rest = (case value of
      JObj ob \<Rightarrow> (case EXTRACT_KEYS (value # rest) 1 ''UNSET'' of
          (None, ws) \<Rightarrow> (if ob = [] then Inr (JObj []) else Inl TypeError, ws)
        | (Some keys, ws) \<Rightarrow> (Inr (JObj (map (\<lambda>k. (k, CLONE (obj_get ob k)))
            (filter (\<lambda>k. obj_get keys k \<noteq> JBool True) (object_keys ob)))), ws))
    | _ \<Rightarrow> mismatch ''UNSET'' (Inr JNull))"

definition AQL_KEEP :: "jsval \<Rightarrow> jsval list \<Rightarrow> (js_exc + jsval) warned" where
  "AQL_KEEP value rest = (case value of
      JObj ob \<Rightarrow> (case EXTRACT_KEYS (value # rest) 1 ''KEEP'' of
          (None, ws) \<Rightarrow> (Inl TypeError, ws)
        | (Some keys, ws) \<Rightarrow> (Inr (JObj (map (\<lambda>k. (k, CLONE (obj_get ob k)))
            (filter (obj_has ob) (object_keys keys)))), ws))
    | _ \<Rightarrow> mismatch ''KEEP'' (Inr JNull))"

definition merge_add :: "jsobj \<Rightarrow> jsobj \<Rightarrow> jsobj" where
  "merge_add result element = foldl (\<lambda>r k. obj_put k (obj_get element k) r) result (object_keys element)"

fun merge_loop :: "jsobj \<Rightarrow> jsval list \<Rightarrow> jsval warned" where
  "merge_loop result [] = quiet (JObj result)"
| "merge_loop result (element # rest) = (case element of
      JObj ob \<Rightarrow> merge_loop (merge_add result ob) rest
    | _ \<Rightarrow> mismatch ''MERGE'' JNull)"

definition AQL_MERGE :: "jsval list \<Rightarrow> jsval warned" where
  "AQL_MERGE arguments = merge_loop [] arguments"

text \<open>
  \<open>MERGE_RECURSIVE\<close> descends where the attribute exists already and the new value is a document. An
  old value that is no document is taken for one: on \<open>null\<close> that is a \<open>TypeError\<close>, as is assigning a
  property of a number, boolean or string in strict mode. A list or function as the old value,
  which would become a list or function with extra properties, is outside the model (\<open>None\<close>).
\<close>

fun value_depth :: "jsval \<Rightarrow> nat" where
  "value_depth (JArr xs) = Suc (fold max (map value_depth xs) 0)"
| "value_depth (JObj ob) = Suc (fold max (map (\<lambda>(k, v). value_depth v) ob) 0)"
| "value_depth _ = 0"

definition entries_depth :: "jsobj \<Rightarrow> nat" where
  "entries_depth ob = fold max (map (\<lambda>(k, v). value_depth v) ob) 0"

lemma fold_max_le: "fold max xs a \<le> (b :: nat) \<longleftrightarrow> a \<le> b \<and> (\<forall>x \<in> set xs. x \<le> b)"
  by (induction xs arbitrary: a) auto

lemma entries_depth_le: "entries_depth ob \<le> n \<longleftrightarrow> (\<forall>(k, v) \<in> set ob. value_depth v \<le> n)"
  by (auto simp: entries_depth_def fold_max_le)

lemma entries_depth_member: "(k, v) \<in> set ob \<Longrightarrow> value_depth v \<le> entries_depth ob"
  using entries_depth_le [of ob "entries_depth ob"] by auto

lemma value_depth_get: "value_depth (obj_get ob k) \<le> entries_depth ob"
  by (auto simp: obj_get_def dest: map_of_SomeD entries_depth_member split: option.splits)

lemma entries_depth_entries: "entries_depth (object_entries ob) \<le> entries_depth ob"
  by (auto simp: entries_depth_le object_entries_def value_depth_get)

lemma entries_depth_obj: "value_depth (JObj ob) = Suc (entries_depth ob)"
  by (simp add: entries_depth_def)

lemma fold_max_init: "fold max xs (max a b) = max a (fold max xs (b :: nat))"
proof (induction xs arbitrary: b)
  case (Cons x xs)
  show ?case using Cons [of "max x b"] by (simp add: max.left_commute [of x a b])
qed simp

lemma entries_depth_Cons: "entries_depth ((k, v) # ob) = max (value_depth v) (entries_depth ob)"
  using fold_max_init [of "map (\<lambda>(k, v). value_depth v) ob" "value_depth v" 0] by (simp add: entries_depth_def)

lemma length_object_entries: "length (object_entries ob) = length ob"
  by (simp add: object_entries_def)

function merge_recurse :: "jsval \<Rightarrow> jsobj \<Rightarrow> (js_exc + jsval) option"
  and merge_entries :: "jsobj \<Rightarrow> jsobj \<Rightarrow> (js_exc + jsval) option" where
  "merge_recurse old element = (case CLONE old of
      JObj r \<Rightarrow> merge_entries r (object_entries element)
    | JArr xs \<Rightarrow> (if element = [] then Some (Inr (JArr xs)) else None)
    | JFun s \<Rightarrow> (if element = [] then Some (Inr (JFun s)) else None)
    | r \<Rightarrow> Some (if element = [] then Inr r else Inl TypeError))"
| "merge_entries r [] = Some (Inr (JObj r))"
| "merge_entries r ((k, v) # rest) = (case v of
      JObj e \<Rightarrow>
        (if obj_has r k
         then case merge_recurse (obj_get r k) e of
             Some (Inr v') \<Rightarrow> merge_entries (obj_put k v' r) rest
           | failed \<Rightarrow> failed
         else merge_entries (obj_put k v r) rest)
    | _ \<Rightarrow> merge_entries (obj_put k v r) rest)"
  by pat_completeness auto
termination
  by (relation "inv_image (less_than <*lex*> less_than)
      (case_sum (\<lambda>(old, e). (entries_depth e, Suc (length e))) (\<lambda>(r, e). (entries_depth e, length e)))")
    (use entries_depth_entries in \<open>auto simp: entries_depth_Cons entries_depth_obj less_max_iff_disj
      le_less length_object_entries simp del: value_depth.simps(2)\<close>)

fun merge_recursive_loop :: "jsval \<Rightarrow> jsval list \<Rightarrow> (js_exc + jsval) warned option" where
  "merge_recursive_loop result [] = Some (quiet (Inr result))"
| "merge_recursive_loop result (element # rest) = (case element of
      JObj ob \<Rightarrow> (case merge_recurse result ob of
          None \<Rightarrow> None
        | Some (Inl e) \<Rightarrow> Some (quiet (Inl e))
        | Some (Inr r) \<Rightarrow> merge_recursive_loop r rest)
    | _ \<Rightarrow> Some (mismatch ''MERGE_RECURSIVE'' (Inr JNull)))"

definition AQL_MERGE_RECURSIVE :: "jsval list \<Rightarrow> (js_exc + jsval) warned option" where
  "AQL_MERGE_RECURSIVE arguments = merge_recursive_loop (JObj []) arguments"

definition AQL_TRANSLATE :: "jsval \<Rightarrow> jsval \<Rightarrow> jsval \<Rightarrow> jsval warned" where
  "AQL_TRANSLATE value lookup defaultValue = (case lookup of
      JObj ob \<Rightarrow> (let key = AQL_TO_STRING value in quiet
          (if obj_has ob key then obj_get ob key
           else if defaultValue = JUndef then value else defaultValue))
    | _ \<Rightarrow> mismatch ''TRANSLATE'' JNull)"

definition matches_example :: "(string \<Rightarrow> string \<Rightarrow> int) \<Rightarrow> jsobj \<Rightarrow> jsobj \<Rightarrow> bool" where
  "matches_example cs element example \<longleftrightarrow>
     list_all (\<lambda>key. RELATIONAL_EQUAL cs (obj_get element key) (obj_get example key)) (object_keys example)"

fun matches_loop :: "(string \<Rightarrow> string \<Rightarrow> int) \<Rightarrow> jsobj \<Rightarrow> nat \<Rightarrow> jsval list \<Rightarrow> nat option warned" where
  "matches_loop cs element i [] = quiet None"
| "matches_loop cs element i (example # rest) = (case example of
      JObj ex \<Rightarrow> (if matches_example cs element ex then quiet (Some i) else matches_loop cs element (Suc i) rest)
    | _ \<Rightarrow> (let (r, ws) = matches_loop cs element (Suc i) rest
           in (r, WARN (Some ''MATCHES'') ERROR_QUERY_FUNCTION_ARGUMENT_TYPE_MISMATCH None # ws)))"

definition AQL_MATCHES :: "(string \<Rightarrow> string \<Rightarrow> int) \<Rightarrow> jsval \<Rightarrow> jsval \<Rightarrow> jsval \<Rightarrow> jsval warned" where
  "AQL_MATCHES cs element examples returnIndex = (case element of
      JObj ob \<Rightarrow>
        (let exs = (case examples of JArr xs \<Rightarrow> xs | _ \<Rightarrow> [examples])
         in if exs = [] then mismatch ''MATCHES'' (JBool False)
            else let (r, ws) = matches_loop cs ob 0 exs
                 in (case r of
                       Some i \<Rightarrow> if js_truthy returnIndex then jnat i else JBool True
                     | None \<Rightarrow> if js_truthy returnIndex then JNum (Fin (- 1)) else JBool False, ws))
    | _ \<Rightarrow> quiet (JBool False))"

fun filter_loop :: "(string \<Rightarrow> string \<Rightarrow> int) \<Rightarrow> jsval \<Rightarrow> jsval list \<Rightarrow> jsval list warned" where
  "filter_loop cs examples [] = quiet []"
| "filter_loop cs examples (element # rest) =
     (let (m, ws) = AQL_MATCHES cs element examples (JBool False);
          (r, ws') = filter_loop cs examples rest
      in (if js_truthy m then element # r else r, ws @ ws'))"

definition FILTER :: "(string \<Rightarrow> string \<Rightarrow> int) \<Rightarrow> jsval list \<Rightarrow> jsval \<Rightarrow> jsval list warned" where
  "FILTER cs list examples =
     (if examples = JUndef \<or> examples = JNull \<or> examples = JArr [] then quiet list
      else filter_loop cs examples list)"

definition AQL_PASSTHRU :: "jsval \<Rightarrow> jsval" where
  "AQL_PASSTHRU value = value"

definition AQL_FAIL :: "jsval \<Rightarrow> js_exc" where
  "AQL_FAIL message = THROW (Some ''FAIL'') ERROR_QUERY_FAIL_CALLED
     (Some (case message of JStr s \<Rightarrow> s | _ \<Rightarrow> []))"

subsection \<open>Merging\<close>

lemma merge_add_lookup:
  "obj_get (merge_add r e) k = (if obj_has e k then obj_get e k else obj_get r k)
   \<and> (obj_has (merge_add r e) k \<longleftrightarrow> obj_has e k \<or> obj_has r k)"
proof -
  have "obj_get (foldl (\<lambda>r k. obj_put k (f k) r) r ks) k = (if k \<in> set ks then f k else obj_get r k)
      \<and> (obj_has (foldl (\<lambda>r k. obj_put k (f k) r) r ks) k \<longleftrightarrow> k \<in> set ks \<or> obj_has r k)" for f ks
    by (induction ks arbitrary: r) auto
  then show ?thesis by (simp add: merge_add_def)
qed

text \<open>The reference: a lookup in a list of documents that asks the last one first.\<close>

fun last_get :: "jsobj list \<Rightarrow> string \<Rightarrow> jsval option" where
  "last_get [] k = None"
| "last_get (ob # obs) k = (case last_get obs k of
      Some v \<Rightarrow> Some v
    | None \<Rightarrow> if obj_has ob k then Some (obj_get ob k) else None)"

lemma merge_loop_lookup:
  "\<exists>r'. merge_loop r (map JObj obs) = quiet (JObj r')
     \<and> (\<forall>k. obj_get r' k = (case last_get obs k of Some v \<Rightarrow> v | None \<Rightarrow> obj_get r k)
          \<and> (obj_has r' k \<longleftrightarrow> last_get obs k \<noteq> None \<or> obj_has r k))"
proof (induction obs arbitrary: r)
  case (Cons ob obs)
  obtain r' where "merge_loop (merge_add r ob) (map JObj obs) = quiet (JObj r')"
    "\<forall>k. obj_get r' k = (case last_get obs k of Some v \<Rightarrow> v | None \<Rightarrow> obj_get (merge_add r ob) k)
      \<and> (obj_has r' k \<longleftrightarrow> last_get obs k \<noteq> None \<or> obj_has (merge_add r ob) k)"
    using Cons [of "merge_add r ob"] by blast
  then show ?case by (auto simp: merge_add_lookup split: option.splits)
qed simp

text \<open>
  C11: \<open>MERGE\<close> returns a document with exactly the attributes of all its arguments, each with the
  value of the last argument that has it.
\<close>

theorem merge_last_wins:
  "\<exists>r. AQL_MERGE (map JObj obs) = quiet (JObj r)
     \<and> (\<forall>k. (obj_has r k \<longleftrightarrow> last_get obs k \<noteq> None)
          \<and> obj_get r k = (case last_get obs k of Some v \<Rightarrow> v | None \<Rightarrow> JUndef))"
  using merge_loop_lookup [of "[]" obs] unfolding AQL_MERGE_def obj_empty by auto

text \<open>A document that holds no documents as attribute values.\<close>

definition flat :: "jsobj \<Rightarrow> bool" where
  "flat ob \<longleftrightarrow> (\<forall>(k, v) \<in> set ob. TYPEWEIGHT v \<noteq> TYPEWEIGHT_OBJECT)"

lemma flat_entries: "flat ob \<Longrightarrow> flat (object_entries ob)"
proof -
  assume "flat ob"
  then have "TYPEWEIGHT (obj_get ob k) \<noteq> TYPEWEIGHT_OBJECT" for k
    by (auto simp: flat_def obj_get_def dest: map_of_SomeD split: option.splits)
  then show ?thesis by (auto simp: flat_def object_entries_def)
qed

lemma merge_entries_flat:
  "flat es \<Longrightarrow> merge_entries r es = Some (Inr (JObj (foldl (\<lambda>r (k, v). obj_put k v r) r es)))"
  by (induction es arbitrary: r) (auto simp: flat_def split: jsval.splits)

lemma foldl_entries: "foldl (\<lambda>r (k, v). obj_put k v r) r (object_entries ob) = merge_add r ob"
proof -
  have "foldl (\<lambda>r (k, v). obj_put k v r) r (map (\<lambda>k. (k, f k)) ks) = foldl (\<lambda>r k. obj_put k (f k) r) r ks" for f ks
    by (induction ks arbitrary: r) auto
  then show ?thesis by (simp add: object_entries_def merge_add_def)
qed

subsection \<open>Keeping, removing, assembling\<close>

lemma extract_loop_strings:
  "\<exists>keys'. extract_loop func keys (map JStr ns) = quiet (Some keys')
     \<and> (\<forall>k. obj_has keys' k \<longleftrightarrow> k \<in> set ns \<or> obj_has keys k)
     \<and> (\<forall>k. obj_get keys' k = (if k \<in> set ns then JBool True else obj_get keys k))"
proof (induction ns arbitrary: keys)
  case (Cons n ns)
  obtain keys' where "extract_loop func (obj_put n (JBool True) keys) (map JStr ns) = quiet (Some keys')"
    "\<forall>k. obj_has keys' k \<longleftrightarrow> k \<in> set ns \<or> obj_has (obj_put n (JBool True) keys) k"
    "\<forall>k. obj_get keys' k = (if k \<in> set ns then JBool True else obj_get (obj_put n (JBool True) keys) k)"
    using Cons [of "obj_put n (JBool True) keys"] by blast
  then show ?case by auto
qed simp

lemma extract_nested_mismatch:
  "\<not> list_all (\<lambda>v. TYPEWEIGHT v = TYPEWEIGHT_STRING) xs \<Longrightarrow> extract_nested func keys xs = mismatch func None"
  by (induction xs arbitrary: keys) (auto simp: TYPEWEIGHT_iff split: jsval.splits)

lemma obj_get_map_keys:
  "obj_get (map (\<lambda>k. (k, f k)) ks) k = (if k \<in> set ks then f k else JUndef)"
  "obj_has (map (\<lambda>k. (k, f k)) ks) k \<longleftrightarrow> k \<in> set ks"
  by (simp_all add: obj_get_def obj_has_def map_of_map_Pair)

text \<open>
  C12: \<open>KEEP\<close> and \<open>UNSET\<close> with the same attribute names split a document: the one has exactly the named
  attributes, the other exactly the rest, and both have copies of the values.
\<close>

theorem keep_unset_partition:
  "\<exists>kept left. AQL_KEEP (JObj ob) (map JStr ns) = quiet (Inr (JObj kept))
     \<and> AQL_UNSET (JObj ob) (map JStr ns) = quiet (Inr (JObj left))
     \<and> (\<forall>k. (obj_has kept k \<longleftrightarrow> obj_has ob k \<and> k \<in> set ns)
          \<and> (obj_has left k \<longleftrightarrow> obj_has ob k \<and> k \<notin> set ns)
          \<and> obj_get kept k = (if obj_has ob k \<and> k \<in> set ns then CLONE (obj_get ob k) else JUndef)
          \<and> obj_get left k = (if obj_has ob k \<and> k \<notin> set ns then CLONE (obj_get ob k) else JUndef))"
proof -
  obtain keys where "extract_loop ''KEEP'' [] (map JStr ns) = quiet (Some keys)"
    "\<forall>k. obj_has keys k \<longleftrightarrow> k \<in> set ns"
    using extract_loop_strings [of "''KEEP''" "[]" ns] by auto
  moreover obtain keys' where "extract_loop ''UNSET'' [] (map JStr ns) = quiet (Some keys')"
    "\<forall>k. obj_get keys' k = (if k \<in> set ns then JBool True else JUndef)"
    using extract_loop_strings [of "''UNSET''" "[]" ns] by auto
  ultimately show ?thesis
    by (auto simp: AQL_KEEP_def AQL_UNSET_def EXTRACT_KEYS_def obj_get_map_keys)
qed

text \<open>
  A nested list with anything but strings among the attribute names of \<open>KEEP\<close> or \<open>UNSET\<close> raises a
  \<open>TypeError\<close> after the warning about the argument: the code indexes the \<open>null\<close> it got.
\<close>

theorem keep_unset_nested_throws:
  assumes "\<not> list_all (\<lambda>v. TYPEWEIGHT v = TYPEWEIGHT_STRING) xs" "ob \<noteq> []"
  shows "AQL_KEEP (JObj ob) (JArr xs # rest) = mismatch ''KEEP'' (Inl TypeError)
    \<and> AQL_UNSET (JObj ob) (JArr xs # rest) = mismatch ''UNSET'' (Inl TypeError)"
  using assms
  by (simp add: AQL_KEEP_def AQL_UNSET_def EXTRACT_KEYS_def extract_nested_mismatch) (simp add: mismatch_def)

theorem keep_unset_nested_throws_witness:
  "AQL_KEEP (JObj [(''a'', JNull)]) [JArr [JNull]] = mismatch ''KEEP'' (Inl TypeError)
   \<and> AQL_UNSET (JObj [(''a'', JNull)]) [JArr [JNull]] = mismatch ''UNSET'' (Inl TypeError)"
  using keep_unset_nested_throws [of "[JNull]" "[(''a'', JNull)]" "[]"] by (simp add: typeweight_simps)

lemma foldl_obj_put_distinct:
  assumes "distinct (map fst r @ ks)"
  shows "foldl (\<lambda>r (k, v). obj_put (AQL_TO_STRING k) v r) r (map (\<lambda>k. (JStr k, f k)) ks) = r @ map (\<lambda>k. (k, f k)) ks"
proof -
  have put: "k \<notin> fst ` set r \<Longrightarrow> obj_put k v r = r @ [(k, v)]" for k v r
    unfolding obj_put_def by (induction r) auto
  show ?thesis using assms by (induction ks arbitrary: r) (auto simp: put)
qed

text \<open>
  \<open>ZIP\<close> assembles a document again from its \<open>ATTRIBUTES\<close> and \<open>VALUES\<close>: the same attributes in
  enumeration order with the same values.
\<close>

theorem zip_attributes_values:
  assumes "distinct (map fst ob)"
  shows "AQL_ZIP (fst (AQL_ATTRIBUTES (JObj ob) JUndef JUndef)) (fst (AQL_VALUES (JObj ob) JUndef))
    = quiet (JObj (object_entries ob))"
proof -
  have "zip (map JStr ks) (map f ks) = map (\<lambda>k. (JStr k, f k)) ks" for f :: "string \<Rightarrow> jsval" and ks
    by (induction ks) auto
  then show ?thesis
    using foldl_obj_put_distinct [of "[]" "object_keys ob" "obj_get ob"] distinct_object_keys [OF assms]
    by (simp add: AQL_ZIP_def AQL_ATTRIBUTES_def AQL_VALUES_def zip_objects_def object_entries_def)
qed

theorem zip_attributes_values_witness:
  "AQL_ZIP (fst (AQL_ATTRIBUTES (JObj [(''b'', JNull), (''7'', JBool True)]) JUndef JUndef))
       (fst (AQL_VALUES (JObj [(''b'', JNull), (''7'', JBool True)]) JUndef))
     = quiet (JObj (object_entries [(''b'', JNull), (''7'', JBool True)]))"
  by (rule zip_attributes_values) simp

text \<open>
  \<open>PARSE_IDENTIFIER\<close> accepts a string exactly if it is a collection name and a key joined by the
  only slash in it, returns the two parts, and treats a document as its \<open>_id\<close>.
\<close>

theorem parse_identifier_round_trip:
  "(AQL_PARSE_IDENTIFIER (JStr s) = quiet (JObj [(''collection'', JStr c), (''key'', JStr k)])
      \<longleftrightarrow> s = c @ ''/'' @ k \<and> CHR ''/'' \<notin> set c \<and> CHR ''/'' \<notin> set k)
   \<and> AQL_PARSE_IDENTIFIER (JObj [(''_id'', JStr s)]) = AQL_PARSE_IDENTIFIER (JStr s)"
  by (auto simp: mismatch_def split_char_two [symmetric] split: list.splits)

subsection \<open>Recursive merging and examples\<close>

text \<open>The value \<open>w\<close> that an attribute \<open>k\<close> has after a value \<open>v\<close> was merged into the document \<open>r\<close>.\<close>

definition merged_value :: "jsobj \<Rightarrow> string \<Rightarrow> jsval \<Rightarrow> jsval \<Rightarrow> bool" where
  "merged_value r k v w \<longleftrightarrow> (case v of
      JObj e \<Rightarrow> if obj_has r k then merge_recurse (obj_get r k) e = Some (Inr w) else w = v
    | _ \<Rightarrow> w = v)"

lemma merged_value_cong:
  "obj_get r k = obj_get r' k \<Longrightarrow> obj_has r k = obj_has r' k \<Longrightarrow> merged_value r k v w = merged_value r' k v w"
  by (simp add: merged_value_def split: jsval.split)

lemma merge_entries_Cons:
  assumes "merge_entries r ((k, v) # es) = Some (Inr x)"
  obtains w where "merged_value r k v w" "merge_entries (obj_put k w r) es = Some (Inr x)"
  using assms that by (auto simp: merged_value_def split: jsval.splits if_splits option.splits sum.splits)

lemma merge_entries_lookup:
  assumes "merge_entries r es = Some (Inr (JObj r'))" "distinct (map fst es)"
  shows "(k \<notin> fst ` set es \<longrightarrow> obj_get r' k = obj_get r k \<and> (obj_has r' k \<longleftrightarrow> obj_has r k))
    \<and> ((k, v) \<in> set es \<longrightarrow> obj_has r' k \<and> merged_value r k v (obj_get r' k))"
  using assms
proof (induction es arbitrary: r)
  case (Cons kv es)
  obtain k0 v0 where kv: "kv = (k0, v0)" by fastforce
  obtain w where w: "merged_value r k0 v0 w" "merge_entries (obj_put k0 w r) es = Some (Inr (JObj r'))"
    using Cons.prems(1) unfolding kv by (rule merge_entries_Cons)
  have new: "k0 \<notin> fst ` set es" using Cons.prems(2) by (simp add: kv)
  have IH: "(k \<notin> fst ` set es \<longrightarrow> obj_get r' k = obj_get (obj_put k0 w r) k \<and> (obj_has r' k \<longleftrightarrow> obj_has (obj_put k0 w r) k))
    \<and> ((k, v) \<in> set es \<longrightarrow> obj_has r' k \<and> merged_value (obj_put k0 w r) k v (obj_get r' k))"
    using Cons.IH [OF w(2)] Cons.prems(2) by simp
  show ?case
  proof (cases "k = k0")
    case True
    then have "(k, v) \<notin> set es" using new by force
    then show ?thesis using True IH w(1) new by (simp add: kv)
  next
    case False
    then have "merged_value (obj_put k0 w r) k v (obj_get r' k) = merged_value r k v (obj_get r' k)"
      by (intro merged_value_cong) simp_all
    then show ?thesis using False IH by (simp add: kv)
  qed
qed simp

lemma merged_value_CLONE:
  "merged_value (map (\<lambda>(k, v). (k, CLONE v)) (object_entries a)) k v w \<longleftrightarrow>
     (case v of JObj e \<Rightarrow> if obj_has a k then merge_recurse (CLONE (obj_get a k)) e = Some (Inr w) else w = v
      | _ \<Rightarrow> w = v)"
proof -
  have "obj_has (map (\<lambda>(k, v). (k, CLONE v)) (object_entries a)) k \<longleftrightarrow> obj_has a k"
    by (simp only: obj_has_iff [of "map _ _"] CLONE_keys mem_Collect_eq)
  then show ?thesis by (simp only: merged_value_def obj_get_CLONE)
qed

text \<open>
  What \<open>MERGE_RECURSIVE\<close> makes of two documents: attributes of the first alone are copied, an
  attribute of the second wins, and where both have it and the second has a document there, the
  value is the recursive merge of the two.
\<close>

theorem merge_recursive_two:
  assumes "distinct (map fst b)" "merge_recurse (JObj a) b = Some (Inr (JObj r))"
  shows "(obj_has r k \<longleftrightarrow> obj_has a k \<or> obj_has b k)
    \<and> (\<not> obj_has b k \<longrightarrow> obj_get r k = CLONE (obj_get a k))
    \<and> (obj_has b k \<longrightarrow> (case obj_get b k of
         JObj e \<Rightarrow> if obj_has a k then merge_recurse (CLONE (obj_get a k)) e = Some (Inr (obj_get r k))
                   else obj_get r k = obj_get b k
       | _ \<Rightarrow> obj_get r k = obj_get b k))"
proof -
  let ?a = "map (\<lambda>(k, v). (k, CLONE v)) (object_entries a)"
  have has: "obj_has ?a k \<longleftrightarrow> obj_has a k" by (simp only: obj_has_iff [of ?a] CLONE_keys mem_Collect_eq)
  have m: "merge_entries ?a (object_entries b) = Some (Inr (JObj r))" using assms(2) by simp
  have d: "distinct (map fst (object_entries b))" using distinct_object_keys [OF assms(1)] by simp
  have keys: "fst ` set (object_entries b) = {k. obj_has b k}" by (force simp: object_entries_def)
  have mem: "obj_has b k \<Longrightarrow> (k, obj_get b k) \<in> set (object_entries b)"
    by (simp add: object_entries_def image_iff)
  note l = merge_entries_lookup [OF m d, of k "obj_get b k", unfolded keys merged_value_CLONE has obj_get_CLONE]
  show ?thesis
  proof (cases "obj_has b k")
    case True
    then show ?thesis using l mem by simp
  next
    case False
    then show ?thesis using l by simp
  qed
qed

theorem merge_recursive_two_witness:
  "merge_recurse (CLONE (JObj [(''x'', JNull)])) [(''y'', JBool True)] = Some (Inr (JObj [(''x'', JNull), (''y'', JBool True)]))"
proof -
  have "merge_recurse (JObj [(''a'', JObj [(''x'', JNull)])]) [(''a'', JObj [(''y'', JBool True)])]
      = Some (Inr (JObj [(''a'', JObj [(''x'', JNull), (''y'', JBool True)])]))"
    by code_simp
  from merge_recursive_two [OF _ this, of "''a''"] show ?thesis by (simp del: merge_recurse.simps)
qed

lemma matches_loop_found:
  "(\<exists>i. fst (matches_loop cs element n exs) = Some i)
     \<longleftrightarrow> (\<exists>ex. JObj ex \<in> set exs \<and> matches_example cs element ex)"
  by (induction exs arbitrary: n) (auto split: jsval.splits prod.splits simp: prod_eq_iff)

text \<open>
  \<open>FILTER\<close> with at least one example keeps, in order, exactly the documents of the list that agree
  with some example on all attributes of that example.
\<close>

theorem filter_by_examples:
  assumes "exs \<noteq> []"
  shows "fst (FILTER cs list (JArr exs)) = filter
    (\<lambda>v. \<exists>ob ex. v = JObj ob \<and> JObj ex \<in> set exs
       \<and> (\<forall>k. obj_has ex k \<longrightarrow> RELATIONAL_EQUAL cs (obj_get ob k) (obj_get ex k))) list"
proof -
  have "js_truthy (fst (AQL_MATCHES cs v (JArr exs) (JBool False))) \<longleftrightarrow>
      (\<exists>ob ex. v = JObj ob \<and> JObj ex \<in> set exs \<and> matches_example cs ob ex)" for v
  proof (cases v)
    case (JObj ob)
    then show ?thesis using assms matches_loop_found [of cs ob 0 exs]
      by (auto simp: AQL_MATCHES_def split: prod.splits option.splits)
  qed (simp_all add: AQL_MATCHES_def)
  then have "fst (filter_loop cs (JArr exs) list) = filter
    (\<lambda>v. \<exists>ob ex. v = JObj ob \<and> JObj ex \<in> set exs \<and> matches_example cs ob ex) list"
    by (induction list) (auto split: prod.splits simp: prod_eq_iff)
  then show ?thesis using assms by (simp add: FILTER_def matches_example_def list_all_iff)
qed

theorem filter_by_examples_witness:
  "fst (FILTER code_unit_cmp [JObj [(''a'', JNull)], JNull] (JArr [JObj []])) = [JObj [(''a'', JNull)]]"
  using filter_by_examples [of "[JObj []]"] by simp

end
