(* ===== verification/JS_String.thy ===== *)
theory JS_String
  imports AQL_Cast "HOL-Library.Sublist"
begin

text \<open>
  The string methods and the regular expressions of JavaScript, as far as the AQL string functions use them:
  \<open>substr\<close>, \<open>indexOf\<close>, \<open>lastIndexOf\<close>, \<open>split\<close>, \<open>replace\<close> with a global expression, \<open>toLowerCase\<close> and
  \<open>toUpperCase\<close>, on strings of code units below 256. A regular expression has the priorities of
  backtracking: \<open>re_ends\<close> lists the ends of its matches at a position in the order in which the engine
  tries them.
\<close>

subsection \<open>Positions and substrings\<close>

text \<open>\<open>ToInteger\<close>; the infinities stay.\<close>

fun to_integer :: "jsnum \<Rightarrow> jsnum" where
  "to_integer NaN = Fin 0"
| "to_integer (Fin r) = Fin (of_int (rat_trunc r))"
| "to_integer n = n"

text \<open>An integer or infinity, moved into the positions of a string of length \<open>n\<close>.\<close>

fun clamp_position :: "nat \<Rightarrow> jsnum \<Rightarrow> nat" where
  "clamp_position n (Fin r) = min n (nat (rat_trunc r))"
| "clamp_position n PInf = n"
| "clamp_position n _ = 0"

fun from_end :: "nat \<Rightarrow> jsnum \<Rightarrow> nat" where
  "from_end n (Fin r) = (if r < 0 then nat (int n + rat_trunc r) else nat (rat_trunc r))"
| "from_end n PInf = n"
| "from_end n _ = 0"

text \<open>\<open>s.substr(start, count)\<close>; \<open>None\<close> is a missing count.\<close>

definition js_substr :: "string \<Rightarrow> jsnum \<Rightarrow> jsnum option \<Rightarrow> string" where
  "js_substr s start n =
     (let rest = drop (from_end (length s) start) s
      in case n of None \<Rightarrow> rest | Some c \<Rightarrow> take (clamp_position (length rest) c) rest)"

definition match_at :: "string \<Rightarrow> string \<Rightarrow> nat \<Rightarrow> bool" where
  "match_at t s i \<longleftrightarrow> take (length t) (drop i s) = t"

definition positions :: "string \<Rightarrow> string \<Rightarrow> nat list" where
  "positions t s = filter (match_at t s) [0..<Suc (length s)]"

definition index_num :: "nat option \<Rightarrow> jsnum" where
  "index_num i = (case i of None \<Rightarrow> Fin (- 1) | Some i \<Rightarrow> Fin (of_nat i))"

definition js_indexOf :: "string \<Rightarrow> string \<Rightarrow> jsnum \<Rightarrow> jsnum" where
  "js_indexOf s t start = index_num (List.find (\<lambda>i. clamp_position (length s) start \<le> i) (positions t s))"

definition js_lastIndexOf :: "string \<Rightarrow> string \<Rightarrow> jsnum" where
  "js_lastIndexOf s t = (case positions t s of [] \<Rightarrow> Fin (- 1) | ps \<Rightarrow> Fin (of_nat (last ps)))"

subsection \<open>Case\<close>

definition latin_lower :: "char \<Rightarrow> char" where
  "latin_lower c = (let n = of_char c :: nat
     in if (65 \<le> n \<and> n \<le> 90) \<or> (192 \<le> n \<and> n \<le> 222 \<and> n \<noteq> 215) then char_of (n + 32) else c)"

text \<open>
  \<open>None\<close> for the micro sign and y with diaeresis, whose upper case is no code unit below 256; sharp s becomes two letters.
\<close>

definition latin_upper :: "char \<Rightarrow> string option" where
  "latin_upper c = (let n = of_char c :: nat
     in if (97 \<le> n \<and> n \<le> 122) \<or> (224 \<le> n \<and> n \<le> 254 \<and> n \<noteq> 247) then Some [char_of (n - 32)]
        else if n = 223 then Some ''SS'' else if n = 181 \<or> n = 255 then None else Some [c])"

definition js_toLowerCase :: "string \<Rightarrow> string" where
  "js_toLowerCase s = map latin_lower s"

fun js_toUpperCase :: "string \<Rightarrow> string option" where
  "js_toUpperCase [] = Some []"
| "js_toUpperCase (c # cs) = (case latin_upper c of None \<Rightarrow> None
     | Some u \<Rightarrow> map_option ((@) u) (js_toUpperCase cs))"

text \<open>\<open>Canonicalize\<close> of an expression that ignores case: upper case where that is one code unit.\<close>

definition canonical :: "char \<Rightarrow> char" where
  "canonical c = (case latin_upper c of Some [u] \<Rightarrow> u | _ \<Rightarrow> c)"

subsection \<open>Regular expressions\<close>

datatype re =
    ReChar char
  | ReAny
  | ReSet "(char \<times> char) list"
  | ReSpace
  | ReStart
  | ReEnd
  | ReWordBoundary
  | ReEmpty
  | ReSeq re re
  | ReAlt re re
  | ReStar re
  | RePlus re

definition is_word :: "char \<Rightarrow> bool" where
  "is_word c \<longleftrightarrow> (let n = of_char c :: nat in (48 \<le> n \<and> n \<le> 57) \<or> (65 \<le> n \<and> n \<le> 90) \<or> n = 95 \<or> (97 \<le> n \<and> n \<le> 122))"

text \<open>One character; a dot does not match the end of a line.\<close>

fun re_char :: "bool \<Rightarrow> re \<Rightarrow> char \<Rightarrow> bool" where
  "re_char ic (ReChar c) d \<longleftrightarrow> c = d \<or> (ic \<and> canonical c = canonical d)"
| "re_char ic ReAny d \<longleftrightarrow> d \<notin> {CHR 10, CHR 13}"
| "re_char ic (ReSet ranges) d \<longleftrightarrow> (\<exists>(a, b) \<in> set ranges. (of_char a :: nat) \<le> of_char d \<and> (of_char d :: nat) \<le> of_char b)"
| "re_char ic ReSpace d \<longleftrightarrow> is_space d"
| "re_char ic _ d \<longleftrightarrow> False"

text \<open>Greedy repetition of one character, which is the only use of \<open>*\<close> and \<open>+\<close>.\<close>

definition run_length :: "(char \<Rightarrow> bool) \<Rightarrow> string \<Rightarrow> nat \<Rightarrow> nat" where
  "run_length P s i = length (takeWhile P (drop i s))"

definition word_at :: "string \<Rightarrow> nat \<Rightarrow> bool" where
  "word_at s i \<longleftrightarrow> i < length s \<and> is_word (s ! i)"

fun re_ends :: "bool \<Rightarrow> string \<Rightarrow> re \<Rightarrow> nat \<Rightarrow> nat list" where
  "re_ends ic s ReStart i = (if i = 0 then [i] else [])"
| "re_ends ic s ReEnd i = (if i = length s then [i] else [])"
| "re_ends ic s ReWordBoundary i = (if word_at s i \<noteq> (0 < i \<and> word_at s (i - 1)) then [i] else [])"
| "re_ends ic s ReEmpty i = [i]"
| "re_ends ic s (ReSeq a b) i = concat (map (re_ends ic s b) (re_ends ic s a i))"
| "re_ends ic s (ReAlt a b) i = re_ends ic s a i @ re_ends ic s b i"
| "re_ends ic s (ReStar r) i = map (\<lambda>n. i + n) (rev [0..<Suc (run_length (re_char ic r) s i)])"
| "re_ends ic s (RePlus r) i = map (\<lambda>n. i + n) (rev [1..<Suc (run_length (re_char ic r) s i)])"
| "re_ends ic s r i = (if i < length s \<and> re_char ic r (s ! i) then [Suc i] else [])"

text \<open>The length of the match that the engine finds at a position.\<close>

definition re_match :: "bool \<Rightarrow> re \<Rightarrow> string \<Rightarrow> nat \<Rightarrow> nat option" where
  "re_match ic r s i = (case re_ends ic s r i of [] \<Rightarrow> None | e # es \<Rightarrow> Some (e - i))"

definition re_test :: "bool \<Rightarrow> re \<Rightarrow> string \<Rightarrow> bool" where
  "re_test ic r s \<longleftrightarrow> (\<exists>i \<in> set [0..<Suc (length s)]. re_match ic r s i \<noteq> None)"

subsection \<open>Splitting and replacing\<close>

definition piece :: "string \<Rightarrow> nat \<Rightarrow> nat \<Rightarrow> string" where
  "piece s p q = take (q - p) (drop p s)"

text \<open>The loop of \<open>split\<close>; \<open>m\<close> gives the length of the match of the separator at a position.\<close>

function split_loop :: "(nat \<Rightarrow> nat option) \<Rightarrow> string \<Rightarrow> nat \<Rightarrow> nat \<Rightarrow> int \<Rightarrow> string list" where
  "split_loop m s p q bound =
     (if q \<ge> length s then [drop p s]
      else case m q of
        None \<Rightarrow> split_loop m s p (Suc q) bound
      | Some n \<Rightarrow>
          if q + n = p then split_loop m s p (Suc q) bound
          else piece s p q # (if bound = 1 then [] else split_loop m s (q + n) (q + n) (bound - 1)))"
  by pat_completeness auto
termination
  by (relation "measure (\<lambda>(m, s, p, q, bound). 2 * (length s - q) + (if p = q then 0 else 1))") auto

declare split_loop.simps [simp del]

definition js_split :: "(nat \<Rightarrow> nat option) \<Rightarrow> string \<Rightarrow> int \<Rightarrow> string list" where
  "js_split m s bound =
     (if bound = 0 then []
      else if s = [] then (case m 0 of None \<Rightarrow> [s] | Some n \<Rightarrow> [])
      else split_loop m s 0 0 bound)"

definition literal_match :: "string \<Rightarrow> string \<Rightarrow> nat \<Rightarrow> nat option" where
  "literal_match t s q = (if match_at t s q then Some (length t) else None)"

text \<open>\<open>ToUint32\<close> of a limit; a missing one is the largest.\<close>

definition split_limit :: "jsnum option \<Rightarrow> int" where
  "split_limit limit = (case limit of None \<Rightarrow> 4294967295
     | Some (Fin r) \<Rightarrow> rat_trunc r mod 4294967296 | Some _ \<Rightarrow> 0)"

text \<open>
  \<open>s.replace(re, f)\<close> for a global expression: \<open>f\<close> gets the match and a state that it may change. After an
  empty match the next one is looked for a position further on.
\<close>

function replace_loop :: "(nat \<Rightarrow> nat option) \<Rightarrow> ('st \<Rightarrow> string \<Rightarrow> string \<times> 'st) \<Rightarrow> 'st \<Rightarrow> string \<Rightarrow> nat \<Rightarrow> string" where
  "replace_loop m f st s q =
     (if q > length s then []
      else case m q of
        None \<Rightarrow> piece s q (Suc q) @ replace_loop m f st s (Suc q)
      | Some n \<Rightarrow> (let (text, st) = f st (piece s q (q + n))
                  in text @ (if n = 0 then piece s q (Suc q) @ replace_loop m f st s (Suc q)
                             else replace_loop m f st s (q + n))))"
  by pat_completeness auto
termination
  by (relation "measure (\<lambda>(m, f, st, s, q). Suc (length s) - q)") auto

declare replace_loop.simps [simp del]

definition delete_matches :: "re \<Rightarrow> string \<Rightarrow> string" where
  "delete_matches r s = replace_loop (re_match False r s) (\<lambda>st match. ([], st)) () s 0"

subsection \<open>Matches of a string\<close>

lemma match_at_Nil [simp]: "match_at [] s i"
  by (simp add: match_at_def)

lemma match_at_iff: "match_at t s i \<and> i \<le> length s \<longleftrightarrow> (\<exists>ys zs. s = ys @ t @ zs \<and> length ys = i)"
proof
  assume m: "match_at t s i \<and> i \<le> length s"
  then have "s = take i s @ t @ drop (length t) (drop i s)"
    unfolding match_at_def by (metis append_take_drop_id)
  then show "\<exists>ys zs. s = ys @ t @ zs \<and> length ys = i" using m by (metis length_take min.absorb2)
qed (auto simp: match_at_def)

lemma match_at_length: "match_at t s i \<Longrightarrow> i \<le> length s \<Longrightarrow> i + length t \<le> length s"
  using match_at_iff [of t s i] by auto

lemma match_at_Cons: "match_at (c # t) s i \<longleftrightarrow> i < length s \<and> s ! i = c \<and> match_at t s (Suc i)"
proof (cases "i < length s")
  case True
  then show ?thesis by (simp add: match_at_def Cons_nth_drop_Suc [OF True, symmetric])
qed (simp add: match_at_def)

lemma set_positions [simp]: "set (positions t s) = {i. match_at t s i \<and> i \<le> length s}"
  by (auto simp: positions_def less_Suc_eq_le simp del: upt_Suc)

lemma sorted_positions: "sorted (positions t s)" "distinct (positions t s)"
  by (simp_all add: positions_def sorted_wrt_filter del: upt_Suc)

lemma rat_trunc_int [simp]: "rat_trunc 0 = 0" "rat_trunc (of_nat n) = int n" "rat_trunc (of_int k) = k"
proof -
  have "- (- of_int k :: rat) = of_int k" by simp
  then show "rat_trunc (of_int k) = k" by (simp add: rat_trunc_def)
  show "rat_trunc (of_nat n) = int n" by (simp add: rat_trunc_def)
qed (simp add: rat_trunc_def)

lemma nat_not_minus_one [simp]: "(of_nat i :: rat) \<noteq> - 1" "(- 1 :: rat) \<noteq> of_nat i"
  by (metis neg_0_le_iff_le not_one_le_zero of_nat_0_le_iff)+

lemma find_least:
  "sorted xs \<Longrightarrow> List.find P xs = Some (i :: nat) \<longleftrightarrow> i \<in> set xs \<and> P i \<and> (\<forall>j \<in> set xs. P j \<longrightarrow> i \<le> j)"
proof (induction xs)
  case (Cons x xs)
  show ?case
  proof (cases "P x")
    case True
    have "\<forall>j \<in> set xs. x \<le> j" using Cons.prems by simp
    then show ?thesis using True by (auto intro: le_antisym)
  next
    case False
    then show ?thesis using Cons by auto
  qed
qed simp

lemma sorted_last_le: "sorted xs \<Longrightarrow> x \<in> set xs \<Longrightarrow> x \<le> last xs"
  by (induction xs) (auto intro: last_in_set)

lemma index_num_eq [simp]: "index_num x = Fin (of_nat i) \<longleftrightarrow> x = Some i"
  by (auto simp: index_num_def split: option.split)

lemma indexOf_least:
  "js_indexOf s t (Fin 0) = Fin (of_nat i) \<longleftrightarrow> match_at t s i \<and> i \<le> length s \<and> (\<forall>j \<le> length s. match_at t s j \<longrightarrow> i \<le> j)"
  by (auto simp: js_indexOf_def find_least sorted_positions)

lemma indexOf_absent: "js_indexOf s t (Fin 0) = Fin (- 1) \<longleftrightarrow> (\<forall>j \<le> length s. \<not> match_at t s j)"
proof -
  have "index_num x = Fin (- 1) \<longleftrightarrow> x = None" for x
    by (cases x) (simp_all add: index_num_def)
  then show ?thesis by (auto simp: js_indexOf_def find_None_iff)
qed

lemma lastIndexOf_greatest:
  "js_lastIndexOf s t = Fin (of_nat i) \<longleftrightarrow> match_at t s i \<and> i \<le> length s \<and> (\<forall>j \<le> length s. match_at t s j \<longrightarrow> j \<le> i)"
proof (cases "positions t s")
  case Nil
  then have "\<forall>j \<le> length s. \<not> match_at t s j" using set_positions [of t s] by auto
  then show ?thesis using Nil by (auto simp: js_lastIndexOf_def)
next
  case (Cons p ps)
  then have l: "last (p # ps) \<in> set (positions t s)" "\<forall>j \<in> set (positions t s). j \<le> last (p # ps)"
    using sorted_positions(1) [of t s] sorted_last_le [of "positions t s"] last_in_set [of "p # ps"] by (simp_all only: Cons) simp_all
  have e: "js_lastIndexOf s t = Fin (of_nat (last (p # ps)))" by (simp add: js_lastIndexOf_def Cons)
  have m: "match_at t s j \<and> j \<le> length s \<longleftrightarrow> j \<in> set (positions t s)" for j by simp
  show ?thesis unfolding e using l m by (metis jsnum.inject of_nat_eq_iff le_antisym)
qed

end
