(* ===== verification/AQL_Strings.thy ===== *)
theory AQL_Strings
  imports JS_String
begin

text \<open>
  The string functions of \<open>js/server/modules/org/arangodb/aql.js\<close>, from \<open>CONCAT\<close> to \<open>FIND_LAST\<close>, with the
  helpers that build regular expressions. The text that is built for one is parsed where it is
  concatenated to the fixed parts of the expression. Hashes and random tokens are not modelled.
\<close>

subsection \<open>Patterns\<close>

definition special_char :: "char \<Rightarrow> bool" where
  "special_char c \<longleftrightarrow> c \<in> set ''.*+?^=!:${}()|[]/'' \<or> c = CHR 92"

definition escape_char :: "char \<Rightarrow> string" where
  "escape_char c =
     (if special_char c then [CHR 92, c]
      else if c = CHR 9 then [CHR 92, CHR ''t'']
      else if c = CHR 13 then [CHR 92, CHR ''r'']
      else if c = CHR 10 then [CHR 92, CHR ''n'']
      else if c = CHR 8 then [CHR 92, CHR ''b'']
      else if c = CHR 12 then [CHR 92, CHR ''f'']
      else [c])"

definition CREATE_REGEX_PATTERN :: "jsval \<Rightarrow> string" where
  "CREATE_REGEX_PATTERN chars = concat (map escape_char (AQL_TO_STRING chars))"

text \<open>What the engine reads: the character an escape stands for.\<close>

definition escaped_char :: "char \<Rightarrow> char" where
  "escaped_char c = (if c = CHR ''t'' then CHR 9 else if c = CHR ''r'' then CHR 13 else if c = CHR ''n'' then CHR 10
     else if c = CHR ''b'' then CHR 8 else if c = CHR ''f'' then CHR 12 else c)"

text \<open>The atoms between brackets, and the ranges that a dash between two of them makes.\<close>

fun class_atoms :: "string \<Rightarrow> string" where
  "class_atoms [] = []"
| "class_atoms [c] = [c]"
| "class_atoms (c # d # cs) = (if c = CHR 92 then escaped_char d # class_atoms cs else c # class_atoms (d # cs))"

fun class_ranges :: "string \<Rightarrow> (char \<times> char) list" where
  "class_ranges (a # d # b # cs) = (if d = CHR ''-'' then (a, b) # class_ranges cs else (a, a) # class_ranges (d # b # cs))"
| "class_ranges (a # cs) = (a, a) # class_ranges cs"
| "class_ranges [] = []"

text \<open>A range whose ends are in the wrong order is a syntax error.\<close>

definition char_class :: "string \<Rightarrow> js_exc + re" where
  "char_class pattern =
     (let ranges = class_ranges (class_atoms pattern)
      in if \<exists>(a, b) \<in> set ranges. (of_char b :: nat) < of_char a then Inl SyntaxError else Inr (ReSet ranges))"

text \<open>Outside of brackets an escaped \<open>b\<close> is a word boundary.\<close>

fun sequence_items :: "string \<Rightarrow> re list" where
  "sequence_items [] = []"
| "sequence_items [c] = [if c = CHR ''.'' then ReAny else ReChar c]"
| "sequence_items (c # d # cs) =
     (if c = CHR 92 then (if d = CHR ''b'' then ReWordBoundary else ReChar (escaped_char d)) # sequence_items cs
      else if c = CHR ''.'' \<and> d = CHR ''*'' then ReStar ReAny # sequence_items cs
      else (if c = CHR ''.'' then ReAny else ReChar c) # sequence_items (d # cs))"

definition re_sequence :: "re list \<Rightarrow> re" where
  "re_sequence rs = foldr ReSeq rs ReEmpty"

definition literal_re :: "string \<Rightarrow> re" where
  "literal_re pattern = re_sequence (sequence_items pattern)"

text \<open>\<open>patterns.join("|")\<close>\<close>

fun alternatives :: "string list \<Rightarrow> re" where
  "alternatives [] = ReEmpty"
| "alternatives [p] = literal_re p"
| "alternatives (p # ps) = ReAlt (literal_re p) (alternatives ps)"

fun compile_like :: "bool \<Rightarrow> string \<Rightarrow> string" where
  "compile_like escaped [] = []"
| "compile_like escaped (c # cs) =
     (if c = CHR 92 then (if escaped then [CHR 92, CHR 92] else []) @ compile_like (\<not> escaped) cs
      else (if c = CHR ''%'' then (if escaped then ''%'' else ''.*'')
            else if c = CHR ''_'' then (if escaped then ''_'' else ''.'')
            else if special_char c then [CHR 92, c]
            else (if escaped then [CHR 92, CHR 92] else []) @ [c]) @ compile_like False cs)"

definition COMPILE_REGEX :: "jsval \<Rightarrow> re" where
  "COMPILE_REGEX regex =
     ReSeq ReStart (re_sequence (sequence_items (compile_like False (AQL_TO_STRING regex)) @ [ReEnd]))"

subsection \<open>Concatenation\<close>

definition null_like :: "jsval \<Rightarrow> bool" where
  "null_like v \<longleftrightarrow> TYPEWEIGHT v = TYPEWEIGHT_NULL"

text \<open>The strings of the elements of a list that are not null.\<close>

definition element_strings :: "jsval list \<Rightarrow> string list" where
  "element_strings xs = map AQL_TO_STRING (filter (\<lambda>x. \<not> null_like x) xs)"

fun AQL_CONCAT :: "jsval list \<Rightarrow> string" where
  "AQL_CONCAT [] = []"
| "AQL_CONCAT (element # rest) =
     (if null_like element then []
      else case element of JArr xs \<Rightarrow> concat (element_strings xs) | _ \<Rightarrow> AQL_TO_STRING element) @ AQL_CONCAT rest"

text \<open>\<open>found\<close> says whether the next element needs a separator.\<close>

fun separate_list :: "string \<Rightarrow> bool \<Rightarrow> jsval list \<Rightarrow> string \<times> bool" where
  "separate_list sep found [] = ([], found)"
| "separate_list sep found (x # xs) =
     (if null_like x then separate_list sep found xs
      else let (rest, f) = separate_list sep True xs in ((if found then sep else []) @ AQL_TO_STRING x @ rest, f))"

fun separate_loop :: "string \<Rightarrow> bool \<Rightarrow> jsval list \<Rightarrow> string" where
  "separate_loop sep found [] = []"
| "separate_loop sep found (element # rest) =
     (if null_like element then separate_loop sep found rest
      else (if found then sep else [])
        @ (case element of
             JArr xs \<Rightarrow> (let (text, f) = separate_list sep False xs in text @ separate_loop sep f rest)
           | _ \<Rightarrow> AQL_TO_STRING element @ separate_loop sep True rest))"

definition AQL_CONCAT_SEPARATOR :: "jsval list \<Rightarrow> string" where
  "AQL_CONCAT_SEPARATOR arguments = (case arguments of [] \<Rightarrow> []
     | separator # rest \<Rightarrow> separate_loop (AQL_TO_STRING separator) False rest)"

definition AQL_CHAR_LENGTH :: "jsval \<Rightarrow> nat" where
  "AQL_CHAR_LENGTH value = length (AQL_TO_STRING value)"

definition AQL_LOWER :: "jsval \<Rightarrow> string" where
  "AQL_LOWER value = js_toLowerCase (AQL_TO_STRING value)"

definition AQL_UPPER :: "jsval \<Rightarrow> string option" where
  "AQL_UPPER value = js_toUpperCase (AQL_TO_STRING value)"

subsection \<open>Parts and positions\<close>

definition AQL_SUBSTRING :: "jsval \<Rightarrow> jsval \<Rightarrow> jsval \<Rightarrow> string" where
  "AQL_SUBSTRING value offset count0 =
     js_substr (AQL_TO_STRING value) (js_number (AQL_TO_NUMBER offset))
       (if count0 = JUndef then None else Some (js_number (AQL_TO_NUMBER count0)))"

definition AQL_CONTAINS :: "jsval \<Rightarrow> jsval \<Rightarrow> jsval \<Rightarrow> jsval" where
  "AQL_CONTAINS value search returnIndex =
     (let search = AQL_TO_STRING search;
          result = (if length search = 0 then Fin (- 1) else js_indexOf (AQL_TO_STRING value) search NaN)
      in if AQL_TO_BOOL returnIndex then JNum result else JBool (\<not> num_eq result (Fin (- 1))))"

text \<open>
  The cache of expressions is an object: a pattern that is the name of a property of \<open>Object.prototype\<close> is found
  in it, what is found has no method \<open>test\<close>, and the exception becomes a warning.
\<close>

definition inherited_names :: "string list" where
  "inherited_names = [''constructor'', ''toString'', ''toLocaleString'', ''valueOf'', ''hasOwnProperty'', ''isPrototypeOf'',
     ''propertyIsEnumerable'', ''__proto__'', ''__defineGetter__'', ''__defineSetter__'', ''__lookupGetter__'', ''__lookupSetter__'']"

definition AQL_LIKE :: "jsval \<Rightarrow> jsval \<Rightarrow> jsval \<Rightarrow> bool warned" where
  "AQL_LIKE value regex caseInsensitive =
     (let regex = AQL_TO_STRING regex
      in if regex \<in> set inherited_names then (False, [WARN (Some ''LIKE'') ERROR_QUERY_INVALID_REGEX None])
         else quiet (re_test (js_truthy caseInsensitive) (COMPILE_REGEX (JStr regex)) (AQL_TO_STRING value)))"

definition AQL_LEFT :: "jsval \<Rightarrow> jsval \<Rightarrow> string" where
  "AQL_LEFT value length0 = js_substr (AQL_TO_STRING value) (Fin 0) (Some (js_number (AQL_TO_NUMBER length0)))"

definition AQL_RIGHT :: "jsval \<Rightarrow> jsval \<Rightarrow> string" where
  "AQL_RIGHT value length0 =
     (let value = AQL_TO_STRING value; n = js_number (AQL_TO_NUMBER length0);
          left = num_sub (Fin (of_nat (length value))) n;
          left = (if num_lt left (Fin 0) then Fin 0 else left)
      in js_substr value left (Some n))"

subsection \<open>Trimming\<close>

text \<open>\<open>chars\<close> is missing where it is \<open>null\<close> or \<open>undefined\<close>.\<close>

definition trim_class :: "jsval \<Rightarrow> js_exc + re" where
  "trim_class chars = (if chars = JNull \<or> chars = JUndef then Inr ReSpace else char_class (CREATE_REGEX_PATTERN chars))"

definition trim_with :: "(re \<Rightarrow> re) \<Rightarrow> jsval \<Rightarrow> jsval \<Rightarrow> js_exc + string" where
  "trim_with expression value chars = (case trim_class chars of
      Inl e \<Rightarrow> Inl e | Inr cls \<Rightarrow> Inr (delete_matches (expression cls) (AQL_TO_STRING value)))"

definition AQL_LTRIM :: "jsval \<Rightarrow> jsval \<Rightarrow> js_exc + string" where
  "AQL_LTRIM value chars = trim_with (\<lambda>cls. ReSeq ReStart (RePlus cls)) value chars"

definition AQL_RTRIM :: "jsval \<Rightarrow> jsval \<Rightarrow> js_exc + string" where
  "AQL_RTRIM value chars = trim_with (\<lambda>cls. ReSeq (RePlus cls) ReEnd) value chars"

definition AQL_TRIM :: "jsval \<Rightarrow> jsval \<Rightarrow> js_exc + string" where
  "AQL_TRIM value chars =
     (if js_eq chars (JNum (Fin 1)) then AQL_LTRIM value JUndef
      else if js_eq chars (JNum (Fin 2)) then AQL_RTRIM value JUndef
      else trim_with (\<lambda>cls. ReAlt (ReSeq ReStart (RePlus cls)) (ReSeq (RePlus cls) ReEnd)) value
        (if js_eq chars (JNum (Fin 0)) then JNull else chars))"

subsection \<open>Splitting and replacing\<close>

definition limit_number :: "jsval \<Rightarrow> jsnum option" where
  "limit_number limit = (if limit = JNull \<or> limit = JUndef then None else Some (js_number (AQL_TO_NUMBER limit)))"

definition negative_limit :: "jsnum option \<Rightarrow> bool" where
  "negative_limit limit = (case limit of None \<Rightarrow> False | Some n \<Rightarrow> num_lt n (Fin 0))"

definition AQL_SPLIT :: "jsval \<Rightarrow> jsval \<Rightarrow> jsval \<Rightarrow> jsval warned" where
  "AQL_SPLIT value separator limit0 =
     (let s = AQL_TO_STRING value; limit = limit_number limit0
      in if separator = JNull \<or> separator = JUndef then quiet (JArr [JStr s])
         else if negative_limit limit then mismatch ''SPLIT'' JNull
         else quiet (JArr (map JStr (case separator of
             JArr seps \<Rightarrow> js_split (re_match False
                (alternatives (map (\<lambda>t. CREATE_REGEX_PATTERN (JStr (AQL_TO_STRING t))) seps)) s) s (split_limit limit)
           | _ \<Rightarrow> js_split (literal_match (AQL_TO_STRING separator) s) s (split_limit limit)))))"

text \<open>
  The patterns and their replacements; \<open>None\<close> for a search value of another type, for which the expression is
  empty.
\<close>

definition replacement_string :: "jsval \<Rightarrow> string" where
  "replacement_string v = (if null_like v then [] else AQL_TO_STRING v)"

fun list_replacements :: "jsval list \<Rightarrow> jsval list \<Rightarrow> jsobj \<Rightarrow> jsobj" where
  "list_replacements [] rs ob = ob"
| "list_replacements (k # ks) [] ob = list_replacements ks [] (obj_put (AQL_TO_STRING k) (JStr []) ob)"
| "list_replacements (k # ks) (r # rs) ob = list_replacements ks rs (obj_put (AQL_TO_STRING k) (JStr (AQL_TO_STRING r)) ob)"

definition substitutions :: "jsval \<Rightarrow> jsval \<Rightarrow> string list \<times> jsobj" where
  "substitutions search replace = (case search of
      JObj ob \<Rightarrow> (object_keys ob, map (\<lambda>(k, v). (k, JStr (AQL_TO_STRING v))) ob)
    | JStr t \<Rightarrow> ([t], [(t, JStr (replacement_string replace))])
    | JArr ks \<Rightarrow> (map AQL_TO_STRING ks, (case replace of
          JArr rs \<Rightarrow> list_replacements ks rs []
        | _ \<Rightarrow> foldl (\<lambda>ob k. obj_put (AQL_TO_STRING k) (JStr (replacement_string replace)) ob) [] ks))
    | _ \<Rightarrow> ([], []))"

text \<open>The callback of \<open>replace\<close> counts the limit down.\<close>

definition substitute_match :: "jsobj \<Rightarrow> jsnum option \<Rightarrow> string \<Rightarrow> string \<times> jsnum option" where
  "substitute_match replacements limit match = (case limit of
      None \<Rightarrow> (js_string (obj_get replacements match), None)
    | Some n \<Rightarrow> if num_lt (Fin 0) n then (js_string (obj_get replacements match), Some (num_sub n (Fin 1)))
               else (match, limit))"

definition AQL_SUBSTITUTE :: "jsval \<Rightarrow> jsval \<Rightarrow> jsval \<Rightarrow> jsval \<Rightarrow> jsval warned" where
  "AQL_SUBSTITUTE value search replace limit0 =
     (let s = AQL_TO_STRING value;
          limit = limit_number (case search of JObj ob \<Rightarrow> replace | _ \<Rightarrow> limit0);
          (patterns, replacements) = substitutions search replace;
          r = alternatives (map (\<lambda>t. CREATE_REGEX_PATTERN (JStr t)) patterns)
      in if search = JArr [] then mismatch ''SUBSTITUTE'' (JStr s)
         else if negative_limit limit then mismatch ''SUBSTITUTE'' JNull
         else quiet (JStr (replace_loop (re_match False r s) (substitute_match replacements) limit s 0)))"

subsection \<open>Finding\<close>

text \<open>A bound of the search: \<open>None\<close> where it is missing.\<close>

definition AQL_FIND_FIRST :: "jsval \<Rightarrow> jsval \<Rightarrow> jsval \<Rightarrow> jsval \<Rightarrow> jsnum" where
  "AQL_FIND_FIRST value search start0 end0 =
     (let s = AQL_TO_STRING value; t = AQL_TO_STRING search; stop = limit_number end0
      in case limit_number start0 of
           Some n \<Rightarrow>
             if num_lt n (Fin 0) then Fin (- 1)
             else (case stop of
                 None \<Rightarrow> js_indexOf s t n
               | Some e \<Rightarrow> if num_lt e n \<or> num_lt e (Fin 0) then Fin (- 1)
                   else js_indexOf (js_substr s (Fin 0) (Some (num_add e (Fin 1)))) t n)
         | None \<Rightarrow> (case stop of
                 None \<Rightarrow> js_indexOf s t (Fin 0)
               | Some e \<Rightarrow> if num_lt e (Fin 0) then Fin (- 1)
                   else js_indexOf (js_substr s (Fin 0) (Some (num_add e (Fin 1)))) t (Fin 0)))"

text \<open>A missing bound is \<open>undefined\<close>, which counts as \<open>NaN\<close>.\<close>

definition AQL_FIND_LAST :: "jsval \<Rightarrow> jsval \<Rightarrow> jsval \<Rightarrow> jsval \<Rightarrow> jsnum" where
  "AQL_FIND_LAST value search start0 end0 =
     (let s = AQL_TO_STRING value; t = AQL_TO_STRING search; stop = limit_number end0;
          start = (case limit_number start0 of None \<Rightarrow> NaN | Some n \<Rightarrow> n)
      in case stop of
           Some e \<Rightarrow>
             if num_lt e start \<or> num_lt e (Fin 0) then Fin (- 1)
             else (let result = js_lastIndexOf (js_substr s start (Some (num_add (num_sub e start) (Fin 1)))) t
                   in if num_eq result (Fin (- 1)) then result else num_add result start)
         | None \<Rightarrow>
             if num_lt (Fin 0) start
             then (let result = js_lastIndexOf (js_substr s start None) t
                   in if num_eq result (Fin (- 1)) then result else num_add result start)
             else js_lastIndexOf s t)"

subsection \<open>Literal expressions\<close>

lemma piece_empty [simp]: "piece s p p = []"
  by (simp add: piece_def)

lemma piece_end: "length s \<le> q \<Longrightarrow> piece s p q = drop p s"
  by (simp add: piece_def)

lemma piece_append:
  assumes "p \<le> q" "q \<le> r" shows "piece s p q @ piece s q r = piece s p r"
proof -
  obtain a b where "q = p + a" "r = p + a + b" using assms by (metis le_Suc_ex)
  then show ?thesis by (simp add: piece_def take_add add.commute add.left_commute)
qed

lemma piece_drop: "p \<le> q \<Longrightarrow> piece s p q @ drop q s = drop p s"
  unfolding piece_def by (metis append_take_drop_id drop_drop le_add_diff_inverse2)

lemma piece_match: "match_at t s q \<Longrightarrow> piece s q (q + length t) = t"
  by (simp add: piece_def match_at_def)

lemma re_sequence_simps [simp]: "re_sequence [] = ReEmpty" "re_sequence (r # rs) = ReSeq r (re_sequence rs)"
  by (simp_all add: re_sequence_def)

lemma sequence_items_plain: "c \<noteq> CHR 92 \<Longrightarrow> c \<noteq> CHR ''.'' \<Longrightarrow> sequence_items (c # cs) = ReChar c # sequence_items cs"
  by (cases cs) simp_all

lemma special_not_letter: "special_char c \<Longrightarrow> c \<notin> {CHR ''t'', CHR ''r'', CHR ''n'', CHR ''b'', CHR ''f''}"
  by (auto simp: special_char_def)

lemma plain_not_special: "\<not> special_char c \<Longrightarrow> c \<noteq> CHR 92 \<and> c \<noteq> CHR ''.'' \<and> c \<noteq> CHR ''*''"
  by (auto simp: special_char_def)

text \<open>An escaped string is read back as its characters, except that a backspace becomes a word boundary.\<close>

lemma sequence_items_escape: "CHR 8 \<notin> set t \<Longrightarrow> sequence_items (concat (map escape_char t)) = map ReChar t"
proof (induction t)
  case (Cons c t)
  then show ?case
    using special_not_letter [of c] plain_not_special [of c]
    by (auto simp: escape_char_def escaped_char_def sequence_items_plain)
qed simp

lemma re_ends_literal: "re_ends False s (re_sequence (map ReChar t)) i = (if match_at t s i then [i + length t] else [])"
  by (induction t arbitrary: i) (auto simp: match_at_Cons)

lemma literal_re_match:
  "CHR 8 \<notin> set t \<Longrightarrow> re_match False (literal_re (CREATE_REGEX_PATTERN (JStr t))) s = literal_match t s"
  by (simp add: fun_eq_iff re_match_def literal_re_def CREATE_REGEX_PATTERN_def sequence_items_escape re_ends_literal literal_match_def)

subsection \<open>Splitting, joining and replacing\<close>

lemma join_Cons: "ys \<noteq> [] \<Longrightarrow> join t (x # ys) = x @ t @ join t ys"
  by (cases ys) simp_all

lemma split_loop_nonempty [simp]: "split_loop m s p q b \<noteq> []"
  by (induction m s p q b rule: split_loop.induct) (subst split_loop.simps, simp split: option.split)

lemma split_literal_step:
  assumes "t \<noteq> []" "p \<le> q"
  shows "split_loop (literal_match t s) s p q b =
    (if q \<ge> length s then [drop p s]
     else if match_at t s q
     then piece s p q # (if b = 1 then [] else split_loop (literal_match t s) s (q + length t) (q + length t) (b - 1))
     else split_loop (literal_match t s) s p (Suc q) b)"
proof -
  have "q + length t \<noteq> p" using assms by (cases t) auto
  then show ?thesis by (subst split_loop.simps) (simp add: literal_match_def)
qed

lemma replace_literal_step:
  assumes "t \<noteq> []"
  shows "replace_loop (literal_match t s) f st s q =
    (if q \<ge> length s then []
     else if match_at t s q then fst (f st t) @ replace_loop (literal_match t s) f (snd (f st t)) s (q + length t)
     else s ! q # replace_loop (literal_match t s) f st s (Suc q))"
proof (cases "q < length s")
  case True
  then have "piece s q (Suc q) = [s ! q]" by (simp add: piece_def Cons_nth_drop_Suc [symmetric])
  then show ?thesis
    using assms True by (subst replace_loop.simps) (simp add: literal_match_def piece_match case_prod_beta)
next
  case False
  have "\<not> match_at t s (length s)" using assms match_at_length [of t s "length s"] by auto
  moreover have "replace_loop (literal_match t s) f st s (Suc (length s)) = []" by (subst replace_loop.simps) simp
  ultimately have "replace_loop (literal_match t s) f st s (length s) = []"
    by (subst replace_loop.simps) (simp add: literal_match_def piece_def)
  moreover have "replace_loop (literal_match t s) f st s q = []" if "length s < q"
    using that by (subst replace_loop.simps) simp
  ultimately show ?thesis using False by (cases "q = length s") simp_all
qed

text \<open>
  Joining the pieces with another string is the same as replacing every match, and every piece lies between two
  matches.
\<close>

lemma split_loop_join:
  assumes "t \<noteq> []"
  shows "p \<le> q \<Longrightarrow> q \<le> length s \<Longrightarrow> int (length s - q) < b \<Longrightarrow>
    join r (split_loop (literal_match t s) s p q b)
      = piece s p q @ replace_loop (literal_match t s) (\<lambda>st m. (r, st)) st s q"
proof (induction "length s - q" arbitrary: p q b rule: less_induct)
  case less
  let ?f = "\<lambda>st m. (r, st)"
  note step = split_literal_step [OF assms less.prems(1), of s b] replace_literal_step [OF assms, of s ?f st q]
  show ?case
  proof (cases "q < length s")
    case False
    then show ?thesis
      using less.prems unfolding step by (simp add: piece_end)
  next
    case True
    show ?thesis
    proof (cases "match_at t s q")
      case m: True
      let ?q = "q + length t"
      obtain k where k: "length t = Suc k" using assms by (cases t) auto
      have t: "?q \<le> length s" using m match_at_length [OF m] less.prems by auto
      then have "join r (split_loop (literal_match t s) s ?q ?q (b - 1))
          = replace_loop (literal_match t s) (\<lambda>st m. (r, st)) st s ?q"
        using True less.prems less.hyps [of ?q ?q "b - 1"] t k by simp
      moreover have "b \<noteq> 1" using True less.prems by linarith
      ultimately show ?thesis
        using True m unfolding step by (simp add: join_Cons)
    next
      case m: False
      have "join r (split_loop (literal_match t s) s p (Suc q) b)
          = piece s p (Suc q) @ replace_loop (literal_match t s) (\<lambda>st m. (r, st)) st s (Suc q)"
        using True less.prems by (intro less.hyps) auto
      moreover have "piece s p (Suc q) = piece s p q @ [s ! q]"
        using True less.prems piece_append [of p q "Suc q" s] by (simp add: piece_def Cons_nth_drop_Suc [symmetric])
      ultimately show ?thesis
        using True m unfolding step by simp
    qed
  qed
qed

lemma replace_same: "t \<noteq> [] \<Longrightarrow> q \<le> length s \<Longrightarrow> replace_loop (literal_match t s) (\<lambda>st m. (t, st)) st s q = drop q s"
proof (induction "length s - q" arbitrary: q rule: less_induct)
  case less
  note step = replace_literal_step [OF less.prems(1), of s "\<lambda>st m. (t, st)" st q]
  show ?case
  proof (cases "q < length s")
    case True
    show ?thesis
    proof (cases "match_at t s q")
      case m: True
      obtain k where k: "length t = Suc k" using less.prems by (cases t) auto
      have "q + length t \<le> length s" using less.prems m match_at_length by auto
      then have "replace_loop (literal_match t s) (\<lambda>st m. (t, st)) st s (q + length t) = drop (q + length t) s"
        using True less.prems k by (intro less.hyps) auto
      then show ?thesis
        using True m piece_drop [of q "q + length t" s] by (simp add: step piece_match)
    next
      case m: False
      have "replace_loop (literal_match t s) (\<lambda>st m. (t, st)) st s (Suc q) = drop (Suc q) s"
        using True less.prems by (intro less.hyps) auto
      then show ?thesis using True m by (simp add: step Cons_nth_drop_Suc)
    qed
  next
    case False
    then show ?thesis unfolding step by simp
  qed
qed

lemma match_in_piece:
  assumes "sublist t (piece s p q)" "q \<le> length s" "t \<noteq> []"
  obtains i where "p \<le> i" "i < q" "match_at t s i"
proof -
  obtain ys zs where x: "piece s p q = ys @ t @ zs" using assms(1) by (auto simp: sublist_def)
  have p: "p \<le> q" using assms(3) x by (cases "p \<le> q") (auto simp: piece_def)
  have "s = take p s @ piece s p q @ drop q s" using p by (simp add: piece_drop)
  then have "s = (take p s @ ys) @ t @ zs @ drop q s" by (simp add: x)
  moreover have l: "length (take p s @ ys) = p + length ys" using p assms(2) by simp
  ultimately have "match_at t s (p + length ys)" using match_at_iff [of t s "p + length ys"] by metis
  moreover have "length ys + length t \<le> q - p" using arg_cong [OF x, of length] by (simp add: piece_def)
  moreover have "0 < length t" using assms(3) by simp
  ultimately show thesis using p by (intro that [of "p + length ys"]) linarith+
qed

lemma split_loop_pieces:
  assumes "t \<noteq> []"
  shows "p \<le> q \<Longrightarrow> q \<le> length s \<Longrightarrow> \<forall>i. p \<le> i \<and> i < q \<longrightarrow> \<not> match_at t s i \<Longrightarrow>
    x \<in> set (split_loop (literal_match t s) s p q b) \<Longrightarrow> \<not> sublist t x"
proof (induction "length s - q" arbitrary: p q b rule: less_induct)
  case less
  have here: "\<not> sublist t (piece s p q)" using less.prems(2,3) match_in_piece [of t s p q] assms by blast
  show ?case
  proof (cases "q < length s")
    case False
    then have "q = length s" using less.prems by simp
    then show ?thesis using here less.prems(1,4) by (simp add: split_literal_step [OF assms] piece_end)
  next
    case True
    show ?thesis
    proof (cases "match_at t s q")
      case m: True
      obtain k where k: "length t = Suc k" using assms by (cases t) auto
      have t: "q + length t \<le> length s" using m match_at_length [OF m] less.prems by auto
      consider "x = piece s p q" | "x \<in> set (split_loop (literal_match t s) s (q + length t) (q + length t) (b - 1))"
        using less.prems(1,4) True m by (auto simp: split_literal_step [OF assms, of p] split: if_splits)
      then show ?thesis
      proof cases
        case 2
        show ?thesis by (rule less.hyps [OF _ _ _ _ 2]) (use t k True in auto)
      qed (use here in simp)
    next
      case m: False
      have "x \<in> set (split_loop (literal_match t s) s p (Suc q) b)"
        using less.prems(1,4) True m by (simp add: split_literal_step [OF assms, of p q])
      moreover have "\<forall>i. p \<le> i \<and> i < Suc q \<longrightarrow> \<not> match_at t s i" using m less.prems(3) by (auto simp: less_Suc_eq)
      ultimately show ?thesis using less.hyps [of "Suc q" p b] True less.prems(1) by simp
    qed
  qed
qed

lemma js_split_literal: "t \<noteq> [] \<Longrightarrow> b \<noteq> 0 \<Longrightarrow> js_split (literal_match t s) s b = split_loop (literal_match t s) s 0 0 b"
  by (auto simp: js_split_def literal_match_def match_at_def split_loop.simps)

lemma null_like_str [simp]: "\<not> null_like (JStr s)"
  by (simp add: null_like_def typeweight_simps)

lemma separate_strings:
  "separate_list sep found (map JStr xs) = (if xs = [] then [] else (if found then sep else []) @ join sep xs, found \<or> xs \<noteq> [])"
proof (induction xs arbitrary: found)
  case (Cons x xs)
  then show ?case by (cases "xs = []") (simp_all add: join_Cons)
qed simp

lemma concat_separator_list: "AQL_CONCAT_SEPARATOR [JStr sep, JArr (map JStr xs)] = join sep xs"
  by (simp add: AQL_CONCAT_SEPARATOR_def separate_strings null_like_def typeweight_simps)

lemma split_string:
  assumes "t \<noteq> []"
  shows "AQL_SPLIT (JStr v) (JStr t) JUndef = quiet (JArr (map JStr (split_loop (literal_match t v) v 0 0 4294967295)))"
  using assms by (simp add: AQL_SPLIT_def Let_def limit_number_def negative_limit_def split_limit_def js_split_literal)

text \<open>
  C30: \<open>CONCAT_SEPARATOR\<close> puts the pieces of \<open>SPLIT\<close> together again to the string that was split, and no piece
  contains the separator.
\<close>

theorem split_join_round_trip:
  assumes "t \<noteq> []" "length v < 4294967295"
  shows "AQL_CONCAT_SEPARATOR [JStr t, fst (AQL_SPLIT (JStr v) (JStr t) JUndef)] = v
    \<and> (\<exists>pieces. AQL_SPLIT (JStr v) (JStr t) JUndef = quiet (JArr (map JStr pieces)) \<and> (\<forall>p \<in> set pieces. \<not> sublist t p))"
proof -
  have "join t (split_loop (literal_match t v) v 0 0 4294967295) = v"
    using assms(2) split_loop_join [OF assms(1), where st = "()" and r = t and p = 0 and q = 0 and s = v and b = 4294967295]
      replace_same [OF assms(1), where st = "()" and q = 0 and s = v] by simp
  moreover have "\<not> sublist t p" if "p \<in> set (split_loop (literal_match t v) v 0 0 4294967295)" for p
    by (rule split_loop_pieces [OF assms(1) _ _ _ that]) simp_all
  ultimately show ?thesis unfolding split_string [OF assms(1)] fst_conv concat_separator_list by blast
qed

theorem split_join_round_trip_witness:
  "AQL_CONCAT_SEPARATOR [JStr '','', fst (AQL_SPLIT (JStr ''a,,b'') (JStr '','') JUndef)] = ''a,,b''"
  using split_join_round_trip [of "'',''" "''a,,b''"] by simp

text \<open>
  C31: \<open>SUBSTITUTE\<close> of one search string, which goes through a regular expression built from the escaped text,
  does what splitting at the search string and joining with the replacement does. The backspace is left out: it is
  escaped to a word boundary.
\<close>

theorem substitute_is_split_join:
  assumes "t \<noteq> []" "CHR 8 \<notin> set t" "length v < 4294967295"
  shows "AQL_SUBSTITUTE (JStr v) (JStr t) (JStr r) JUndef
    = quiet (JStr (AQL_CONCAT_SEPARATOR [JStr r, fst (AQL_SPLIT (JStr v) (JStr t) JUndef)]))"
proof -
  let ?m = "literal_match t v"
  have f: "replace_loop ?m (substitute_match [(t, JStr r)]) None v q = replace_loop ?m (\<lambda>st m. (r, st)) () v q" for q
  proof (induction "length v - q" arbitrary: q rule: less_induct)
    case less
    obtain k where k: "length t = Suc k" using assms(1) by (cases t) auto
    show ?case
      using less [of "Suc q"] less [of "q + length t"]
      unfolding replace_literal_step [OF assms(1), of v _ None q] replace_literal_step [OF assms(1), of v _ "()" q]
      by (simp add: substitute_match_def k)
  qed
  have "AQL_SUBSTITUTE (JStr v) (JStr t) (JStr r) JUndef = quiet (JStr (replace_loop ?m (\<lambda>st m. (r, st)) () v 0))"
    using assms(2) by (simp add: AQL_SUBSTITUTE_def substitutions_def limit_number_def negative_limit_def
        literal_re_match replacement_string_def f)
  then show ?thesis
    using split_loop_join [OF assms(1), of 0 0 v 4294967295 r, where st = "()"] assms
    by (simp add: split_string concat_separator_list)
qed

theorem substitute_is_split_join_witness:
  "AQL_SUBSTITUTE (JStr ''a.b.c'') (JStr ''.'') (JStr '', '') JUndef
    = quiet (JStr (AQL_CONCAT_SEPARATOR [JStr '', '', fst (AQL_SPLIT (JStr ''a.b.c'') (JStr ''.'') JUndef)]))"
  by (rule substitute_is_split_join) simp_all

subsection \<open>Finding and containing\<close>

lemma sublist_match: "sublist t s \<longleftrightarrow> (\<exists>i \<le> length s. match_at t s i)"
proof -
  have "sublist t s \<longleftrightarrow> (\<exists>i. match_at t s i \<and> i \<le> length s)"
    unfolding sublist_def match_at_iff by blast
  then show ?thesis by blast
qed

text \<open>
  Without bounds \<open>FIND_FIRST\<close> and \<open>FIND_LAST\<close> return the first and the last position at which the search
  string occurs, and \<open>CONTAINS\<close> says whether a search string that is not empty occurs.
\<close>

theorem find_positions:
  "(AQL_FIND_FIRST (JStr s) (JStr t) JUndef JUndef = Fin (of_nat i) \<longleftrightarrow>
     (\<exists>ys zs. s = ys @ t @ zs \<and> length ys = i) \<and> (\<forall>ys zs. s = ys @ t @ zs \<longrightarrow> i \<le> length ys))
   \<and> (AQL_FIND_LAST (JStr s) (JStr t) JUndef JUndef = Fin (of_nat i) \<longleftrightarrow>
     (\<exists>ys zs. s = ys @ t @ zs \<and> length ys = i) \<and> (\<forall>ys zs. s = ys @ t @ zs \<longrightarrow> length ys \<le> i))
   \<and> AQL_CONTAINS (JStr s) (JStr t) JUndef = JBool (t \<noteq> [] \<and> sublist t s)"
proof -
  have ex: "(\<exists>ys zs. s = ys @ t @ zs \<and> length ys = j) \<longleftrightarrow> match_at t s j \<and> j \<le> length s" for j
    using match_at_iff [of t s j] by blast
  have all: "(\<forall>ys zs. s = ys @ t @ zs \<longrightarrow> P (length ys)) \<longleftrightarrow> (\<forall>j \<le> length s. match_at t s j \<longrightarrow> P j)" for P
    using match_at_iff [of t s] by metis
  have n: "js_indexOf s t NaN = js_indexOf s t (Fin 0)" by (simp add: js_indexOf_def)
  have e: "num_eq (js_indexOf s t (Fin 0)) (Fin (- 1)) \<longleftrightarrow> js_indexOf s t (Fin 0) = Fin (- 1)"
    by (auto simp: js_indexOf_def index_num_def split: option.split)
  have "AQL_FIND_FIRST (JStr s) (JStr t) JUndef JUndef = Fin (of_nat i) \<longleftrightarrow>
     (\<exists>ys zs. s = ys @ t @ zs \<and> length ys = i) \<and> (\<forall>ys zs. s = ys @ t @ zs \<longrightarrow> i \<le> length ys)"
    unfolding ex all [of "\<lambda>j. i \<le> j"] by (simp add: AQL_FIND_FIRST_def limit_number_def indexOf_least Let_def)
  moreover have "AQL_FIND_LAST (JStr s) (JStr t) JUndef JUndef = Fin (of_nat i) \<longleftrightarrow>
     (\<exists>ys zs. s = ys @ t @ zs \<and> length ys = i) \<and> (\<forall>ys zs. s = ys @ t @ zs \<longrightarrow> length ys \<le> i)"
    unfolding ex all [of "\<lambda>j. j \<le> i"] by (simp add: AQL_FIND_LAST_def limit_number_def lastIndexOf_greatest Let_def)
  moreover have "AQL_CONTAINS (JStr s) (JStr t) JUndef = JBool (t \<noteq> [] \<and> sublist t s)"
    by (auto simp: n e AQL_CONTAINS_def Let_def indexOf_absent sublist_match)
  ultimately show ?thesis by blast
qed

theorem find_positions_witness:
  "AQL_FIND_FIRST (JStr ''banana'') (JStr ''an'') JUndef JUndef = Fin (of_nat 1)"
  unfolding find_positions [THEN conjunct1]
proof (intro conjI allI impI)
  show "\<exists>ys zs. ''banana'' = ys @ ''an'' @ zs \<and> length ys = 1"
    by (intro exI [of _ "''b''"] exI [of _ "''ana''"]) simp
  show "1 \<le> length ys" if "''banana'' = ys @ ''an'' @ zs" for ys zs
    using that by (cases ys) auto
qed

text \<open>
  \<open>FIND_LAST\<close> with an end but no start never finds anything: the missing start makes the length of the part
  that is searched \<open>NaN\<close>.
\<close>

theorem find_last_without_start:
  assumes "AQL_TO_STRING search \<noteq> []" "stop \<noteq> JNull" "stop \<noteq> JUndef"
  shows "AQL_FIND_LAST value search JUndef stop = Fin (- 1)"
proof -
  have "positions (AQL_TO_STRING search) [] = []" using assms(1) by (simp add: positions_def match_at_def)
  moreover have "js_substr s NaN (Some (num_add (num_sub e NaN) (Fin 1))) = []" for s e
    by (cases e) (simp_all add: js_substr_def num_sub_def)
  ultimately show ?thesis using assms(2,3) by (simp add: AQL_FIND_LAST_def limit_number_def Let_def js_lastIndexOf_def)
qed

theorem find_last_without_start_witness:
  "AQL_FIND_LAST (JStr ''abcabc'') (JStr ''c'') JUndef (JNum (Fin 4)) = Fin (- 1)"
  by (rule find_last_without_start) simp_all

subsection \<open>Trimming a set of characters\<close>

lemma class_atoms_escape: "class_atoms (concat (map escape_char cs)) = cs"
proof (induction cs)
  case (Cons c cs)
  have plain: "class_atoms (c # xs) = c # class_atoms xs" if "c \<noteq> CHR 92" for xs
    using that by (cases xs) simp_all
  show ?case
    using Cons special_not_letter [of c] plain_not_special [of c]
    by (auto simp: escape_char_def escaped_char_def plain)
qed simp

lemma class_ranges_plain: "CHR ''-'' \<notin> set cs \<Longrightarrow> class_ranges cs = map (\<lambda>c. (c, c)) cs"
  by (induction cs rule: class_ranges.induct) auto

lemma char_class_plain:
  "CHR ''-'' \<notin> set cs \<Longrightarrow> char_class (CREATE_REGEX_PATTERN (JStr cs)) = Inr (ReSet (map (\<lambda>c. (c, c)) cs))"
  by (auto simp: char_class_def CREATE_REGEX_PATTERN_def class_atoms_escape class_ranges_plain)

lemma re_char_plain: "re_char False (ReSet (map (\<lambda>c. (c, c)) cs)) d \<longleftrightarrow> d \<in> set cs"
  by (auto simp: eq_iff [symmetric])

text \<open>The expressions \<open>^[...]+\<close> and \<open>[...]+$\<close>.\<close>

lemma run_length_Suc: "i < length s \<Longrightarrow> run_length P s i = (if P (s ! i) then Suc (run_length P s (Suc i)) else 0)"
  by (simp add: run_length_def Cons_nth_drop_Suc [symmetric])

lemma match_prefix:
  "re_match False (ReSeq ReStart (RePlus r)) s i =
     (if i = 0 \<and> 0 < run_length (re_char False r) s 0 then Some (run_length (re_char False r) s 0) else None)"
  by (simp add: re_match_def)

lemma run_length_all: "i \<le> length s \<Longrightarrow> run_length P s i = length s - i \<longleftrightarrow> (\<forall>c \<in> set (drop i s). P c)"
proof
  assume "i \<le> length s" "run_length P s i = length s - i"
  then have "takeWhile P (drop i s) = drop i s"
    unfolding run_length_def by (metis length_drop takeWhile_eq_take take_all_iff order_refl)
  then show "\<forall>c \<in> set (drop i s). P c" by (metis set_takeWhileD)
qed (simp add: run_length_def takeWhile_eq_all_conv [THEN iffD2])

lemma run_length_le: "run_length P s i \<le> length s - i"
  unfolding run_length_def by (metis length_takeWhile_le length_drop)

lemma match_suffix:
  assumes "i \<le> length s"
  shows "re_match False (ReSeq (RePlus r) ReEnd) s i =
     (if i < length s \<and> (\<forall>c \<in> set (drop i s). re_char False r c) then Some (length s - i) else None)"
proof -
  let ?n = "run_length (re_char False r) s i"
  have single: "filter (\<lambda>x. x = k) xs = (if k \<in> set xs then [k] else [])" if "distinct xs" for k :: nat and xs
    using that by (induction xs) auto
  have "concat (map (\<lambda>n. if i + n = length s then [i + n] else []) xs) = map (\<lambda>n. i + n) (filter (\<lambda>n. n = length s - i) xs)" for xs
    using assms by (induction xs) auto
  then have "re_ends False s (ReSeq (RePlus r) ReEnd) i
      = map (\<lambda>n. i + n) (filter (\<lambda>n. n = length s - i) (rev [1..<Suc ?n]))"
    by (simp add: comp_def del: upt_Suc)
  also have "\<dots> = (if 0 < length s - i \<and> length s - i \<le> ?n then [length s] else [])"
    using assms by (subst single) (auto simp del: upt_Suc)
  also have "length s - i \<le> ?n \<longleftrightarrow> (\<forall>c \<in> set (drop i s). re_char False r c)"
    using run_length_all [OF assms] run_length_le [of "re_char False r" s i] by (metis le_antisym order_refl)
  finally show ?thesis by (auto simp: re_match_def)
qed

definition strip_end :: "('a \<Rightarrow> bool) \<Rightarrow> 'a list \<Rightarrow> 'a list" where
  "strip_end P xs = rev (dropWhile P (rev xs))"

lemma strip_end_Nil [simp]: "strip_end P [] = []"
  by (simp add: strip_end_def)

lemma strip_end_Cons: "strip_end P (x # xs) = (if \<forall>c \<in> set (x # xs). P c then [] else x # strip_end P xs)"
  by (auto simp: strip_end_def dropWhile_append)

lemma strip_end_all: "\<forall>c \<in> set xs. P c \<Longrightarrow> strip_end P xs = []"
  by (cases xs) (simp_all add: strip_end_Cons)

lemma replace_end: "m (length s) = None \<Longrightarrow> replace_loop m f st s (length s) = []"
  by (subst replace_loop.simps) (simp add: piece_def replace_loop.simps)

lemma replace_skip: "q < length s \<Longrightarrow> m q = None \<Longrightarrow> replace_loop m f st s q = s ! q # replace_loop m f st s (Suc q)"
  by (subst replace_loop.simps) (simp add: piece_def Cons_nth_drop_Suc [symmetric])

lemma replace_none:
  "q \<le> length s \<Longrightarrow> \<forall>i. q \<le> i \<and> i \<le> length s \<longrightarrow> m i = None \<Longrightarrow> replace_loop m f st s q = drop q s"
proof (induction "length s - q" arbitrary: q)
  case 0
  then have "q = length s" by simp
  then show ?case using 0 by (simp add: replace_end)
next
  case (Suc n)
  then have "replace_loop m f st s (Suc q) = drop (Suc q) s" by (intro Suc.hyps) auto
  then show ?case using Suc by (simp add: replace_skip Cons_nth_drop_Suc)
qed

lemma replace_suffix:
  "q \<le> length s \<Longrightarrow> \<forall>i. q \<le> i \<and> i \<le> length s \<longrightarrow>
      m i = (if i < length s \<and> (\<forall>c \<in> set (drop i s). P c) then Some (length s - i) else None) \<Longrightarrow>
    replace_loop m (\<lambda>st match. ([], st)) st s q = strip_end P (drop q s)"
proof (induction "length s - q" arbitrary: q)
  case 0
  then have "q = length s" by simp
  then show ?case using 0 by (simp add: replace_end)
next
  case (Suc n)
  then have q: "q < length s" by simp
  have step: "drop q s = s ! q # drop (Suc q) s" using q by (simp add: Cons_nth_drop_Suc)
  have m: "m q = (if \<forall>c \<in> set (drop q s). P c then Some (length s - q) else None)" "m (length s) = None"
    using Suc.prems q by simp_all
  show ?case
  proof (cases "\<forall>c \<in> set (drop q s). P c")
    case True
    then have "replace_loop m (\<lambda>st match. ([], st)) st s q = replace_loop m (\<lambda>st match. ([], st)) st s (length s)"
      using q m(1) by (subst replace_loop.simps) simp
    then show ?thesis using True by (simp add: replace_end m(2) strip_end_all)
  next
    case False
    have "replace_loop m (\<lambda>st match. ([], st)) st s (Suc q) = strip_end P (drop (Suc q) s)"
      using Suc q by (intro Suc.hyps) auto
    moreover have "strip_end P (drop q s) = s ! q # strip_end P (drop (Suc q) s)"
      using False unfolding step strip_end_Cons by simp
    ultimately show ?thesis using q False m(1) by (simp add: replace_skip)
  qed
qed

lemma drop_run: "drop (run_length P s 0) s = dropWhile P s"
  by (simp add: run_length_def dropWhile_eq_drop)

text \<open>The three expressions delete a prefix, a suffix and both.\<close>

lemma delete_prefix: "delete_matches (ReSeq ReStart (RePlus r)) s = dropWhile (re_char False r) s"
proof -
  let ?m = "re_match False (ReSeq ReStart (RePlus r)) s" and ?n = "run_length (re_char False r) s 0"
  have n: "?n \<le> length s" using run_length_le [of "re_char False r" s 0] by simp
  show ?thesis
  proof (cases "?n = 0")
    case True
    then have "replace_loop ?m (\<lambda>st match. ([], st)) () s 0 = drop 0 s"
      by (intro replace_none) (auto simp: match_prefix)
    then show ?thesis using True drop_run [of "re_char False r" s] by (simp add: delete_matches_def)
  next
    case False
    have "replace_loop ?m (\<lambda>st match. ([], st)) () s ?n = drop ?n s"
      by (rule replace_none [OF n]) (use False in \<open>auto simp: match_prefix\<close>)
    then show ?thesis
      using False unfolding delete_matches_def drop_run by (subst replace_loop.simps) (simp add: match_prefix)
  qed
qed

lemma delete_suffix: "delete_matches (ReSeq (RePlus r) ReEnd) s = strip_end (re_char False r) s"
  unfolding delete_matches_def
  by (subst replace_suffix [where P = "re_char False r"]) (simp_all add: match_suffix del: re_ends.simps)

lemma match_both:
  "re_match False (ReAlt (ReSeq ReStart (RePlus r)) (ReSeq (RePlus r) ReEnd)) s i =
    (case re_match False (ReSeq ReStart (RePlus r)) s i of Some n \<Rightarrow> Some n
     | None \<Rightarrow> re_match False (ReSeq (RePlus r) ReEnd) s i)"
  by (simp add: re_match_def split: list.split)

lemma delete_both:
  "delete_matches (ReAlt (ReSeq ReStart (RePlus r)) (ReSeq (RePlus r) ReEnd)) s
    = strip_end (re_char False r) (dropWhile (re_char False r) s)"
proof -
  let ?m = "re_match False (ReAlt (ReSeq ReStart (RePlus r)) (ReSeq (RePlus r) ReEnd)) s" and ?P = "re_char False r"
  let ?n = "run_length ?P s 0"
  have n: "?n \<le> length s" using run_length_le [of ?P s 0] by simp
  have m: "?m i = (if i < length s \<and> (\<forall>c \<in> set (drop i s). ?P c) then Some (length s - i) else None)"
    if "i \<le> length s" "0 < i \<or> ?n = 0" for i
    using that by (auto simp: match_both match_prefix match_suffix)
  show ?thesis
  proof (cases "?n = 0")
    case True
    have "replace_loop ?m (\<lambda>st match. ([], st)) () s 0 = strip_end ?P (drop 0 s)"
      by (rule replace_suffix) (use m True in auto)
    then show ?thesis using True drop_run [of ?P s] by (simp add: delete_matches_def)
  next
    case False
    have "replace_loop ?m (\<lambda>st match. ([], st)) () s ?n = strip_end ?P (drop ?n s)"
      by (rule replace_suffix [OF n]) (use m False in auto)
    moreover have "?m 0 = Some ?n" using False by (simp add: match_both match_prefix)
    ultimately show ?thesis
      using False unfolding delete_matches_def drop_run by (subst replace_loop.simps) simp
  qed
qed

text \<open>
  C33: With a set of characters that contains no dash \<open>LTRIM\<close>, \<open>RTRIM\<close> and \<open>TRIM\<close> remove the characters of
  the set from the start, the end and both ends of the string, whatever the characters mean in a regular expression.
\<close>

theorem trim_strips:
  assumes "CHR ''-'' \<notin> set cs"
  shows "AQL_LTRIM (JStr s) (JStr cs) = Inr (dropWhile (\<lambda>c. c \<in> set cs) s)
    \<and> AQL_RTRIM (JStr s) (JStr cs) = Inr (rev (dropWhile (\<lambda>c. c \<in> set cs) (rev s)))
    \<and> AQL_TRIM (JStr s) (JStr cs) = Inr (rev (dropWhile (\<lambda>c. c \<in> set cs) (rev (dropWhile (\<lambda>c. c \<in> set cs) s))))"
proof -
  have P: "re_char False (ReSet (map (\<lambda>c. (c, c)) cs)) = (\<lambda>c. c \<in> set cs)" by (rule ext) (rule re_char_plain)
  note defs = trim_with_def trim_class_def char_class_plain [OF assms]
  have "AQL_LTRIM (JStr s) (JStr cs) = Inr (dropWhile (\<lambda>c. c \<in> set cs) s)"
    unfolding AQL_LTRIM_def defs by (simp add: delete_prefix P del: re_char.simps)
  moreover have "AQL_RTRIM (JStr s) (JStr cs) = Inr (rev (dropWhile (\<lambda>c. c \<in> set cs) (rev s)))"
    unfolding AQL_RTRIM_def defs by (simp add: delete_suffix P strip_end_def del: re_char.simps)
  moreover have "AQL_TRIM (JStr s) (JStr cs) = Inr (rev (dropWhile (\<lambda>c. c \<in> set cs) (rev (dropWhile (\<lambda>c. c \<in> set cs) s))))"
    by (simp add: AQL_TRIM_def defs delete_both P strip_end_def del: re_char.simps)
  ultimately show ?thesis by blast
qed

theorem trim_strips_witness:
  "AQL_TRIM (JStr ''[x.y].'') (JStr ''.[]'') = Inr ''x.y''"
  by (subst trim_strips) simp_all

text \<open>
  The escaped text leaves a dash as it is, and between brackets a dash makes a range: \<open>TRIM("b", "a-c")\<close>
  is empty, and \<open>TRIM("b", "c-a")\<close> raises the syntax error of the regular expression.
\<close>

theorem trim_dash_range:
  "AQL_TRIM (JStr ''b'') (JStr ''a-c'') = Inr [] \<and> AQL_TRIM (JStr ''b'') (JStr ''c-a'') = Inl SyntaxError"
  by code_simp

subsection \<open>Wildcards\<close>

text \<open>
  What a \<open>LIKE\<close> pattern asks for: a percent sign any characters within a line, an underscore one of them, and
  every other character itself. A backslash before one of these, a backslash or a character that is special in
  regular expressions is an escape; before another character it is itself, and at the end it is nothing.
\<close>

datatype like_item = LikeChar char | LikeOne | LikeAny

definition like_item :: "char \<Rightarrow> like_item" where
  "like_item c = (if c = CHR ''%'' then LikeAny else if c = CHR ''_'' then LikeOne else LikeChar c)"

fun like_items :: "string \<Rightarrow> like_item list" where
  "like_items [] = []"
| "like_items [c] = (if c = CHR 92 then [] else [like_item c])"
| "like_items (c # d # cs) =
     (if c = CHR 92
      then (if d \<in> {CHR ''%'', CHR ''_''} \<or> special_char d then [LikeChar d] else [LikeChar c, LikeChar d]) @ like_items cs
      else like_item c # like_items (d # cs))"

definition in_line :: "char \<Rightarrow> bool" where
  "in_line c \<longleftrightarrow> c \<notin> {CHR 10, CHR 13}"

fun like_part :: "bool \<Rightarrow> like_item \<Rightarrow> string \<Rightarrow> bool" where
  "like_part ic (LikeChar c) part \<longleftrightarrow> (\<exists>d \<in> set part. part = [d] \<and> (c = d \<or> (ic \<and> canonical c = canonical d)))"
| "like_part ic LikeOne part \<longleftrightarrow> length part = 1 \<and> list_all in_line part"
| "like_part ic LikeAny part \<longleftrightarrow> list_all in_line part"

fun item_re :: "like_item \<Rightarrow> re" where
  "item_re (LikeChar c) = ReChar c"
| "item_re LikeOne = ReAny"
| "item_re LikeAny = ReStar ReAny"

lemma sequence_items_dot: "hd (cs @ [CHR ''a'']) \<noteq> CHR ''*'' \<Longrightarrow> sequence_items (CHR ''.'' # cs) = ReAny # sequence_items cs"
  by (cases cs) simp_all

lemma compile_like_start: "hd (compile_like False cs @ [CHR ''a'']) \<noteq> CHR ''*''"
proof (cases cs)
  case (Cons c cs)
  have "hd (compile_like True cs @ [CHR ''a'']) \<noteq> CHR ''*''"
    by (cases cs) (auto simp: special_char_def)
  then show ?thesis using Cons plain_not_special [of c] by auto
qed simp

lemma compile_plain:
  "c \<noteq> CHR 92 \<Longrightarrow> sequence_items (compile_like False (c # cs)) = item_re (like_item c) # sequence_items (compile_like False cs)"
  using special_not_letter [of c] plain_not_special [of c] compile_like_start [of cs]
  by (auto simp: like_item_def escaped_char_def sequence_items_plain sequence_items_dot)

lemma compile_escaped:
  "sequence_items (compile_like True (d # cs)) =
    map item_re (if d \<in> {CHR ''%'', CHR ''_''} \<or> special_char d then [LikeChar d] else [LikeChar (CHR 92), LikeChar d])
      @ sequence_items (compile_like False cs)"
proof (cases "d = CHR 92")
  case True
  then show ?thesis by (simp add: special_char_def escaped_char_def)
next
  case False
  then show ?thesis
    using special_not_letter [of d] plain_not_special [of d]
    by (auto simp: escaped_char_def sequence_items_plain)
qed

lemma sequence_items_like: "sequence_items (compile_like False p) = map item_re (like_items p)"
proof (induction p rule: like_items.induct)
  case (2 c)
  show ?case using compile_plain [of c "[]"] by (cases "c = CHR 92") simp_all
next
  case (3 c d cs)
  show ?case
  proof (cases "c = CHR 92")
    case True
    then have "compile_like False (c # d # cs) = compile_like True (d # cs)" by simp
    then show ?thesis using 3 True by (simp only: compile_escaped) simp
  next
    case False
    then have "like_items (c # d # cs) = like_item c # like_items (d # cs)" by simp
    then show ?thesis using 3(2) [OF False] by (simp only: compile_plain [OF False] list.map)
  qed
qed simp

lemma takeWhile_length_iff: "n \<le> length xs \<Longrightarrow> n \<le> length (takeWhile P xs) \<longleftrightarrow> list_all P (take n xs)"
proof (induction xs arbitrary: n)
  case (Cons x xs)
  then show ?case by (cases n) auto
qed simp

lemma run_length_iff:
  "i + n \<le> length s \<Longrightarrow> n \<le> run_length P s i \<longleftrightarrow> list_all P (piece s i (i + n))"
  by (simp add: run_length_def piece_def takeWhile_length_iff)

lemma run_length_bound: "n \<le> run_length P s i \<Longrightarrow> i \<le> length s \<Longrightarrow> i + n \<le> length s"
  using length_takeWhile_le [of P "drop i s"] by (simp add: run_length_def)

lemma length_piece: "e \<le> length s \<Longrightarrow> length (piece s i e) = e - i"
  by (simp add: piece_def)

lemma piece_single: "i \<le> e \<and> e \<le> length s \<and> piece s i e = [d] \<longleftrightarrow> i < length s \<and> e = Suc i \<and> s ! i = d"
proof
  assume a: "i \<le> e \<and> e \<le> length s \<and> piece s i e = [d]"
  then have "length (piece s i e) = e - i" by (blast intro: length_piece)
  moreover have "length (piece s i e) = 1" using a by simp
  ultimately have "e = Suc i" using a by linarith
  moreover have "i < length s" using a calculation by simp
  ultimately show "i < length s \<and> e = Suc i \<and> s ! i = d" using a by (auto simp: piece_def Cons_nth_drop_Suc [symmetric])
qed (auto simp: piece_def take_Suc hd_drop_conv_nth)

lemma like_part_ends:
  assumes "i \<le> length s"
  shows "e \<in> set (re_ends ic s (item_re it) i) \<longleftrightarrow> i \<le> e \<and> e \<le> length s \<and> like_part ic it (piece s i e)"
proof (cases it)
  case LikeAny
  have p: "(\<lambda>d. re_char ic ReAny d) = in_line" by (rule ext) (simp add: in_line_def)
  have "e \<in> set (re_ends ic s (ReStar ReAny) i) \<longleftrightarrow> i \<le> e \<and> e - i \<le> run_length in_line s i"
    by (auto simp: p less_Suc_eq_le simp del: upt_Suc)
  also have "\<dots> \<longleftrightarrow> i \<le> e \<and> e \<le> length s \<and> list_all in_line (piece s i e)"
    using run_length_iff [of i "e - i" s in_line] run_length_bound [of "e - i" in_line s i] assms by auto
  finally show ?thesis using LikeAny by simp
next
  case LikeOne
  have "i \<le> e \<and> e \<le> length s \<and> like_part ic LikeOne (piece s i e)
    \<longleftrightarrow> (\<exists>d. (i \<le> e \<and> e \<le> length s \<and> piece s i e = [d]) \<and> in_line d)"
    by (auto simp: length_Suc_conv)
  then show ?thesis unfolding piece_single using LikeOne by (auto simp: in_line_def)
next
  case (LikeChar c)
  have "i \<le> e \<and> e \<le> length s \<and> like_part ic (LikeChar c) (piece s i e)
    \<longleftrightarrow> (\<exists>d. (i \<le> e \<and> e \<le> length s \<and> piece s i e = [d]) \<and> (c = d \<or> (ic \<and> canonical c = canonical d)))"
    by auto
  then show ?thesis unfolding piece_single using LikeChar by auto
qed

definition like_split :: "bool \<Rightarrow> like_item list \<Rightarrow> string \<Rightarrow> bool" where
  "like_split ic its s \<longleftrightarrow> (\<exists>parts. list_all2 (like_part ic) its parts \<and> concat parts = s)"

lemma like_split_Nil [simp]: "like_split ic [] s \<longleftrightarrow> s = []"
  by (auto simp: like_split_def)

lemma like_split_Cons: "like_split ic (it # its) s \<longleftrightarrow> (\<exists>p r. s = p @ r \<and> like_part ic it p \<and> like_split ic its r)"
proof
  assume "like_split ic (it # its) s"
  then show "\<exists>p r. s = p @ r \<and> like_part ic it p \<and> like_split ic its r"
    unfolding like_split_def list_all2_Cons1 by (metis concat.simps(2))
next
  assume "\<exists>p r. s = p @ r \<and> like_part ic it p \<and> like_split ic its r"
  then obtain p parts where "s = p @ concat parts" "like_part ic it p" "list_all2 (like_part ic) its parts"
    by (auto simp: like_split_def)
  then have "list_all2 (like_part ic) (it # its) (p # parts) \<and> concat (p # parts) = s" by simp
  then show "like_split ic (it # its) s" unfolding like_split_def by blast
qed

lemma piece_all: "piece s 0 (length s) = s"
  by (simp add: piece_def)

lemma piece_split:
  assumes "i \<le> e" "e \<le> length s" "piece s i e = p @ r"
  obtains m where "i \<le> m" "m \<le> e" "piece s i m = p" "piece s m e = r"
proof
  have l: "length (piece s i e) = e - i" using assms(2) by (simp add: piece_def)
  then have n: "length p + length r = e - i" using assms(3) by simp
  then show "i \<le> i + length p" "i + length p \<le> e" using assms(1) by simp_all
  have "piece s i (i + length p) = take (length p) (piece s i e)"
    using n by (simp add: piece_def min_def)
  then show p: "piece s i (i + length p) = p" by (simp add: assms(3))
  have "p @ piece s (i + length p) e = p @ r"
    using piece_append [of i "i + length p" e s] p n assms(1,3) by simp
  then show "piece s (i + length p) e = r" by simp
qed

lemma ends_split:
  "i \<le> length s \<Longrightarrow>
   length s \<in> set (re_ends ic s (re_sequence (map item_re its @ [ReEnd])) i) \<longleftrightarrow> like_split ic its (drop i s)"
proof (induction its arbitrary: i)
  case Nil
  then show ?case by auto
next
  case (Cons it its)
  have d: "piece s i (length s) = drop i s" by (simp add: piece_def)
  have "length s \<in> set (re_ends ic s (re_sequence (map item_re (it # its) @ [ReEnd])) i) \<longleftrightarrow>
    (\<exists>m. i \<le> m \<and> m \<le> length s \<and> like_part ic it (piece s i m) \<and> like_split ic its (drop m s))"
    using Cons.IH by (auto simp: like_part_ends [OF Cons.prems])
  also have "\<dots> \<longleftrightarrow> like_split ic (it # its) (drop i s)"
  proof
    assume "\<exists>m. i \<le> m \<and> m \<le> length s \<and> like_part ic it (piece s i m) \<and> like_split ic its (drop m s)"
    then show "like_split ic (it # its) (drop i s)"
      unfolding like_split_Cons using piece_drop by metis
  next
    assume "like_split ic (it # its) (drop i s)"
    then obtain p r where s: "piece s i (length s) = p @ r" "like_part ic it p" "like_split ic its r"
      by (auto simp: like_split_Cons d)
    obtain m where "i \<le> m" "m \<le> length s" "piece s i m = p" "piece s m (length s) = r"
      using piece_split [OF Cons.prems order_refl s(1)] by metis
    then show "\<exists>m. i \<le> m \<and> m \<le> length s \<and> like_part ic it (piece s i m) \<and> like_split ic its (drop m s)"
      using s by (auto simp: piece_def)
  qed
  finally show ?case .
qed

lemma ends_only_length: "e \<in> set (re_ends ic s (re_sequence (rs @ [ReEnd])) i) \<Longrightarrow> e = length s"
  by (induction rs arbitrary: i) (auto split: if_splits)

lemma re_match_some: "re_match ic r s i \<noteq> None \<longleftrightarrow> set (re_ends ic s r i) \<noteq> {}"
  by (auto simp: re_match_def split: list.splits)

lemma test_anchored:
  "re_test ic (ReSeq ReStart (re_sequence (rs @ [ReEnd]))) s \<longleftrightarrow> length s \<in> set (re_ends ic s (re_sequence (rs @ [ReEnd])) 0)"
proof -
  have "re_test ic (ReSeq ReStart (re_sequence (rs @ [ReEnd]))) s \<longleftrightarrow> set (re_ends ic s (re_sequence (rs @ [ReEnd])) 0) \<noteq> {}"
    unfolding re_test_def re_match_some by (auto simp del: upt_Suc split: if_splits)
  moreover have "set (re_ends ic s (re_sequence (rs @ [ReEnd])) 0) \<subseteq> {length s}"
    using ends_only_length [of _ ic s rs 0] by blast
  ultimately show ?thesis by (metis empty_iff insertI1 subset_singletonD)
qed

text \<open>
  C32: \<open>LIKE\<close> refines its specification: the expression that is compiled from a pattern accepts exactly the
  strings that can be cut into consecutive parts, one for every wildcard and character of the pattern, such that
  every part fits its item. All escapes are covered, and the flag for the case. The patterns that the cache
  inherits a value for are left out.
\<close>

theorem like_matches:
  assumes "p \<notin> set inherited_names"
  shows "AQL_LIKE (JStr v) (JStr p) caseInsensitive = quiet
     (\<exists>parts. list_all2 (like_part (js_truthy caseInsensitive)) (like_items p) parts \<and> concat parts = v)"
  using assms ends_split [of 0 v "js_truthy caseInsensitive" "like_items p"]
  by (simp add: AQL_LIKE_def COMPILE_REGEX_def AQL_TO_STRING.simps sequence_items_like test_anchored like_split_def)

theorem like_matches_witness: "AQL_LIKE (JStr ''A.long.c'') (JStr ''a.%_c'') (JBool True) = quiet True"
proof -
  have "list_all2 (like_part (js_truthy (JBool True))) (like_items ''a.%_c'') [''A'', ''.'', ''long'', ''.'', ''c'']"
    by code_simp
  moreover have "concat [''A'', ''.'', ''long'', ''.'', ''c''] = ''A.long.c''" by simp
  moreover have "''a.%_c'' \<notin> set inherited_names" by (simp add: inherited_names_def)
  ultimately show ?thesis by (subst like_matches) blast+
qed

subsection \<open>Corner cases\<close>

text \<open>The pattern \<open>constructor\<close> does not match the string \<open>constructor\<close>, and is reported as invalid.\<close>

lemma like_inherited_name:
  "AQL_LIKE (JStr ''constructor'') (JStr ''constructor'') JUndef = (False, [WARN (Some ''LIKE'') ERROR_QUERY_INVALID_REGEX None])"
  by code_simp

lemma like_not_across_lines:
  "AQL_LIKE (JStr [CHR ''a'', CHR 10, CHR ''b'']) (JStr ''a%b'') (JBool False) = quiet False"
  by code_simp

lemma right_fraction: "AQL_RIGHT (JStr ''abcd'') (JNum (Fin (5 / 2))) = ''bc''"
  by code_simp

lemma separator_after_empty_list: "AQL_CONCAT_SEPARATOR [JStr '','', JStr ''a'', JArr []] = ''a,''"
  by code_simp

lemma substitute_other_search:
  "AQL_SUBSTITUTE (JStr ''ab'') (JNum (Fin 1)) (JStr ''x'') JUndef = quiet (JStr ''undefinedaundefinedbundefined'')"
  by code_simp

end
