(* ===== verification/Binary_Heap.thy ===== *)
theory Binary_Heap
  imports Arango_Prelude JS_Number
begin

text \<open>
  The binary min heap of \<open>js/common/modules/org/arangodb/heap.js\<close>: an array of elements and a score
  function that returns a number. The code's names are kept: \<open>_sinkDown\<close> moves an element towards
  the root, \<open>_bubbleUp\<close> away from it. The elements are compared by identity only in \<open>indexOf\<close>.
\<close>

subsection \<open>The interface\<close>

text \<open>
  What a search expects of its queue: a multiset of elements of which \<open>pop\<close> takes one with the least
  score. Elements without a proper score are not valid.
\<close>

locale priority_queue =
  fixes empty :: 'q
    and push :: "'a \<Rightarrow> 'q \<Rightarrow> 'q"
    and pop :: "'q \<Rightarrow> ('a \<times> 'q) option"
    and elems :: "'q \<Rightarrow> 'a multiset"
    and invar :: "'q \<Rightarrow> bool"
    and valid :: "'a \<Rightarrow> bool"
    and score :: "'a \<Rightarrow> 's :: linorder"
  assumes elems_empty: "elems empty = {#}"
    and invar_empty: "invar empty"
    and elems_push: "elems (push x q) = add_mset x (elems q)"
    and invar_push: "invar q \<Longrightarrow> valid x \<Longrightarrow> invar (push x q)"
    and pop_None: "pop q = None \<longleftrightarrow> elems q = {#}"
    and pop_elems: "pop q = Some (x, q') \<Longrightarrow> elems q = add_mset x (elems q')"
    and pop_invar: "invar q \<Longrightarrow> pop q = Some (x, q') \<Longrightarrow> invar q'"
    and pop_min: "invar q \<Longrightarrow> pop q = Some (x, q') \<Longrightarrow> y \<in># elems q \<Longrightarrow> score x \<le> score y"
begin

lemma pop_nonempty: "elems q \<noteq> {#} \<Longrightarrow> \<exists>x q'. pop q = Some (x, q')"
  using pop_None [of q] by (cases "pop q") auto

lemma pop_size: "pop q = Some (x, q') \<Longrightarrow> size (elems q') < size (elems q)"
  by (simp add: pop_elems)

lemma invar_pushes: "invar q \<Longrightarrow> list_all valid xs \<Longrightarrow> invar (fold push xs q)"
  by (induction xs arbitrary: q) (simp_all add: invar_push)

lemma elems_pushes: "elems (fold push xs q) = mset xs + elems q"
  by (induction xs arbitrary: q) (simp_all add: elems_push)

text \<open>Emptying the queue \<open>n\<close> times gives its least elements in ascending order of score.\<close>

lemma drain_sorted:
  assumes step: "\<And>n q. drain (Suc n) q = (case pop q of None \<Rightarrow> [] | Some (x, q') \<Rightarrow> x # drain n q')"
    and zero: "\<And>q. drain 0 q = []" and "invar q" "size (elems q) \<le> n"
  shows "sorted (map score (drain n q)) \<and> mset (drain n q) = elems q"
  using assms(3,4)
proof (induction n arbitrary: q)
  case 0
  then show ?case by (simp add: zero)
next
  case (Suc n)
  show ?case
  proof (cases "pop q")
    case None
    then show ?thesis using pop_None [of q] by (simp add: step)
  next
    case (Some p)
    obtain x q' where p: "pop q = Some (x, q')" using Some by (cases p) auto
    have IH: "sorted (map score (drain n q')) \<and> mset (drain n q') = elems q'"
      using Suc.IH [of q'] Suc.prems pop_invar [OF _ p] pop_size [OF p] by simp
    have "score x \<le> score y" if "y \<in> set (drain n q')" for y
    proof -
      have "y \<in># elems q" using that IH pop_elems [OF p] by (metis set_mset_mset union_iff insert_iff set_mset_add_mset_insert)
      then show ?thesis by (rule pop_min [OF Suc.prems(1) p])
    qed
    then show ?thesis using IH by (simp add: step p pop_elems [OF p])
  qed
qed

end

subsection \<open>The heap\<close>

record 'a BinaryHeap =
  heap_values :: "'a list"
  scoreFunction :: "'a \<Rightarrow> jsnum"

definition parentN :: "nat \<Rightarrow> nat" where
  "parentN n = (n + 1) div 2 - 1"

lemma parentN_less [termination_simp]: "0 < n \<Longrightarrow> parentN n < n"
  by (auto simp: parentN_def)

text \<open>The loop of \<open>_sinkDown\<close>; the swap writes the parent's slot first.\<close>

function sink_loop :: "('a \<Rightarrow> jsnum) \<Rightarrow> 'a \<Rightarrow> 'a list \<Rightarrow> nat \<Rightarrow> 'a list" where
  "sink_loop score element vs n =
     (if n > 0
      then let parent = vs ! parentN n
           in if num_lt (score element) (score parent)
              then sink_loop score element (vs[parentN n := element, n := parent]) (parentN n)
              else vs
      else vs)"
  by pat_completeness auto
termination
  by (relation "measure (\<lambda>(_, _, _, n). n)") (auto simp: parentN_less)

definition sinkDown :: "('a \<Rightarrow> jsnum) \<Rightarrow> 'a list \<Rightarrow> nat \<Rightarrow> 'a list" where
  "sinkDown score vs n = sink_loop score (vs ! n) vs n"

text \<open>The child that \<open>_bubbleUp\<close> swaps with: \<open>None\<close> is the code's \<open>swap === null\<close>.\<close>

definition swap_child :: "('a \<Rightarrow> jsnum) \<Rightarrow> 'a \<Rightarrow> 'a list \<Rightarrow> nat \<Rightarrow> nat option" where
  "swap_child score element vs n =
     (let child2n = (n + 1) * 2; child1n = child2n - 1;
          swap = (if child1n < length vs \<and> num_lt (score (vs ! child1n)) (score element) then Some child1n else None)
      in if child2n < length vs
            \<and> num_lt (score (vs ! child2n)) (if swap = None then score element else score (vs ! child1n))
         then Some child2n else swap)"

lemma swap_child_bounds:
  "swap_child score element vs n = Some s \<Longrightarrow> n < s \<and> s < length vs \<and> 0 < s \<and> parentN s = n"
  by (auto simp: swap_child_def Let_def parentN_def split: if_splits)

function bubble_loop :: "('a \<Rightarrow> jsnum) \<Rightarrow> 'a \<Rightarrow> 'a list \<Rightarrow> nat \<Rightarrow> 'a list" where
  "bubble_loop score element vs n = (case swap_child score element vs n of
      Some swap \<Rightarrow> bubble_loop score element (vs[n := vs ! swap, swap := element]) swap
    | None \<Rightarrow> vs)"
  by pat_completeness auto
termination
  by (relation "measure (\<lambda>(_, _, vs, n). length vs - n)") (auto dest!: swap_child_bounds)

definition bubbleUp :: "('a \<Rightarrow> jsnum) \<Rightarrow> 'a list \<Rightarrow> nat \<Rightarrow> 'a list" where
  "bubbleUp score vs n = bubble_loop score (vs ! n) vs n"

declare sink_loop.simps [simp del] bubble_loop.simps [simp del]

definition heap_new :: "('a \<Rightarrow> jsnum) \<Rightarrow> 'a BinaryHeap" where
  "heap_new scoreFn = \<lparr>heap_values = [], scoreFunction = scoreFn\<rparr>"

definition heap_push :: "'a \<Rightarrow> 'a BinaryHeap \<Rightarrow> 'a BinaryHeap" where
  "heap_push element h =
     (let vs = heap_values h @ [element]
      in h\<lparr>heap_values := sinkDown (scoreFunction h) vs (length vs - 1)\<rparr>)"

text \<open>\<open>None\<close> is the \<open>undefined\<close> that popping an empty heap returns.\<close>

definition heap_pop :: "'a BinaryHeap \<Rightarrow> ('a \<times> 'a BinaryHeap) option" where
  "heap_pop h = (case heap_values h of
      [] \<Rightarrow> None
    | result # _ \<Rightarrow>
        (let end = last (heap_values h); vs = butlast (heap_values h)
         in Some (result, h\<lparr>heap_values :=
              if length vs > 0 then bubbleUp (scoreFunction h) (vs[0 := end]) 0 else vs\<rparr>)))"

definition heap_size :: "'a BinaryHeap \<Rightarrow> nat" where
  "heap_size h = length (heap_values h)"

fun index_of :: "'a \<Rightarrow> 'a list \<Rightarrow> nat option" where
  "index_of node [] = None"
| "index_of node (x # xs) = (if x = node then Some 0 else map_option Suc (index_of node xs))"

text \<open>\<open>this.values[i] = end\<close> extends the array when \<open>i\<close> is its length.\<close>

definition array_put :: "'a list \<Rightarrow> nat \<Rightarrow> 'a \<Rightarrow> 'a list" where
  "array_put vs i x = (if i < length vs then vs[i := x] else vs @ [x])"

text \<open>\<open>remove\<close> of an element of the heap; the code assumes that it is one (\<open>None\<close> otherwise).\<close>

definition heap_remove :: "'a \<Rightarrow> 'a BinaryHeap \<Rightarrow> 'a BinaryHeap option" where
  "heap_remove node h = (case index_of node (heap_values h) of
      None \<Rightarrow> None
    | Some i \<Rightarrow>
        (let end = last (heap_values h); vs = butlast (heap_values h); score = scoreFunction h
         in Some (h\<lparr>heap_values :=
              if int i \<noteq> int (length vs) - 1
              then (let vs' = array_put vs i end
                    in if num_lt (score end) (score node) then sinkDown score vs' i else bubbleUp score vs' i)
              else vs\<rparr>)))"

definition rescoreElement :: "'a \<Rightarrow> 'a BinaryHeap \<Rightarrow> 'a BinaryHeap" where
  "rescoreElement node h = (case index_of node (heap_values h) of
      None \<Rightarrow> h
    | Some i \<Rightarrow> h\<lparr>heap_values := sinkDown (scoreFunction h) (heap_values h) i\<rparr>)"

subsection \<open>Order of the array\<close>

lemma parentN_child: "0 < c \<Longrightarrow> parentN c = n \<longleftrightarrow> c = 2 * n + 1 \<or> c = 2 * n + 2"
  by (auto simp: parentN_def)

text \<open>
  The pairs of a slot and its parent that are in order, all but the ones an exception names; a slot
  is compared with a parent slot \<open>p\<close>.
\<close>

definition in_order :: "('a \<Rightarrow> jsnum) \<Rightarrow> 'a list \<Rightarrow> nat \<Rightarrow> nat \<Rightarrow> bool" where
  "in_order score vs p c \<longleftrightarrow> score (vs ! p) \<le> score (vs ! c)"

definition heap_ordered :: "('a \<Rightarrow> jsnum) \<Rightarrow> 'a list \<Rightarrow> bool" where
  "heap_ordered score vs \<longleftrightarrow> (\<forall>c. 0 < c \<and> c < length vs \<longrightarrow> in_order score vs (parentN c) c)"

text \<open>Everything but slot \<open>n\<close> against its parent, and the children of \<open>n\<close> against its parent.\<close>

definition sink_inv :: "('a \<Rightarrow> jsnum) \<Rightarrow> 'a list \<Rightarrow> nat \<Rightarrow> bool" where
  "sink_inv score vs n \<longleftrightarrow>
     (\<forall>c. 0 < c \<and> c < length vs \<and> c \<noteq> n \<longrightarrow> in_order score vs (parentN c) c)
     \<and> (\<forall>c. 0 < c \<and> c < length vs \<and> parentN c = n \<and> 0 < n \<longrightarrow> in_order score vs (parentN n) c)"

text \<open>Everything but the children of slot \<open>n\<close> against \<open>n\<close>, and those children against the parent of \<open>n\<close>.\<close>

definition bubble_inv :: "('a \<Rightarrow> jsnum) \<Rightarrow> 'a list \<Rightarrow> nat \<Rightarrow> bool" where
  "bubble_inv score vs n \<longleftrightarrow>
     (\<forall>c. 0 < c \<and> c < length vs \<and> parentN c \<noteq> n \<longrightarrow> in_order score vs (parentN c) c)
     \<and> (\<forall>c. 0 < c \<and> c < length vs \<and> parentN c = n \<and> 0 < n \<longrightarrow> in_order score vs (parentN n) c)"

definition proper :: "('a \<Rightarrow> jsnum) \<Rightarrow> 'a list \<Rightarrow> bool" where
  "proper score vs \<longleftrightarrow> (\<forall>x \<in> set vs. score x \<noteq> NaN)"

lemma proper_nth: "proper score vs \<Longrightarrow> i < length vs \<Longrightarrow> score (vs ! i) \<noteq> NaN"
  by (simp add: proper_def)

lemma mset_swap_nth:
  "i < length vs \<Longrightarrow> j < length vs \<Longrightarrow> vs ! i = x \<Longrightarrow> mset (vs[i := vs ! j, j := x]) = mset vs"
  using mset_swap [of j vs i] by simp

lemma sink_swap:
  assumes "sink_inv score vs n" "0 < n" "n < length vs" "vs ! n = x" "score x < score (vs ! parentN n)"
  shows "sink_inv score (vs[parentN n := x, n := vs ! parentN n]) (parentN n)"
proof -
  let ?p = "parentN n" and ?ws = "vs[parentN n := x, n := vs ! parentN n]"
  have p: "?p < n" using assms(2) by (rule parentN_less)
  have nth: "?ws ! i = (if i = n then vs ! ?p else if i = ?p then x else vs ! i)" if "i < length vs" for i
    using that p assms(3) by (auto simp: nth_list_update)
  have A: "score (vs ! parentN c) \<le> score (vs ! c)" if "0 < c" "c < length vs" "c \<noteq> n" for c
    using assms(1) that by (auto simp: sink_inv_def in_order_def)
  have B: "score (vs ! ?p) \<le> score (vs ! c)" if "0 < c" "c < length vs" "parentN c = n" for c
    using assms(1,2) that by (auto simp: sink_inv_def in_order_def)
  have pc: "parentN c < length vs" "parentN c < c" if "0 < c" "c < length vs" for c
    using that parentN_less [of c] by auto
  have "in_order score ?ws (parentN c) c" if c: "0 < c" "c < length vs" "c \<noteq> ?p" for c
  proof (cases "c = n")
    case True
    then show ?thesis using assms(5) p assms(3) nth by (simp add: in_order_def)
  next
    case False
    have "score x \<le> score (vs ! c)" if "parentN c = ?p"
      using A [OF c(1,2) False] that assms(5) by simp
    then show ?thesis using A [OF c(1,2) False] B [OF c(1,2)] c False nth pc [OF c(1,2)] p
      by (auto simp: in_order_def)
  qed
  moreover have "in_order score ?ws (parentN ?p) c" if c: "0 < c" "c < length vs" "parentN c = ?p" "0 < ?p" for c
  proof -
    have up: "score (vs ! parentN ?p) \<le> score (vs ! ?p)" using A [of ?p] c p assms(3) by simp
    have "score (vs ! ?p) \<le> score (vs ! c)" if "c \<noteq> n" using A [OF c(1,2) that] c(3) by simp
    then show ?thesis using up c nth pc [of ?p] p assms(3) parentN_less [OF c(4)] pc [OF c(1,2)]
      by (auto simp: in_order_def intro: order_trans)
  qed
  ultimately show ?thesis by (simp add: sink_inv_def)
qed

lemma sink_loop_correct:
  assumes "sink_inv score vs n" "proper score vs" "n < length vs" "vs ! n = x"
  shows "heap_ordered score (sink_loop score x vs n) \<and> mset (sink_loop score x vs n) = mset vs"
  using assms
proof (induction score x vs n rule: sink_loop.induct)
  case (1 score x vs n)
  let ?p = "parentN n"
  show ?case
  proof (cases "0 < n \<and> num_lt (score x) (score (vs ! ?p))")
    case True
    then have p: "?p < n" by (simp add: parentN_less)
    have lt: "score x < score (vs ! ?p)"
      using True num_lt_iff proper_nth [OF "1.prems"(2)] "1.prems"(3,4) p by (metis order_less_trans)
    have m: "mset (vs[?p := x, n := vs ! ?p]) = mset vs"
      using mset_swap [of n vs ?p] p "1.prems"(3,4) by simp
    have "proper score (vs[?p := x, n := vs ! ?p])"
      using "1.prems"(2) m by (metis mset_eq_setD proper_def)
    then show ?thesis
      using True 1(1) [OF _ refl] sink_swap [OF "1.prems"(1) _ "1.prems"(3,4) lt] p "1.prems"(3) m
      by (subst (1 2) sink_loop.simps) (simp add: Let_def)
  next
    case False
    have "in_order score vs ?p n" if "0 < n"
      using False that num_lt_iff [of "score x" "score (vs ! ?p)"] proper_nth [OF "1.prems"(2)] "1.prems"(3,4)
        parentN_less [OF that] by (auto simp: in_order_def)
    then have "heap_ordered score vs" using "1.prems"(1) by (auto simp: heap_ordered_def sink_inv_def)
    then show ?thesis using False by (subst (1 2) sink_loop.simps) (auto simp: Let_def)
  qed
qed

lemma proper_mset: "mset xs = mset ys \<Longrightarrow> proper score xs = proper score ys"
  by (auto simp: proper_def dest: mset_eq_setD)

text \<open>What \<open>swap_child\<close> picks: the lesser child, if one is less than the element.\<close>

lemma swap_child_least:
  assumes "proper score vs" "n < length vs" "vs ! n = x"
  shows "case swap_child score x vs n of
      None \<Rightarrow> \<forall>c. 0 < c \<and> c < length vs \<and> parentN c = n \<longrightarrow> score x \<le> score (vs ! c)
    | Some s \<Rightarrow> score (vs ! s) < score x
        \<and> (\<forall>c. 0 < c \<and> c < length vs \<and> parentN c = n \<longrightarrow> score (vs ! s) \<le> score (vs ! c))"
proof -
  have lt: "num_lt (score (vs ! i)) (score (vs ! j)) \<longleftrightarrow> score (vs ! i) < score (vs ! j)"
    if "i < length vs" "j < length vs" for i j
    using that proper_nth [OF assms(1)] by (simp add: num_lt_iff)
  have x: "num_lt (score (vs ! i)) (score x) \<longleftrightarrow> score (vs ! i) < score x" if "i < length vs" for i
    using lt [OF that assms(2)] assms(3) by simp
  have kids: "0 < c \<and> c < length vs \<and> parentN c = n \<longleftrightarrow> (c = Suc (n * 2) \<or> c = Suc (Suc (n * 2))) \<and> c < length vs" for c
    using parentN_child [of c n] by auto
  show ?thesis unfolding kids
    by (auto simp: swap_child_def Let_def lt x split: option.splits if_splits)
qed

lemma bubble_swap:
  assumes "bubble_inv score vs n" "n < length vs" "vs ! n = x"
    and s: "n < s" "s < length vs" "parentN s = n" and lt: "score (vs ! s) < score x"
    and least: "\<forall>c. 0 < c \<and> c < length vs \<and> parentN c = n \<longrightarrow> score (vs ! s) \<le> score (vs ! c)"
  shows "bubble_inv score (vs[n := vs ! s, s := x]) s"
proof -
  let ?ws = "vs[n := vs ! s, s := x]"
  have nth: "?ws ! i = (if i = s then x else if i = n then vs ! s else vs ! i)" if "i < length vs" for i
    using that s assms(2) by (auto simp: nth_list_update)
  have A: "score (vs ! parentN c) \<le> score (vs ! c)" if "0 < c" "c < length vs" "parentN c \<noteq> n" for c
    using assms(1) that by (auto simp: bubble_inv_def in_order_def)
  have B: "score (vs ! parentN n) \<le> score (vs ! c)" if "0 < c" "c < length vs" "parentN c = n" "0 < n" for c
    using assms(1) that by (auto simp: bubble_inv_def in_order_def)
  have pc: "parentN c < length vs" "parentN c < c" if "0 < c" "c < length vs" for c
    using that parentN_less [of c] by auto
  have "in_order score ?ws (parentN c) c" if c: "0 < c" "c < length vs" "parentN c \<noteq> s" for c
  proof (cases "parentN c = n")
    case True
    then show ?thesis using least c nth pc [OF c(1,2)] lt assms(2) by (auto simp: in_order_def)
  next
    case False
    then have "c \<noteq> s" using s by auto
    then show ?thesis
      using False A [OF c(1,2) False] B [of s] nth [OF c(2)] nth [OF pc(1) [OF c(1,2)]] c s pc [OF c(1,2)]
      by (cases "c = n") (auto simp: in_order_def)
  qed
  moreover have "in_order score ?ws (parentN s) c" if c: "0 < c" "c < length vs" "parentN c = s" for c
    using A [OF c(1,2)] c s nth pc [OF c(1,2)] assms(2) by (auto simp: in_order_def)
  ultimately show ?thesis by (simp add: bubble_inv_def)
qed

lemma bubble_loop_correct:
  assumes "bubble_inv score vs n" "proper score vs" "n < length vs" "vs ! n = x"
  shows "heap_ordered score (bubble_loop score x vs n) \<and> mset (bubble_loop score x vs n) = mset vs"
  using assms
proof (induction score x vs n rule: bubble_loop.induct)
  case (1 score x vs n)
  note least = swap_child_least [OF "1.prems"(2-4)]
  show ?case
  proof (cases "swap_child score x vs n")
    case None
    then have "heap_ordered score vs"
      using "1.prems"(1) least "1.prems"(4) by (auto simp: heap_ordered_def bubble_inv_def in_order_def)
    then show ?thesis using None by (subst (1 2) bubble_loop.simps) simp
  next
    case (Some s)
    note s = swap_child_bounds [OF Some]
    have m: "mset (vs[n := vs ! s, s := x]) = mset vs"
      by (rule mset_swap_nth) (use s "1.prems"(3,4) in simp_all)
    have p: "proper score (vs[n := vs ! s, s := x])"
      using "1.prems"(2) proper_mset [OF m] by simp
    have inv: "bubble_inv score (vs[n := vs ! s, s := x]) s"
      using bubble_swap [OF "1.prems"(1,3,4), of s] s least Some by simp
    have loop: "bubble_loop score x vs n = bubble_loop score x (vs[n := vs ! s, s := x]) s"
      using Some by (subst bubble_loop.simps) simp
    show ?thesis
      using "1.IH" [OF Some inv p] s m unfolding loop by simp
  qed
qed

lemma heap_ordered_append:
  assumes "heap_ordered score vs" "0 < c" "c < length vs"
  shows "in_order score (vs @ ws) (parentN c) c"
  using assms parentN_less [OF assms(2)] by (auto simp: heap_ordered_def in_order_def nth_append)

lemma sinkDown_last:
  assumes "heap_ordered score vs" "proper score (vs @ [x])"
  shows "heap_ordered score (sinkDown score (vs @ [x]) (length vs)) \<and> mset (sinkDown score (vs @ [x]) (length vs)) = add_mset x (mset vs)"
proof -
  have "parentN c \<noteq> length vs" if "0 < c" "c < Suc (length vs)" for c
    using parentN_less [OF that(1)] that by simp
  then have "sink_inv score (vs @ [x]) (length vs)"
    using heap_ordered_append [OF assms(1)] by (auto simp: sink_inv_def)
  from sink_loop_correct [OF this assms(2)] show ?thesis by (simp add: sinkDown_def)
qed

lemma heap_ordered_butlast:
  assumes "heap_ordered score vs"
  shows "heap_ordered score (butlast vs)"
proof -
  have "in_order score (butlast vs) (parentN c) c" if "0 < c" "c < length vs - 1" for c
    using assms that parentN_less [OF that(1)] by (auto simp: heap_ordered_def in_order_def nth_butlast)
  then show ?thesis by (simp add: heap_ordered_def)
qed

lemma bubbleUp_root:
  assumes "heap_ordered score vs" "proper score (vs[0 := x])" "vs \<noteq> []"
  shows "heap_ordered score (bubbleUp score (vs[0 := x]) 0) \<and> mset (bubbleUp score (vs[0 := x]) 0) = mset (vs[0 := x])"
proof -
  have "bubble_inv score (vs[0 := x]) 0"
    using assms(1) by (auto simp: bubble_inv_def heap_ordered_def in_order_def)
  from bubble_loop_correct [OF this assms(2)] show ?thesis using assms(3) by (simp add: bubbleUp_def)
qed

lemma heap_ordered_root: "heap_ordered score vs \<Longrightarrow> i < length vs \<Longrightarrow> score (vs ! 0) \<le> score (vs ! i)"
proof (induction i rule: less_induct)
  case (less i)
  show ?case
  proof (cases "i = 0")
    case False
    then have "parentN i < i" "in_order score vs (parentN i) i"
      using less.prems parentN_less by (auto simp: heap_ordered_def)
    then show ?thesis using less.IH [of "parentN i"] less.prems by (auto simp: in_order_def)
  qed simp
qed

subsection \<open>The heap is a priority queue\<close>

definition heap_invar :: "('a \<Rightarrow> jsnum) \<Rightarrow> 'a BinaryHeap \<Rightarrow> bool" where
  "heap_invar score h \<longleftrightarrow> scoreFunction h = score \<and> proper score (heap_values h) \<and> heap_ordered score (heap_values h)"

lemma heap_push_correct:
  assumes "heap_invar score h" "score x \<noteq> NaN"
  shows "heap_invar score (heap_push x h)"
proof -
  let ?vs = "heap_values h"
  have p: "proper score (?vs @ [x])" using assms by (auto simp: heap_invar_def proper_def)
  note s = sinkDown_last [OF _ p]
  have "proper score (sinkDown score (?vs @ [x]) (length ?vs))"
    using s p assms proper_mset [of "sinkDown score (?vs @ [x]) (length ?vs)" "?vs @ [x]" score]
    by (simp add: heap_invar_def)
  then show ?thesis using s assms by (simp add: heap_invar_def heap_push_def Let_def)
qed

lemma sink_loop_mset: "n < length vs \<Longrightarrow> vs ! n = x \<Longrightarrow> mset (sink_loop score x vs n) = mset vs"
proof (induction score x vs n rule: sink_loop.induct)
  case (1 score x vs n)
  show ?case
  proof (cases "0 < n \<and> num_lt (score x) (score (vs ! parentN n))")
    case True
    then have p: "parentN n < n" by (simp add: parentN_less)
    have loop: "sink_loop score x vs n = sink_loop score x (vs[parentN n := x, n := vs ! parentN n]) (parentN n)"
      using True by (subst sink_loop.simps) simp
    show ?thesis
      using "1.IH" [OF _ refl] True p "1.prems" mset_swap [of n vs "parentN n"] unfolding loop by simp
  next
    case False
    then show ?thesis by (subst sink_loop.simps) (auto simp: Let_def)
  qed
qed

lemma bubble_loop_mset: "n < length vs \<Longrightarrow> vs ! n = x \<Longrightarrow> mset (bubble_loop score x vs n) = mset vs"
proof (induction score x vs n rule: bubble_loop.induct)
  case (1 score x vs n)
  show ?case
  proof (cases "swap_child score x vs n")
    case None
    then show ?thesis by (subst bubble_loop.simps) simp
  next
    case (Some s)
    note s = swap_child_bounds [OF Some]
    have m: "mset (vs[n := vs ! s, s := x]) = mset vs"
      by (rule mset_swap_nth) (use s "1.prems" in simp_all)
    have loop: "bubble_loop score x vs n = bubble_loop score x (vs[n := vs ! s, s := x]) s"
      using Some by (subst bubble_loop.simps) simp
    show ?thesis using "1.IH" [OF Some] s m unfolding loop by simp
  qed
qed

lemma heap_push_mset: "mset (heap_values (heap_push x h)) = add_mset x (mset (heap_values h))"
  by (simp add: heap_push_def sinkDown_def sink_loop_mset Let_def)

lemma heap_pop_mset:
  assumes "heap_pop h = Some (x, h')"
  shows "mset (heap_values h) = add_mset x (mset (heap_values h'))"
proof -
  obtain rest where vs: "heap_values h = x # rest"
    using assms by (auto simp: heap_pop_def Let_def split: list.splits)
  show ?thesis
  proof (cases "rest = []")
    case True
    then show ?thesis using assms vs by (auto simp: heap_pop_def)
  next
    case False
    have perm: "add_mset x (mset ((butlast (x # rest))[0 := last rest])) = mset (x # rest)"
      using arg_cong [OF append_butlast_last_id [OF False], of mset] by simp
    show ?thesis
      using assms vs False perm by (auto simp: heap_pop_def Let_def bubbleUp_def bubble_loop_mset)
  qed
qed

lemma heap_pop_correct:
  assumes "heap_invar score h" "heap_pop h = Some (x, h')"
  shows "heap_invar score h' \<and> x = heap_values h ! 0"
proof -
  obtain rest where vs: "heap_values h = x # rest"
    using assms(2) by (auto simp: heap_pop_def Let_def split: list.splits)
  have ho: "heap_ordered score (x # rest)" and p: "proper score (x # rest)" and sc: "scoreFunction h = score"
    using assms(1) vs by (simp_all add: heap_invar_def)
  show ?thesis
  proof (cases "rest = []")
    case True
    then show ?thesis using assms(2) vs sc by (auto simp: heap_pop_def heap_invar_def proper_def heap_ordered_def)
  next
    case False
    let ?b = "butlast (x # rest)" and ?e = "last rest"
    have b: "?b = x # butlast rest" using False by simp
    have p': "proper score (?b[0 := ?e])"
      using p False by (auto simp: proper_def dest: in_set_butlastD)
    note bu = bubbleUp_root [OF heap_ordered_butlast [OF ho] p']
    have h': "h' = h\<lparr>heap_values := bubbleUp score (?b[0 := ?e]) 0\<rparr>"
      using assms(2) vs False sc by (auto simp: heap_pop_def Let_def)
    show ?thesis
      using bu p' sc vs b proper_mset [of "bubbleUp score (?b[0 := ?e]) 0" "?b[0 := ?e]" score]
      by (simp add: h' heap_invar_def)
  qed
qed

interpretation binary_heap: priority_queue "heap_new score" heap_push heap_pop
    "\<lambda>h. mset (heap_values h)" "heap_invar score" "\<lambda>x. score x \<noteq> NaN" score
  for score :: "'a \<Rightarrow> jsnum"
proof
  show "mset (heap_values (heap_new score)) = {#}" "heap_invar score (heap_new score)"
    by (simp_all add: heap_new_def heap_invar_def proper_def heap_ordered_def)
  show "mset (heap_values (heap_push x h)) = add_mset x (mset (heap_values h))" for x :: 'a and h
    by (rule heap_push_mset)
  show "heap_invar score h \<Longrightarrow> score x \<noteq> NaN \<Longrightarrow> heap_invar score (heap_push x h)" for h x
    by (simp add: heap_push_correct)
  show "heap_pop h = None \<longleftrightarrow> mset (heap_values h) = {#}" for h :: "'a BinaryHeap"
    by (simp add: heap_pop_def Let_def split: list.split)
  show "heap_pop h = Some (x, h') \<Longrightarrow> mset (heap_values h) = add_mset x (mset (heap_values h'))" for h h' :: "'a BinaryHeap" and x
    by (rule heap_pop_mset)
  show "heap_invar score h \<Longrightarrow> heap_pop h = Some (x, h') \<Longrightarrow> heap_invar score h'" for h x h'
    using heap_pop_correct [of score h x h'] by simp
  show "score x \<le> score y" if prems: "heap_invar score h" "heap_pop h = Some (x, h')" "y \<in># mset (heap_values h)" for h x h' y
  proof -
    have x: "x = heap_values h ! 0" using heap_pop_correct [OF prems(1,2)] by simp
    obtain i where i: "i < length (heap_values h)" "y = heap_values h ! i"
      using prems(3) by (auto simp: in_set_conv_nth)
    have "heap_ordered score (heap_values h)" using prems(1) by (simp add: heap_invar_def)
    from heap_ordered_root [OF this i(1)] show ?thesis by (simp add: x i(2))
  qed
qed

subsection \<open>Properties\<close>

fun heap_drain :: "nat \<Rightarrow> 'a BinaryHeap \<Rightarrow> 'a list" where
  "heap_drain 0 h = []"
| "heap_drain (Suc n) h = (case heap_pop h of None \<Rightarrow> [] | Some (x, h') \<Rightarrow> x # heap_drain n h')"

text \<open>
  C13: Elements pushed in any order onto a new heap and popped again come out in ascending order of
  score, all of them and nothing else, whenever the score function gives no \<open>NaN\<close> on them.
\<close>

theorem heap_sorts:
  assumes "list_all (\<lambda>x. score x \<noteq> NaN) xs"
  shows "sorted (map score (heap_drain (length xs) (fold heap_push xs (heap_new score))))
    \<and> mset (heap_drain (length xs) (fold heap_push xs (heap_new score))) = mset xs"
proof -
  let ?h = "fold heap_push xs (heap_new score)"
  have "heap_invar score ?h"
    using binary_heap.invar_pushes [OF binary_heap.invar_empty assms] .
  moreover have "mset (heap_values ?h) = mset xs"
    using binary_heap.elems_pushes [of xs "heap_new score"] by (simp add: heap_new_def)
  ultimately show ?thesis
    using binary_heap.drain_sorted [of heap_drain score ?h "length xs"] by (simp add: size_mset [symmetric] del: size_mset)
qed

theorem heap_sorts_witness:
  "sorted (map (\<lambda>n. Fin (of_nat n)) (heap_drain 3 (fold heap_push [2, 3, 1 :: nat] (heap_new (\<lambda>n. Fin (of_nat n))))))"
  using heap_sorts [of "\<lambda>n. Fin (of_nat n)" "[2, 3, 1 :: nat]"] by (simp add: eval_nat_numeral)

text \<open>
  C14: A pop from a well-formed heap that is not empty returns an element of least score, keeps the
  heap well-formed and removes exactly that element; a push keeps it well-formed and adds exactly
  the new one.
\<close>

theorem heap_operations:
  assumes "heap_invar score h" "heap_values h \<noteq> []" "score x \<noteq> NaN"
  shows "(\<exists>m h'. heap_pop h = Some (m, h') \<and> heap_invar score h' \<and> heap_size h = Suc (heap_size h')
        \<and> mset (heap_values h) = add_mset m (mset (heap_values h')) \<and> (\<forall>y \<in> set (heap_values h). score m \<le> score y))
    \<and> heap_invar score (heap_push x h) \<and> heap_size (heap_push x h) = Suc (heap_size h)
    \<and> mset (heap_values (heap_push x h)) = add_mset x (mset (heap_values h))"
proof -
  obtain m h' where p: "heap_pop h = Some (m, h')"
    using binary_heap.pop_nonempty [of h] assms(2) by auto
  have "mset (heap_values h) = add_mset m (mset (heap_values h'))" by (rule heap_pop_mset [OF p])
  moreover from this have "heap_size h = Suc (heap_size h')"
    unfolding heap_size_def by (metis size_add_mset size_mset)
  moreover have "heap_size (heap_push x h) = Suc (heap_size h)"
    unfolding heap_size_def by (metis heap_push_mset size_add_mset size_mset)
  moreover have "score m \<le> score y" if "y \<in> set (heap_values h)" for y
    by (rule binary_heap.pop_min [OF assms(1) p]) (use that in simp)
  ultimately show ?thesis
    using p heap_pop_correct [OF assms(1) p] heap_push_correct [OF assms(1,3)] heap_push_mset [of x h] by auto
qed

theorem heap_operations_witness:
  "heap_invar (\<lambda>n :: nat. Fin (of_nat n)) (heap_push 5 (heap_push 7 (heap_new (\<lambda>n. Fin (of_nat n)))))"
proof -
  let ?s = "\<lambda>n :: nat. Fin (of_nat n)"
  have h: "heap_invar ?s (heap_push 7 (heap_new ?s))"
    by (rule heap_push_correct [OF binary_heap.invar_empty]) simp
  have "heap_values (heap_push 7 (heap_new ?s)) \<noteq> []" by code_simp
  from heap_operations [OF h this, of 5] show ?thesis by simp
qed

text \<open>
  \<open>remove\<close> compares the index of the node with the length of the array after it took the last
  element off. The last element is therefore put back, and removing it changes nothing; the last
  but one is taken for the last, stays, and the element behind it is lost.
\<close>

theorem heap_remove_wrong_element:
  assumes "a \<noteq> b" "heap_values h = [a, b]"
  shows "heap_remove b h = Some h \<and> heap_remove a h = Some (h\<lparr>heap_values := [a]\<rparr>)"
proof -
  have "swap_child (scoreFunction h) b [a, b] (Suc 0) = None" by (simp add: swap_child_def)
  then have up: "bubbleUp (scoreFunction h) [a, b] (Suc 0) = [a, b]"
    by (simp add: bubbleUp_def bubble_loop.simps)
  have "\<not> num_lt (scoreFunction h b) (scoreFunction h b)"
    by (cases "scoreFunction h b") simp_all
  then show ?thesis using assms up by (simp add: heap_remove_def Let_def array_put_def)
qed

theorem heap_remove_wrong_element_witness:
  "heap_remove (2 :: nat) \<lparr>heap_values = [1, 2], scoreFunction = (\<lambda>n. Fin (of_nat n))\<rparr>
     = Some \<lparr>heap_values = [1, 2], scoreFunction = (\<lambda>n. Fin (of_nat n))\<rparr>"
  by (rule conjunct1 [OF heap_remove_wrong_element [of 1]]) simp_all

end
