(* ===== verification/Traversal.thy ===== *)
theory Traversal
  imports AQL_Lists
begin

text \<open>
  The graph traverser of \<open>js/common/modules/org/arangodb/graph/traversal.js\<close>: configuration,
  expanders, visitors, filters and uniqueness, and what its strategies share. Vertices and edges are
  documents; \<open>null\<close> for an edge, the mark of the start item, is no edge of an expander. The
  callbacks of a configuration are functions already applied to it; a visitor updates the result it is
  given and may throw; an expander returns connections of its own. The data source is a record of functions, since its documents live in the database.
\<close>

subsection \<open>Exceptions, paths, connections\<close>

datatype trav_exc = Raised js_exc | IntentionallyAborted

definition ERROR_BAD_PARAMETER :: js_exc where
  "ERROR_BAD_PARAMETER = ArangoError 10 ''bad parameter''"

definition ERROR_QUERY_KILLED :: js_exc where
  "ERROR_QUERY_KILLED = ArangoError 1500 ''query killed''"

definition ERROR_GRAPH_INVALID_FILTER_RESULT :: js_exc where
  "ERROR_GRAPH_INVALID_FILTER_RESULT = ArangoError 1910 ''invalid filter result''"

definition ERROR_GRAPH_TOO_MANY_ITERATIONS :: js_exc where
  "ERROR_GRAPH_TOO_MANY_ITERATIONS = ArangoError 1909 (''too many iterations - try increasing the value of '' @ [CHR 39] @ ''maxIterations'' @ [CHR 39])"

record tpath =
  p_edges :: "jsval list"
  p_vertices :: "jsval list"

record connection =
  c_edge :: jsval
  c_vertex :: jsval

datatype uniqueness = UNIQUE_NONE | UNIQUE_PATH | UNIQUE_GLOBAL
datatype strategy = BREADTH_FIRST | DEPTH_FIRST | ASTAR_SEARCH | DIJKSTRA_SEARCH | DIJKSTRA_SEARCH_MULTI
datatype visit_order = PRE_ORDER | POST_ORDER | PRE_ORDER_EXPANDER
datatype item_order = FORWARD | BACKWARD

definition PRUNE :: string where "PRUNE = ''prune''"
definition EXCLUDE :: string where "EXCLUDE = ''exclude''"

record datasource =
  getVertexId :: "jsval \<Rightarrow> jsval"
  getPeerVertex :: "jsval \<Rightarrow> jsval \<Rightarrow> trav_exc + jsval"
  getInVertex :: "jsval \<Rightarrow> trav_exc + jsval"
  getOutVertex :: "jsval \<Rightarrow> trav_exc + jsval"
  getEdgeId :: "jsval \<Rightarrow> jsval"
  getEdgeFrom :: "jsval \<Rightarrow> jsval"
  getEdgeTo :: "jsval \<Rightarrow> jsval"
  getLabel :: "jsval \<Rightarrow> jsval"
  getAllEdges :: "jsval \<Rightarrow> jsval list"
  getInEdges :: "jsval \<Rightarrow> jsval list"
  getOutEdges :: "jsval \<Rightarrow> jsval list"

text \<open>
  \<open>cfg_sort\<close> is the effect of sorting an array of edges with the configured comparison,
  \<open>cfg_killed\<close> the answers of \<open>AQL_QUERY_IS_KILLED\<close>, one for each iteration.
\<close>

record 'r config =
  cfg_datasource :: datasource
  cfg_sort :: "(jsval list \<Rightarrow> jsval list) option"
  cfg_buildVertices :: bool
  cfg_expandFilter :: "(jsval \<Rightarrow> jsval \<Rightarrow> tpath \<Rightarrow> trav_exc + bool) option"
  cfg_labels :: "jsval list"
  cfg_minDepth :: jsnum
  cfg_maxDepth :: jsnum
  cfg_matchingAttributes :: "jsobj list"
  cfg_maxIterations :: int
  cfg_vertexUniqueness :: uniqueness
  cfg_edgeUniqueness :: uniqueness
  cfg_strategy :: strategy
  cfg_order :: visit_order
  cfg_itemOrder :: item_order
  cfg_filter :: "jsval \<Rightarrow> tpath \<Rightarrow> trav_exc + jsval"
  cfg_visitor :: "'r \<Rightarrow> jsval \<Rightarrow> tpath \<Rightarrow> connection list \<Rightarrow> 'r \<times> trav_exc option"
  cfg_expander :: "jsval \<Rightarrow> tpath \<Rightarrow> trav_exc + connection list"
  cfg_killed :: "nat \<Rightarrow> bool"

subsection \<open>Data source\<close>

definition attribute :: "jsval \<Rightarrow> string \<Rightarrow> jsval" where
  "attribute v a = js_get v (KName a)"

text \<open>The collection data source over the database's \<open>db._document\<close> and edge lookups.\<close>

definition collectionDatasourceFactory ::
    "(jsval \<Rightarrow> trav_exc + jsval) \<Rightarrow> (jsval \<Rightarrow> jsval list) \<Rightarrow> (jsval \<Rightarrow> jsval list) \<Rightarrow> (jsval \<Rightarrow> jsval list) \<Rightarrow> datasource" where
  "collectionDatasourceFactory db_document all_edges in_edges out_edges =
     \<lparr>getVertexId = (\<lambda>vertex. attribute vertex ''_id''),
      getPeerVertex = (\<lambda>edge vertex.
        if js_eq (attribute edge ''_from'') (attribute vertex ''_id'') then db_document (attribute edge ''_to'')
        else if js_eq (attribute edge ''_to'') (attribute vertex ''_id'') then db_document (attribute edge ''_from'')
        else Inr JNull),
      getInVertex = (\<lambda>edge. db_document (attribute edge ''_to'')),
      getOutVertex = (\<lambda>edge. db_document (attribute edge ''_from'')),
      getEdgeId = (\<lambda>edge. attribute edge ''_id''),
      getEdgeFrom = (\<lambda>edge. attribute edge ''_from''),
      getEdgeTo = (\<lambda>edge. attribute edge ''_to''),
      getLabel = (\<lambda>edge. attribute edge ''$label''),
      getAllEdges = (\<lambda>vertex. all_edges (attribute vertex ''_id'')),
      getInEdges = (\<lambda>vertex. in_edges (attribute vertex ''_id'')),
      getOutEdges = (\<lambda>vertex. out_edges (attribute vertex ''_id''))\<rparr>"

subsection \<open>Expanders\<close>

text \<open>\<open>{ _id: id, _key: id.substr(id.indexOf("/") + 1) }\<close>; an id that is no string has no \<open>substr\<close>.\<close>

fun after_slash :: "string \<Rightarrow> string option" where
  "after_slash [] = None"
| "after_slash (c # cs) = (if c = CHR ''/'' then Some cs else after_slash cs)"

fun vertex_of_id :: "jsval \<Rightarrow> trav_exc + jsval" where
  "vertex_of_id (JStr s) = Inr (JObj [(''_id'', JStr s),
     (''_key'', JStr (case after_slash s of None \<Rightarrow> s | Some k \<Rightarrow> k))])"
| "vertex_of_id _ = Inl (Raised TypeError)"

text \<open>\<open>forEach\<close> over the edges with exceptions swallowed, and with exceptions passed on.\<close>

fun expand_catching :: "(jsval \<Rightarrow> trav_exc + jsval) \<Rightarrow> (jsval \<Rightarrow> jsval \<Rightarrow> trav_exc + bool) \<Rightarrow> jsval list \<Rightarrow> connection list" where
  "expand_catching get_vertex accept [] = []"
| "expand_catching get_vertex accept (edge # edges) =
     (case get_vertex edge of
        Inl _ \<Rightarrow> expand_catching get_vertex accept edges
      | Inr v \<Rightarrow> (case accept v edge of
            Inr True \<Rightarrow> \<lparr>c_edge = edge, c_vertex = v\<rparr> # expand_catching get_vertex accept edges
          | _ \<Rightarrow> expand_catching get_vertex accept edges))"

fun expand_throwing :: "(jsval \<Rightarrow> trav_exc + jsval) \<Rightarrow> (jsval \<Rightarrow> jsval \<Rightarrow> trav_exc + bool) \<Rightarrow> jsval list \<Rightarrow> trav_exc + connection list" where
  "expand_throwing get_vertex accept [] = Inr []"
| "expand_throwing get_vertex accept (edge # edges) =
     (case get_vertex edge of
        Inl e \<Rightarrow> Inl e
      | Inr v \<Rightarrow> (case accept v edge of
            Inl e \<Rightarrow> Inl e
          | Inr b \<Rightarrow> (case expand_throwing get_vertex accept edges of
                Inl e \<Rightarrow> Inl e
              | Inr cs \<Rightarrow> Inr (if b then \<lparr>c_edge = edge, c_vertex = v\<rparr> # cs else cs))))"

definition expand_edges :: "'r config \<Rightarrow> tpath \<Rightarrow> (jsval \<Rightarrow> trav_exc + jsval) \<Rightarrow> (jsval \<Rightarrow> jsval) \<Rightarrow> jsval list \<Rightarrow> trav_exc + connection list" where
  "expand_edges cfg path get_vertex get_id edges0 =
     (let edges = (case cfg_sort cfg of Some sort_edges \<Rightarrow> if length edges0 > 1 then sort_edges edges0 else edges0 | None \<Rightarrow> edges0);
          accept = (\<lambda>v edge. case cfg_expandFilter cfg of None \<Rightarrow> Inr True | Some f \<Rightarrow> f v edge path)
      in if cfg_buildVertices cfg then Inr (expand_catching get_vertex accept edges)
         else expand_throwing (\<lambda>edge. vertex_of_id (get_id edge)) accept edges)"

definition outboundExpander :: "'r config \<Rightarrow> jsval \<Rightarrow> tpath \<Rightarrow> trav_exc + connection list" where
  "outboundExpander cfg vertex path = (let ds = cfg_datasource cfg
     in expand_edges cfg path (getInVertex ds) (getEdgeTo ds) (getOutEdges ds vertex))"

definition inboundExpander :: "'r config \<Rightarrow> jsval \<Rightarrow> tpath \<Rightarrow> trav_exc + connection list" where
  "inboundExpander cfg vertex path = (let ds = cfg_datasource cfg
     in expand_edges cfg path (getOutVertex ds) (getEdgeFrom ds) (getInEdges ds vertex))"

definition anyExpander :: "'r config \<Rightarrow> jsval \<Rightarrow> tpath \<Rightarrow> trav_exc + connection list" where
  "anyExpander cfg vertex path = (let ds = cfg_datasource cfg
     in expand_edges cfg path (\<lambda>edge. getPeerVertex ds edge vertex)
       (\<lambda>edge. if js_eq (getEdgeFrom ds edge) (attribute vertex ''_id'') then getEdgeTo ds edge else getEdgeFrom ds edge)
       (getAllEdges ds vertex))"

definition has_label :: "'r config \<Rightarrow> jsval \<Rightarrow> bool" where
  "has_label cfg edge \<longleftrightarrow> list_ex (js_eq (getLabel (cfg_datasource cfg) edge)) (cfg_labels cfg)"

definition expandOutEdgesWithLabels :: "'r config \<Rightarrow> jsval \<Rightarrow> trav_exc + connection list" where
  "expandOutEdgesWithLabels cfg vertex = (let ds = cfg_datasource cfg
     in expand_throwing (getInVertex ds) (\<lambda>_ _. Inr True) (filter (has_label cfg) (getOutEdges ds vertex)))"

definition expandInEdgesWithLabels :: "'r config \<Rightarrow> jsval \<Rightarrow> trav_exc + connection list" where
  "expandInEdgesWithLabels cfg vertex = (let ds = cfg_datasource cfg
     in expand_throwing (getOutVertex ds) (\<lambda>_ _. Inr True) (filter (has_label cfg) (getInEdges ds vertex)))"

definition expandEdgesWithLabels :: "'r config \<Rightarrow> jsval \<Rightarrow> trav_exc + connection list" where
  "expandEdgesWithLabels cfg vertex = (let ds = cfg_datasource cfg
     in expand_throwing (\<lambda>edge. getPeerVertex ds edge vertex) (\<lambda>_ _. Inr True) (filter (has_label cfg) (getAllEdges ds vertex)))"

subsection \<open>Visitors and filters\<close>

text \<open>
  The result a tracking visitor fills: \<open>result.visited\<close> with its two lists, any of which may be absent.
\<close>

record visited_lists =
  v_vertices :: "jsval list option"
  v_paths :: "tpath list option"

fun trav_clone :: "jsval \<Rightarrow> jsval" where
  "trav_clone (JArr xs) = JArr (map trav_clone xs)"
| "trav_clone (JObj ob) = JObj (map (\<lambda>(k, v). (k, trav_clone v)) (object_entries ob))"
| "trav_clone v = v"

definition clone_path :: "tpath \<Rightarrow> tpath" where
  "clone_path path = \<lparr>p_edges = map trav_clone (p_edges path), p_vertices = map trav_clone (p_vertices path)\<rparr>"

definition trackingVisitor ::
    "visited_lists option \<Rightarrow> jsval \<Rightarrow> tpath \<Rightarrow> connection list \<Rightarrow> visited_lists option \<times> trav_exc option" where
  "trackingVisitor result vertex path conns = (map_option (\<lambda>v.
      \<lparr>v_vertices = map_option (\<lambda>vs. vs @ [trav_clone vertex]) (v_vertices v),
       v_paths = map_option (\<lambda>ps. ps @ [clone_path path]) (v_paths v)\<rparr>) result, None)"

text \<open>A counting visitor's result: absent, without a count, or with one.\<close>

definition countingVisitor ::
    "nat option option \<Rightarrow> jsval \<Rightarrow> tpath \<Rightarrow> connection list \<Rightarrow> nat option option \<times> trav_exc option" where
  "countingVisitor result vertex path conns = (map_option (\<lambda>count. case count of
      Some n \<Rightarrow> Some (Suc n) | None \<Rightarrow> Some 1) result, None)"

definition doNothingVisitor :: "'r \<Rightarrow> jsval \<Rightarrow> tpath \<Rightarrow> connection list \<Rightarrow> 'r \<times> trav_exc option" where
  "doNothingVisitor result vertex path conns = (result, None)"

definition visitAllFilter :: "jsval \<Rightarrow> tpath \<Rightarrow> trav_exc + jsval" where
  "visitAllFilter vertex path = Inr (JStr [])"

definition maxDepthFilter :: "'r config \<Rightarrow> jsval \<Rightarrow> tpath \<Rightarrow> trav_exc + jsval" where
  "maxDepthFilter cfg vertex path =
     Inr (if num_lt (cfg_maxDepth cfg) (Fin (of_nat (length (p_vertices path)))) then JStr PRUNE else JUndef)"

definition minDepthFilter :: "'r config \<Rightarrow> jsval \<Rightarrow> tpath \<Rightarrow> trav_exc + jsval" where
  "minDepthFilter cfg vertex path =
     Inr (if num_le (Fin (of_nat (length (p_vertices path)))) (cfg_minDepth cfg) then JStr EXCLUDE else JUndef)"

definition matching_attributes :: "jsval \<Rightarrow> jsobj \<Rightarrow> bool" where
  "matching_attributes vertex example =
     (let keys = object_keys example;
          count = length (filter (\<lambda>key. js_truthy (attribute vertex key) \<and> js_eq (attribute vertex key) (obj_get example key)) keys)
      in count > 0 \<and> count = length keys)"

definition includeMatchingAttributesFilter :: "'r config \<Rightarrow> jsval \<Rightarrow> tpath \<Rightarrow> trav_exc + jsval" where
  "includeMatchingAttributesFilter cfg vertex path =
     Inr (if list_ex (matching_attributes vertex) (cfg_matchingAttributes cfg) then JUndef else JStr EXCLUDE)"

fun combineFilters :: "(jsval \<Rightarrow> tpath \<Rightarrow> trav_exc + jsval) list \<Rightarrow> jsval \<Rightarrow> tpath \<Rightarrow> trav_exc + jsval" where
  "combineFilters [] vertex path = Inr (JArr [])"
| "combineFilters (f # fs) vertex path = (case f vertex path of
      Inl e \<Rightarrow> Inl e
    | Inr tmp \<Rightarrow> (case combineFilters fs vertex path of
          Inr (JArr rest) \<Rightarrow> Inr (JArr ((case tmp of JArr xs \<Rightarrow> xs | _ \<Rightarrow> [tmp]) @ rest))
        | r \<Rightarrow> r))"

text \<open>The filter that the constructor assembles from the depth bounds and the configured filters.\<close>

definition traverser_filter :: "'r config \<Rightarrow> (jsval \<Rightarrow> tpath \<Rightarrow> trav_exc + jsval) list \<Rightarrow> jsval \<Rightarrow> tpath \<Rightarrow> trav_exc + jsval" where
  "traverser_filter cfg user_filters =
     (let filters = (if num_lt (Fin 0) (cfg_minDepth cfg) then [minDepthFilter cfg] else [])
            @ (if num_lt (Fin 0) (cfg_maxDepth cfg) then [maxDepthFilter cfg] else []) @ user_filters
      in case filters of [] \<Rightarrow> visitAllFilter | [f] \<Rightarrow> f | _ \<Rightarrow> combineFilters filters)"

subsection \<open>Filter results and uniqueness\<close>

record filter_result =
  fr_visit :: bool
  fr_expand :: bool

fun processArgument :: "filter_result \<Rightarrow> jsval \<Rightarrow> trav_exc + filter_result"
  and processArguments :: "filter_result \<Rightarrow> jsval list \<Rightarrow> trav_exc + filter_result" where
  "processArgument result JUndef = Inr result"
| "processArgument result JNull = Inr result"
| "processArgument result (JStr arg) =
     (if arg = EXCLUDE then Inr (result\<lparr>fr_visit := False\<rparr>)
      else if arg = PRUNE then Inr (result\<lparr>fr_expand := False\<rparr>)
      else if arg = [] then Inr result
      else Inl (Raised ERROR_GRAPH_INVALID_FILTER_RESULT))"
| "processArgument result (JArr args) = processArguments result args"
| "processArgument result _ = Inl (Raised ERROR_GRAPH_INVALID_FILTER_RESULT)"
| "processArguments result [] = Inr result"
| "processArguments result (arg # args) = (case processArgument result arg of
      Inl e \<Rightarrow> Inl e | Inr r \<Rightarrow> processArguments r args)"

definition parseFilterResult :: "jsval \<Rightarrow> trav_exc + filter_result" where
  "parseFilterResult args = processArgument \<lparr>fr_visit = True, fr_expand = True\<rparr> args"

subsection \<open>What a filter result means\<close>

fun filter_atoms :: "jsval \<Rightarrow> jsval list" where
  "filter_atoms (JArr xs) = concat (map filter_atoms xs)"
| "filter_atoms v = [v]"

definition filter_atom :: "jsval \<Rightarrow> bool" where
  "filter_atom a \<longleftrightarrow> a = JUndef \<or> a = JNull \<or> a = JStr EXCLUDE \<or> a = JStr PRUNE \<or> a = JStr []"

definition atoms_result :: "filter_result \<Rightarrow> jsval list \<Rightarrow> trav_exc + filter_result" where
  "atoms_result r as = (if list_all filter_atom as
     then Inr \<lparr>fr_visit = (fr_visit r \<and> JStr EXCLUDE \<notin> set as), fr_expand = (fr_expand r \<and> JStr PRUNE \<notin> set as)\<rparr>
     else Inl (Raised ERROR_GRAPH_INVALID_FILTER_RESULT))"

lemma atoms_result_append:
  "atoms_result r (as @ bs) = (case atoms_result r as of Inl e \<Rightarrow> Inl e | Inr r' \<Rightarrow> atoms_result r' bs)"
  by (auto simp: atoms_result_def)

lemma process_atoms:
  "processArgument r v = atoms_result r (filter_atoms v)"
  "processArguments r vs = atoms_result r (concat (map filter_atoms vs))"
proof (induction r v and r vs rule: processArgument_processArguments.induct)
  fix r arg args
  assume "processArgument r arg = atoms_result r (filter_atoms arg)"
    "\<And>r'. processArgument r arg = Inr r' \<Longrightarrow> processArguments r' args = atoms_result r' (concat (map filter_atoms args))"
  then show "processArguments r (arg # args) = atoms_result r (concat (map filter_atoms (arg # args)))"
    by (cases "atoms_result r (filter_atoms arg)") (simp_all add: atoms_result_append)
qed (simp_all add: atoms_result_def filter_atom_def EXCLUDE_def PRUNE_def)

text \<open>
  Of a filter result, however deep its lists are nested, only the strings in it count. A vertex is visited
  unless one of them is \<open>exclude\<close> and expanded unless one is \<open>prune\<close>; anything but these, the empty
  string, \<open>null\<close> and \<open>undefined\<close> raises the error for an invalid filter result, wherever it stands.
\<close>

theorem filter_result_spec:
  "parseFilterResult args =
     (if list_all filter_atom (filter_atoms args)
      then Inr \<lparr>fr_visit = (JStr EXCLUDE \<notin> set (filter_atoms args)), fr_expand = (JStr PRUNE \<notin> set (filter_atoms args))\<rparr>
      else Inl (Raised ERROR_GRAPH_INVALID_FILTER_RESULT))"
  by (simp add: parseFilterResult_def process_atoms atoms_result_def)

text \<open>The visited flags, properties of two objects, as the sets of the ids that have one.\<close>

record visited_ids =
  vis_edges :: "string set"
  vis_vertices :: "string set"

definition vertex_key :: "'r config \<Rightarrow> jsval \<Rightarrow> string" where
  "vertex_key cfg vertex = js_string (getVertexId (cfg_datasource cfg) vertex)"

definition edge_key :: "'r config \<Rightarrow> jsval \<Rightarrow> string" where
  "edge_key cfg edge = js_string (getEdgeId (cfg_datasource cfg) edge)"

definition check_edge :: "'r config \<Rightarrow> visited_ids \<Rightarrow> jsval option \<Rightarrow> bool \<times> visited_ids" where
  "check_edge cfg visited edge = (case edge of
      None \<Rightarrow> (True, visited)
    | Some e \<Rightarrow>
        (if cfg_edgeUniqueness cfg = UNIQUE_NONE then (True, visited)
         else let id = edge_key cfg e
              in if id \<in> vis_edges visited then (False, visited)
                 else (True, visited\<lparr>vis_edges := insert id (vis_edges visited)\<rparr>)))"

definition checkUniqueness :: "'r config \<Rightarrow> visited_ids \<Rightarrow> jsval \<Rightarrow> jsval option \<Rightarrow> bool \<times> visited_ids" where
  "checkUniqueness cfg visited vertex edge =
     (if cfg_vertexUniqueness cfg = UNIQUE_NONE then check_edge cfg visited edge
      else let id = vertex_key cfg vertex
           in if id \<in> vis_vertices visited then (False, visited)
              else check_edge cfg (visited\<lparr>vis_vertices := insert id (vis_vertices visited)\<rparr>) edge)"

definition checkReverse :: "'r config \<Rightarrow> bool" where
  "checkReverse cfg = (case cfg_order cfg of
      POST_ORDER \<Rightarrow> cfg_itemOrder cfg = FORWARD
    | _ \<Rightarrow> cfg_itemOrder cfg = BACKWARD \<and> cfg_strategy cfg = BREADTH_FIRST
         \<or> cfg_itemOrder cfg = FORWARD \<and> cfg_strategy cfg = DEPTH_FIRST)"

subsection \<open>What both searches do with an element\<close>

text \<open>
  The first visit of an element that passed the uniqueness check: filter, visitor and expander, in the
  order the visitation order asks for. It returns the result, whether the element is to be visited
  later, the connections to follow and the exception, if one was thrown.
\<close>

definition visit_and_expand :: "'r config \<Rightarrow> jsval \<Rightarrow> tpath \<Rightarrow> 'r \<Rightarrow> 'r \<times> bool \<times> connection list \<times> trav_exc option" where
  "visit_and_expand cfg vertex path result =
     (case cfg_filter cfg vertex path of
        Inl e \<Rightarrow> (result, False, [], Some e)
      | Inr args \<Rightarrow> (case parseFilterResult args of
          Inl e \<Rightarrow> (result, False, [], Some e)
        | Inr fr \<Rightarrow>
            (let pre = cfg_order cfg = PRE_ORDER \<and> fr_visit fr;
                 later = \<not> pre \<and> fr_visit fr;
                 expanding = cfg_order cfg = PRE_ORDER_EXPANDER \<and> fr_visit fr;
                 (result1, exc1) = (if pre then cfg_visitor cfg result vertex path [] else (result, None))
             in case exc1 of
                  Some e \<Rightarrow> (result1, later, [], Some e)
                | None \<Rightarrow>
                    (if fr_expand fr
                     then case cfg_expander cfg vertex path of
                         Inl e \<Rightarrow> (result1, later, [], Some e)
                       | Inr cs \<Rightarrow>
                           (let conns = (if checkReverse cfg then rev cs else cs);
                                (result2, exc2) = (if expanding then cfg_visitor cfg result1 vertex path conns
                                                   else (result1, None))
                            in (result2, later, if exc2 = None then conns else [], exc2))
                     else let (result2, exc2) = (if expanding then cfg_visitor cfg result1 vertex path []
                                                 else (result1, None))
                          in (result2, later, [], exc2)))))"

definition extend_path :: "tpath \<Rightarrow> jsval option \<Rightarrow> jsval \<Rightarrow> tpath" where
  "extend_path path edge vertex =
     \<lparr>p_edges = (case edge of None \<Rightarrow> p_edges path | Some e \<Rightarrow> p_edges path @ [e]),
      p_vertices = p_vertices path @ [vertex]\<rparr>"

subsection \<open>The loop of a search\<close>

text \<open>
  The \<open>while\<close> loop all strategies share: as long as the state is \<open>alive\<close>, count the iteration, stop with an
  exception when there were too many or the query was killed, and do one step.
\<close>

function search_loop :: "int \<Rightarrow> (nat \<Rightarrow> bool) \<Rightarrow> ('s \<Rightarrow> bool) \<Rightarrow> ('s \<Rightarrow> 's \<times> trav_exc option) \<Rightarrow> nat \<Rightarrow> 's \<Rightarrow> 's \<times> trav_exc option" where
  "search_loop maxIterations killed alive step visitCounter s =
     (if \<not> alive s then (s, None)
      else if int visitCounter > maxIterations then (s, Some (Raised ERROR_GRAPH_TOO_MANY_ITERATIONS))
      else if killed visitCounter then (s, Some (Raised ERROR_QUERY_KILLED))
      else case step s of
          (s', Some e) \<Rightarrow> (s', Some e)
        | (s', None) \<Rightarrow> search_loop maxIterations killed alive step (Suc visitCounter) s')"
  by pat_completeness auto
termination
  by (relation "measure (\<lambda>(maxIterations, _, _, _, n, _). nat (maxIterations + 1) - n)") auto

declare search_loop.simps [simp del]

text \<open>The invariant rule; the state an exception leaves behind need only satisfy the postcondition.\<close>

lemma search_loop_outcome:
  assumes step: "\<And>s. I s \<Longrightarrow> alive s \<Longrightarrow> if snd (step s) = None then I (fst (step s)) else Q (fst (step s))"
    and post: "\<And>s. I s \<Longrightarrow> Q s" and "I s"
  shows "Q (fst (search_loop m killed alive step n s))
    \<and> (snd (search_loop m killed alive step n s) = None \<longrightarrow> I (fst (search_loop m killed alive step n s)))"
  using assms(3)
proof (induction "nat (m + 1) - n" arbitrary: n s)
  case 0
  then show ?case using post by (subst (1 2 3) search_loop.simps) auto
next
  case (Suc k)
  obtain s' exc where st: "step s = (s', exc)" by fastforce
  show ?case
  proof (cases "\<not> alive s \<or> int n > m \<or> killed n")
    case True
    then show ?thesis using Suc.prems post by (subst (1 2 3) search_loop.simps) auto
  next
    case False
    then have "if exc = None then I s' else Q s'" "k = nat (m + 1) - Suc n"
      using step [OF Suc.prems, unfolded st] Suc.hyps(2) by auto
    then show ?thesis using False st Suc.hyps(1) [of "Suc n" s']
      by (subst (1 2 3) search_loop.simps) (cases exc; simp)
  qed
qed

lemma search_loop_invariant:
  "(\<And>s. I s \<Longrightarrow> alive s \<Longrightarrow> I (fst (step s))) \<Longrightarrow> I s \<Longrightarrow> I (fst (search_loop m killed alive step n s))"
  by (rule search_loop_outcome [where I = I, THEN conjunct1]) simp_all

lemma search_loop_finished: "search_loop m killed alive step n s = (s', None) \<Longrightarrow> \<not> alive s'"
proof (induction m killed alive step n s rule: search_loop.induct)
  case (1 m killed alive step n s)
  show ?case using "1.prems" [unfolded search_loop.simps [of m killed alive step n s]] "1.IH"
    by (auto split: if_splits prod.splits option.splits)
qed

text \<open>A loop whose steps decrease a measure and throw nothing ends within that many iterations.\<close>

lemma search_loop_ends:
  assumes step: "\<And>s. I s \<Longrightarrow> alive s \<Longrightarrow> I (fst (step s)) \<and> snd (step s) = None \<and> \<mu> (fst (step s)) < \<mu> s"
    and "I s" "\<And>i. \<not> killed i" "int (n + \<mu> s) \<le> m + 1"
  shows "snd (search_loop m killed alive step n s) = None"
  using assms(2,4)
proof (induction "\<mu> s" arbitrary: n s rule: less_induct)
  case less
  show ?case
  proof (cases "alive s")
    case False
    then show ?thesis by (subst search_loop.simps) simp
  next
    case True
    obtain s' where st: "step s = (s', None)" "I s'" "\<mu> s' < \<mu> s"
      using step [OF less.prems(1) True] by (cases "step s") auto
    have "snd (search_loop m killed alive step (Suc n) s') = None"
      using less.hyps [OF st(3,2)] less.prems(2) st(3) by simp
    then show ?thesis using True st less.prems(2) assms(3) by (subst search_loop.simps) simp
  qed
qed

subsection \<open>Recorded visits\<close>

text \<open>A visitor that records its calls; it never throws.\<close>

definition recordingVisitor :: "(jsval \<times> tpath) list \<Rightarrow> jsval \<Rightarrow> tpath \<Rightarrow> connection list \<Rightarrow> (jsval \<times> tpath) list \<times> trav_exc option" where
  "recordingVisitor result vertex path conns = (result @ [(vertex, path)], None)"

type_synonym recording = "(jsval \<times> tpath) list"

text \<open>Which pairs of vertices an edge of the expander joins.\<close>

definition joins :: "'r config \<Rightarrow> jsval \<Rightarrow> jsval \<Rightarrow> jsval \<Rightarrow> bool" where
  "joins cfg v e w \<longleftrightarrow> (\<exists>path cs. cfg_expander cfg v path = Inr cs \<and> \<lparr>c_edge = e, c_vertex = w\<rparr> \<in> set cs)"

lemma visit_and_expand_recording:
  assumes "cfg_visitor cfg = recordingVisitor" "visit_and_expand cfg vertex path result = (result', later, cs, exc)"
  obtains r where "result' = result @ (if r then [(vertex, path)] else [])" "r \<Longrightarrow> cfg_order cfg \<noteq> POST_ORDER"
    "\<And>c. c \<in> set cs \<Longrightarrow> joins cfg vertex (c_edge c) (c_vertex c)"
proof -
  have j: "joins cfg vertex (c_edge c) (c_vertex c)"
    if "cfg_expander cfg vertex path = Inr cs" "c \<in> set cs" for cs c
    using that by (cases c) (auto simp: joins_def)
  have "\<exists>r. result' = result @ (if r then [(vertex, path)] else []) \<and> (r \<longrightarrow> cfg_order cfg \<noteq> POST_ORDER)
      \<and> (\<forall>c \<in> set cs. joins cfg vertex (c_edge c) (c_vertex c))"
  proof (cases "cfg_filter cfg vertex path")
    case (Inl e)
    then show ?thesis using assms(2) by (intro exI [of _ False]) (simp add: visit_and_expand_def)
  next
    case (Inr args)
    note filter = this
    show ?thesis
    proof (cases "parseFilterResult args")
      case (Inl e)
      then show ?thesis using assms(2) filter by (intro exI [of _ False]) (simp add: visit_and_expand_def)
    next
      case (Inr fr)
      note facts = assms(2) filter Inr assms(1)
      let ?pre = "cfg_order cfg = PRE_ORDER \<and> fr_visit fr"
      let ?exp = "cfg_order cfg = PRE_ORDER_EXPANDER \<and> fr_visit fr"
      show ?thesis
      proof (cases "cfg_expander cfg vertex path")
        case (Inl e)
        show ?thesis
          by (intro exI [of _ "?pre \<or> (?exp \<and> \<not> fr_expand fr)"])
            (use facts Inl in \<open>auto simp: visit_and_expand_def recordingVisitor_def Let_def split: if_splits\<close>)
      next
        case (Inr cs)
        show ?thesis
          by (intro exI [of _ "?pre \<or> ?exp"])
            (use facts Inr j [OF Inr] in \<open>auto simp: visit_and_expand_def recordingVisitor_def Let_def split: if_splits\<close>)
      qed
    qed
  qed
  then show thesis using that by blast
qed

fun chain :: "(jsval \<Rightarrow> jsval \<Rightarrow> jsval \<Rightarrow> bool) \<Rightarrow> jsval list \<Rightarrow> jsval list \<Rightarrow> bool" where
  "chain J [v] [] = True"
| "chain J (v # w # vs) (e # es) = (J v e w \<and> chain J (w # vs) es)"
| "chain J _ _ = False"

lemma chain_append: "chain J vs es \<Longrightarrow> J (last vs) e w \<Longrightarrow> chain J (vs @ [w]) (es @ [e])"
  by (induction J vs es rule: chain.induct) auto

definition simple_path :: "'r config \<Rightarrow> tpath \<Rightarrow> bool" where
  "simple_path cfg path \<longleftrightarrow>
     (cfg_vertexUniqueness cfg = UNIQUE_PATH \<longrightarrow> distinct (map (vertex_key cfg) (p_vertices path)))
     \<and> (cfg_edgeUniqueness cfg = UNIQUE_PATH \<longrightarrow> distinct (map (edge_key cfg) (p_edges path)))"

definition good_visit :: "'r config \<Rightarrow> jsval \<Rightarrow> jsval \<times> tpath \<Rightarrow> bool" where
  "good_visit cfg start = (\<lambda>(v, path). chain (joins cfg) (p_vertices path) (p_edges path)
     \<and> hd (p_vertices path) = start \<and> last (p_vertices path) = v \<and> simple_path cfg path)"

subsection \<open>Exhaustive searches\<close>

inductive reachable :: "(jsval \<Rightarrow> connection list) \<Rightarrow> jsval \<Rightarrow> jsval \<Rightarrow> bool" for succ start where
  reachable_start: "reachable succ start start"
| reachable_step: "reachable succ start v \<Longrightarrow> c \<in> set (succ v) \<Longrightarrow> reachable succ start (c_vertex c)"

inductive_cases reachableE: "reachable succ start v"

text \<open>
  A search that visits everything: no filter, global uniqueness of the vertices, none of the edges,
  and an expander that returns the same connections for vertices of the same id.
\<close>

definition exhaustive :: "recording config \<Rightarrow> (jsval \<Rightarrow> connection list) \<Rightarrow> bool" where
  "exhaustive cfg succ \<longleftrightarrow> cfg_visitor cfg = recordingVisitor \<and> cfg_vertexUniqueness cfg = UNIQUE_GLOBAL
     \<and> cfg_edgeUniqueness cfg = UNIQUE_NONE \<and> cfg_filter cfg = visitAllFilter
     \<and> cfg_expander cfg = (\<lambda>v path. Inr (succ v))
     \<and> (\<forall>v w. vertex_key cfg v = vertex_key cfg w \<longrightarrow> succ v = succ w)"

lemma exhaustiveD:
  assumes "exhaustive cfg succ"
  shows "cfg_vertexUniqueness cfg = UNIQUE_GLOBAL" "cfg_edgeUniqueness cfg = UNIQUE_NONE"
    "cfg_visitor cfg = recordingVisitor" "cfg_filter cfg v path = Inr (JStr [])" "cfg_expander cfg v path = Inr (succ v)"
    "vertex_key cfg v = vertex_key cfg w \<Longrightarrow> succ v = succ w"
proof -
  have f: "cfg_filter cfg = visitAllFilter" "cfg_expander cfg = (\<lambda>v path. Inr (succ v))"
    using assms unfolding exhaustive_def by blast+
  show "cfg_filter cfg v path = Inr (JStr [])" "cfg_expander cfg v path = Inr (succ v)"
    by (simp_all add: f visitAllFilter_def)
qed (use assms in \<open>unfold exhaustive_def, blast+\<close>)

lemma visit_and_expand_exhaustive:
  assumes "exhaustive cfg succ"
  shows "visit_and_expand cfg vertex path result =
    (result @ (if cfg_order cfg \<noteq> POST_ORDER then [(vertex, path)] else []), cfg_order cfg \<noteq> PRE_ORDER,
     if checkReverse cfg then rev (succ vertex) else succ vertex, None)"
  using exhaustiveD(3-5) [OF assms]
  by (cases "cfg_order cfg") (simp_all add: visit_and_expand_def parseFilterResult_def
      recordingVisitor_def EXCLUDE_def PRUNE_def Let_def)

text \<open>How many connections the vertices of a list have whose ids are not in a set.\<close>

definition unvisited_degree :: "'r config \<Rightarrow> (jsval \<Rightarrow> connection list) \<Rightarrow> jsval list \<Rightarrow> string set \<Rightarrow> nat" where
  "unvisited_degree cfg succ vs V = (\<Sum>v\<leftarrow>vs. if vertex_key cfg v \<in> V then 0 else length (succ v))"

lemma unvisited_degree_mono: "V \<subseteq> W \<Longrightarrow> unvisited_degree cfg succ vs W \<le> unvisited_degree cfg succ vs V"
  by (induction vs) (auto simp: unvisited_degree_def)

lemma unvisited_degree_insert:
  assumes e: "exhaustive cfg succ" and "vertex_key cfg v \<in> vertex_key cfg ` set vs" "vertex_key cfg v \<notin> V"
  shows "unvisited_degree cfg succ vs (insert (vertex_key cfg v) V) + length (succ v) \<le> unvisited_degree cfg succ vs V"
  using assms(2)
proof (induction vs)
  case (Cons w ws)
  let ?V = "insert (vertex_key cfg v) V"
  have mono: "unvisited_degree cfg succ ws ?V \<le> unvisited_degree cfg succ ws V"
    by (rule unvisited_degree_mono) auto
  show ?case
  proof (cases "vertex_key cfg w = vertex_key cfg v")
    case True
    then show ?thesis using mono assms(3) exhaustiveD(6) [OF e True] by (simp add: unvisited_degree_def)
  next
    case False
    then show ?thesis using Cons by (auto simp: unvisited_degree_def)
  qed
qed simp

text \<open>A graph of two vertices with an edge each way, for concrete runs.\<close>

definition two_cycle_succ :: "jsval \<Rightarrow> connection list" where
  "two_cycle_succ v = (if js_string v = ''a'' then [\<lparr>c_edge = JStr ''ab'', c_vertex = JStr ''b''\<rparr>]
     else [\<lparr>c_edge = JStr ''ba'', c_vertex = JStr ''a''\<rparr>])"

definition two_cycle :: "uniqueness \<Rightarrow> visit_order \<Rightarrow> recording config" where
  "two_cycle uniq order0 =
     \<lparr>cfg_datasource = \<lparr>getVertexId = (\<lambda>v. v), getPeerVertex = (\<lambda>e v. Inr JNull), getInVertex = (\<lambda>e. Inr JNull),
            getOutVertex = (\<lambda>e. Inr JNull), getEdgeId = (\<lambda>e. e), getEdgeFrom = (\<lambda>e. JNull), getEdgeTo = (\<lambda>e. JNull),
            getLabel = (\<lambda>e. JNull), getAllEdges = (\<lambda>v. []), getInEdges = (\<lambda>v. []), getOutEdges = (\<lambda>v. [])\<rparr>,
          cfg_sort = None, cfg_buildVertices = True, cfg_expandFilter = None, cfg_labels = [],
          cfg_minDepth = Fin 0, cfg_maxDepth = Fin 0, cfg_matchingAttributes = [], cfg_maxIterations = 20,
          cfg_vertexUniqueness = uniq, cfg_edgeUniqueness = UNIQUE_NONE, cfg_strategy = DEPTH_FIRST,
          cfg_order = order0, cfg_itemOrder = FORWARD, cfg_filter = visitAllFilter,
          cfg_visitor = recordingVisitor, cfg_expander = (\<lambda>v path. Inr (two_cycle_succ v)), cfg_killed = (\<lambda>n. False)\<rparr>"

lemma two_cycle_exhaustive: "exhaustive (two_cycle UNIQUE_GLOBAL order0) two_cycle_succ"
  by (auto simp: exhaustive_def two_cycle_def vertex_key_def two_cycle_succ_def)

lemma two_cycle_reachable:
  "reachable two_cycle_succ (JStr ''a'') v \<Longrightarrow> v = JStr ''a'' \<or> v = JStr ''b''"
  by (induction rule: reachable.induct) (auto simp: two_cycle_succ_def)

end
