(* ===== verification/Traversal_DFS.thy ===== *)
theory Traversal_DFS
  imports Traversal
begin

text \<open>
  The depth-first strategy of \<open>js/common/modules/org/arangodb/graph/traversal.js\<close>
  (\<open>depthFirstSearch\<close>): the stack of items, one step of its loop, the loop with its bound on the
  iterations, and three theorems: the visits are paths of the graph, a vertex is visited once under
  global uniqueness, and an exhaustive search visits what can be reached.
\<close>

subsection \<open>Depth-first search\<close>

text \<open>
  An item of the stack; \<open>i_visit\<close> is \<open>None\<close> until the item is opened. The stack is a list with its top
  at the head.
\<close>

record item =
  i_edge :: "jsval option"
  i_vertex :: jsval
  i_visit :: "bool option"

record 'r dfs_state =
  d_toVisit :: "item list"
  d_path :: tpath
  d_visited :: visited_ids
  d_result :: 'r

definition dfs_path_items :: "'r config \<Rightarrow> tpath \<Rightarrow> visited_ids \<Rightarrow> visited_ids" where
  "dfs_path_items cfg path visited =
     \<lparr>vis_edges = (if cfg_edgeUniqueness cfg = UNIQUE_PATH then edge_key cfg ` set (p_edges path) else vis_edges visited),
      vis_vertices = (if cfg_vertexUniqueness cfg = UNIQUE_PATH then vertex_key cfg ` set (p_vertices path)
                      else vis_vertices visited)\<rparr>"

definition dfs_unique :: "'r config \<Rightarrow> tpath \<Rightarrow> visited_ids \<Rightarrow> item \<Rightarrow> bool \<times> visited_ids" where
  "dfs_unique cfg path visited current =
     (if cfg_vertexUniqueness cfg \<noteq> UNIQUE_NONE \<or> cfg_edgeUniqueness cfg \<noteq> UNIQUE_NONE
      then checkUniqueness cfg (dfs_path_items cfg path visited) (i_vertex current) (i_edge current)
      else (True, visited))"

definition push_connected :: "connection list \<Rightarrow> item list \<Rightarrow> item list" where
  "push_connected conns stack =
     rev (map (\<lambda>c. \<lparr>i_edge = Some (c_edge c), i_vertex = c_vertex c, i_visit = None\<rparr>) conns) @ stack"

text \<open>The first visit of an element that passed the uniqueness check, with the path already extended.\<close>

definition dfs_open :: "'r config \<Rightarrow> item \<Rightarrow> item list \<Rightarrow> tpath \<Rightarrow> visited_ids \<Rightarrow> 'r \<Rightarrow> 'r dfs_state \<times> trav_exc option" where
  "dfs_open cfg current rest path visited result =
     (let (result', later, conns, exc) = visit_and_expand cfg (i_vertex current) path result
      in (\<lparr>d_toVisit = push_connected conns (current\<lparr>i_visit := Some later\<rparr> # rest), d_path = path,
           d_visited = visited, d_result = result'\<rparr>, exc))"

text \<open>The second visit: a post-order visit, and the element leaves the stack and the path.\<close>

definition dfs_close :: "'r config \<Rightarrow> item \<Rightarrow> item list \<Rightarrow> 'r dfs_state \<Rightarrow> 'r dfs_state \<times> trav_exc option" where
  "dfs_close cfg current rest s =
     (let (result, exc) = (if cfg_order cfg = POST_ORDER \<and> i_visit current = Some True
                           then cfg_visitor cfg (d_result s) (i_vertex current) (d_path s) []
                           else (d_result s, None))
      in case exc of
           Some e \<Rightarrow> (s\<lparr>d_result := result\<rparr>, Some e)
         | None \<Rightarrow> (s\<lparr>d_toVisit := rest, d_result := result,
               d_path := \<lparr>p_edges = butlast (p_edges (d_path s)), p_vertices = butlast (p_vertices (d_path s))\<rparr>\<rparr>, None))"

definition dfs_step :: "'r config \<Rightarrow> 'r dfs_state \<Rightarrow> 'r dfs_state \<times> trav_exc option" where
  "dfs_step cfg s = (case d_toVisit s of
      [] \<Rightarrow> (s, None)
    | current # rest \<Rightarrow>
        (if i_visit current = None
         then let (ok, visited) = dfs_unique cfg (d_path s) (d_visited s) current
              in if \<not> ok then (s\<lparr>d_toVisit := rest, d_visited := visited\<rparr>, None)
                 else dfs_open cfg current rest (extend_path (d_path s) (i_edge current) (i_vertex current)) visited (d_result s)
         else dfs_close cfg current rest s))"

definition dfs_loop :: "'r config \<Rightarrow> nat \<Rightarrow> 'r dfs_state \<Rightarrow> 'r dfs_state \<times> trav_exc option" where
  "dfs_loop cfg = search_loop (cfg_maxIterations cfg) (cfg_killed cfg) (\<lambda>s. d_toVisit s \<noteq> []) (dfs_step cfg)"

definition dfs_start :: "'r \<Rightarrow> jsval \<Rightarrow> 'r dfs_state" where
  "dfs_start result startVertex =
     \<lparr>d_toVisit = [\<lparr>i_edge = None, i_vertex = startVertex, i_visit = None\<rparr>],
      d_path = \<lparr>p_edges = [], p_vertices = []\<rparr>,
      d_visited = \<lparr>vis_edges = {}, vis_vertices = {}\<rparr>, d_result = result\<rparr>"

definition depthFirstSearch :: "'r config \<Rightarrow> 'r \<Rightarrow> jsval \<Rightarrow> 'r \<times> trav_exc option" where
  "depthFirstSearch cfg result startVertex =
     (let (s, exc) = dfs_loop cfg 0 (dfs_start result startVertex) in (d_result s, exc))"

subsection \<open>What a step of the depth-first search does\<close>

definition opened :: "item \<Rightarrow> bool" where
  "opened i \<longleftrightarrow> i_visit i \<noteq> None"

lemma dfs_open_cases:
  assumes "cfg_visitor cfg = recordingVisitor" "dfs_open cfg current rest path visited result = (s', exc)"
  obtains b r cs where
    "s' = \<lparr>d_toVisit = push_connected cs (current\<lparr>i_visit := Some b\<rparr> # rest), d_path = path, d_visited = visited,
        d_result = result @ (if r then [(i_vertex current, path)] else [])\<rparr>"
    "r \<Longrightarrow> cfg_order cfg \<noteq> POST_ORDER"
    "\<And>c. c \<in> set cs \<Longrightarrow> joins cfg (i_vertex current) (c_edge c) (c_vertex c)"
proof -
  obtain result' later cs exc' where v: "visit_and_expand cfg (i_vertex current) path result = (result', later, cs, exc')"
    by (metis prod_cases4)
  show thesis
    using visit_and_expand_recording [OF assms(1) v] assms(2) that by (auto simp: dfs_open_def v)
qed

lemma dfs_step_cases:
  assumes "cfg_visitor cfg = recordingVisitor" "d_toVisit s = current # rest"
  obtains
    (skip) visited where "\<not> opened current" "dfs_unique cfg (d_path s) (d_visited s) current = (False, visited)"
      "fst (dfs_step cfg s) = s\<lparr>d_toVisit := rest, d_visited := visited\<rparr>"
  | (enter) visited b r cs where "\<not> opened current" "dfs_unique cfg (d_path s) (d_visited s) current = (True, visited)"
      "fst (dfs_step cfg s) = \<lparr>d_toVisit = push_connected cs (current\<lparr>i_visit := Some b\<rparr> # rest),
          d_path = extend_path (d_path s) (i_edge current) (i_vertex current), d_visited = visited,
          d_result = d_result s @ (if r then [(i_vertex current, extend_path (d_path s) (i_edge current) (i_vertex current))] else [])\<rparr>"
      "r \<Longrightarrow> cfg_order cfg \<noteq> POST_ORDER"
      "\<And>c. c \<in> set cs \<Longrightarrow> joins cfg (i_vertex current) (c_edge c) (c_vertex c)"
  | (leave) r where "opened current" "r \<longleftrightarrow> cfg_order cfg = POST_ORDER \<and> i_visit current = Some True"
      "fst (dfs_step cfg s) = s\<lparr>d_toVisit := rest,
          d_path := \<lparr>p_edges = butlast (p_edges (d_path s)), p_vertices = butlast (p_vertices (d_path s))\<rparr>,
          d_result := d_result s @ (if r then [(i_vertex current, d_path s)] else [])\<rparr>"
proof (cases "opened current")
  case True
  then show thesis using assms leave
    by (auto simp: dfs_step_def opened_def dfs_close_def recordingVisitor_def Let_def split: if_splits)
next
  case False
  obtain ok visited where u: "dfs_unique cfg (d_path s) (d_visited s) current = (ok, visited)" by fastforce
  show thesis
  proof (cases ok)
    case False
    then show thesis using assms u skip \<open>\<not> opened current\<close> by (auto simp: dfs_step_def opened_def)
  next
    case True
    obtain s' exc where o: "dfs_open cfg current rest (extend_path (d_path s) (i_edge current) (i_vertex current)) visited (d_result s) = (s', exc)"
      by fastforce
    have st: "fst (dfs_step cfg s) = s'"
      using assms u True False o by (simp add: dfs_step_def opened_def)
    show thesis
    proof (rule dfs_open_cases [OF assms(1) o])
      fix b r cs
      assume "s' = \<lparr>d_toVisit = push_connected cs (current\<lparr>i_visit := Some b\<rparr> # rest),
          d_path = extend_path (d_path s) (i_edge current) (i_vertex current), d_visited = visited,
          d_result = d_result s @ (if r then [(i_vertex current, extend_path (d_path s) (i_edge current) (i_vertex current))] else [])\<rparr>"
        "r \<Longrightarrow> cfg_order cfg \<noteq> POST_ORDER"
        "\<And>c. c \<in> set cs \<Longrightarrow> joins cfg (i_vertex current) (c_edge c) (c_vertex c)"
      with st show thesis
        using enter [OF \<open>\<not> opened current\<close> u [unfolded eqTrueI [OF True]], where b = b and r = r and cs = cs]
        by simp
    qed
  qed
qed

lemma dfs_loop_invariant:
  "(\<And>s. I s \<Longrightarrow> d_toVisit s \<noteq> [] \<Longrightarrow> I (fst (dfs_step cfg s))) \<Longrightarrow> I s \<Longrightarrow> I (fst (dfs_loop cfg n s))"
  unfolding dfs_loop_def by (rule search_loop_invariant)

subsection \<open>Depth-first paths\<close>

text \<open>Every item was pushed when the nearest opened item below it was expanded; the start is at the bottom.\<close>

fun linked :: "(jsval \<Rightarrow> jsval \<Rightarrow> jsval \<Rightarrow> bool) \<Rightarrow> jsval \<Rightarrow> item list \<Rightarrow> bool" where
  "linked J start [] = True"
| "linked J start [i] = (i_edge i = None \<and> i_vertex i = start)"
| "linked J start (i # j # rest) = ((\<exists>e p. i_edge i = Some e \<and> List.find opened (j # rest) = Some p
      \<and> J (i_vertex p) e (i_vertex i)) \<and> linked J start (j # rest))"

definition opened_path :: "item list \<Rightarrow> item list" where
  "opened_path stack = rev (filter opened stack)"

lemma find_last_opened: "List.find opened stack = Some p \<Longrightarrow> opened_path stack \<noteq> [] \<and> last (opened_path stack) = p"
  by (induction stack) (auto simp: opened_path_def split: if_splits)

lemma find_opened_map_last: "List.find opened stack = Some p \<Longrightarrow> last (map f (opened_path stack)) = f p"
  using find_last_opened [of stack p] by (simp add: last_map)

lemma linked_tl: "linked J start (i # rest) \<Longrightarrow> linked J start rest"
  by (cases rest) auto

lemma linked_Cons:
  assumes "linked J start (i # rest)"
  obtains "rest = []" "i_edge i = None" "i_vertex i = start"
  | e p where "rest \<noteq> []" "i_edge i = Some e" "List.find opened rest = Some p" "J (i_vertex p) e (i_vertex i)"
  using assms by (cases rest) auto

lemma linked_visit: "linked J start (i # rest) \<Longrightarrow> linked J start (i\<lparr>i_visit := v\<rparr> # rest)"
  by (cases rest) auto

lemma push_connected_simps:
  "push_connected [] stack = stack"
  "push_connected (cs @ [c]) stack = \<lparr>i_edge = Some (c_edge c), i_vertex = c_vertex c, i_visit = None\<rparr> # push_connected cs stack"
  by (simp_all add: push_connected_def)

lemma opened_push: "opened_path (push_connected cs stack) = opened_path stack"
  by (induction cs rule: rev_induct) (simp_all add: push_connected_simps opened_path_def opened_def)

lemma find_push: "opened i \<Longrightarrow> List.find opened (push_connected cs (i # rest)) = Some i"
  by (induction cs rule: rev_induct) (simp_all add: push_connected_simps opened_def)

lemma linked_push:
  assumes "linked J start (i # rest)" "opened i"
    "\<And>c. c \<in> set cs \<Longrightarrow> J (i_vertex i) (c_edge c) (c_vertex c)"
  shows "linked J start (push_connected cs (i # rest))"
  using assms(3)
proof (induction cs rule: rev_induct)
  case Nil
  then show ?case using assms(1) by (simp add: push_connected_simps)
next
  case (snoc c cs)
  obtain j st where st: "push_connected cs (i # rest) = j # st"
    by (cases "push_connected cs (i # rest)") (auto simp: push_connected_def)
  show ?case using snoc find_push [OF assms(2), of cs rest] unfolding push_connected_simps st by auto
qed

text \<open>The current path, as the opened items say it is.\<close>

definition path_matches :: "item list \<Rightarrow> tpath \<Rightarrow> bool" where
  "path_matches stack path \<longleftrightarrow> p_vertices path = map i_vertex (opened_path stack)
     \<and> map Some (p_edges path) = map i_edge (tl (opened_path stack))"

lemma path_chain:
  assumes "linked J start stack" "path_matches stack path" "opened_path stack \<noteq> []"
  shows "chain J (p_vertices path) (p_edges path) \<and> hd (p_vertices path) = start"
  using assms
proof (induction stack arbitrary: path)
  case Nil
  then show ?case by (simp add: opened_path_def)
next
  case (Cons i stack)
  show ?case
  proof (cases "opened i")
    case False
    then have "opened_path (i # stack) = opened_path stack" by (simp add: opened_path_def)
    then show ?thesis using Cons.IH [OF linked_tl [OF Cons.prems(1)]] Cons.prems by (simp add: path_matches_def)
  next
    case True
    then have o: "opened_path (i # stack) = opened_path stack @ [i]" by (simp add: opened_path_def)
    from Cons.prems(1) show ?thesis
    proof (cases rule: linked_Cons)
      case 1
      then show ?thesis using Cons.prems(2) o by (auto simp: path_matches_def opened_path_def)
    next
      case (2 e p)
      note ne = find_last_opened [OF 2(3)]
      obtain es where es: "map Some es = map i_edge (tl (opened_path stack))" "p_edges path = es @ [e]"
        using Cons.prems(2) o ne 2(2) by (auto simp: path_matches_def map_eq_append_conv)
      let ?path = "\<lparr>p_edges = es, p_vertices = map i_vertex (opened_path stack)\<rparr>"
      have "path_matches stack ?path" using es by (simp add: path_matches_def)
      from Cons.IH [OF linked_tl [OF Cons.prems(1)] this] ne
      have IH: "chain J (map i_vertex (opened_path stack)) es \<and> hd (map i_vertex (opened_path stack)) = start" by simp
      have "last (map i_vertex (opened_path stack)) = i_vertex p" by (rule find_opened_map_last [OF 2(3)])
      then have "chain J (map i_vertex (opened_path stack) @ [i_vertex i]) (es @ [e])"
        using IH 2(4) by (intro chain_append) auto
      then show ?thesis using Cons.prems(2) IH o ne es by (simp add: path_matches_def)
    qed
  qed
qed

lemma path_matches_leave:
  assumes "path_matches (i # stack) path" "opened i"
  shows "path_matches stack \<lparr>p_edges = butlast (p_edges path), p_vertices = butlast (p_vertices path)\<rparr>"
proof -
  have o: "opened_path (i # stack) = opened_path stack @ [i]" using assms(2) by (simp add: opened_path_def)
  have "map Some (butlast (p_edges path)) = butlast (map i_edge (tl (opened_path (i # stack))))"
    using assms(1) by (simp add: path_matches_def map_butlast)
  also have "\<dots> = map i_edge (tl (opened_path stack))"
    by (cases "opened_path stack") (simp_all add: o)
  finally show ?thesis using assms(1) by (simp add: path_matches_def o)
qed

lemma path_matches_enter:
  assumes "path_matches (i # stack) path" "\<not> opened i" "linked J start (i # stack)"
  shows "path_matches (i\<lparr>i_visit := Some b\<rparr> # stack) (extend_path path (i_edge i) (i_vertex i))"
proof -
  have o: "opened_path (i # stack) = opened_path stack"
    "opened_path (i\<lparr>i_visit := Some b\<rparr> # stack) = opened_path stack @ [i\<lparr>i_visit := Some b\<rparr>]"
    using assms(2) by (simp_all add: opened_path_def opened_def)
  from assms(3) show ?thesis
  proof (cases rule: linked_Cons)
    case 1
    then show ?thesis using assms(1) o by (simp add: path_matches_def extend_path_def opened_path_def)
  next
    case (2 e p)
    then show ?thesis using assms(1) o find_last_opened [OF 2(3)] by (simp add: path_matches_def extend_path_def)
  qed
qed

text \<open>What the search guarantees of a recorded visit.\<close>

definition dfs_inv :: "recording config \<Rightarrow> jsval \<Rightarrow> recording dfs_state \<Rightarrow> bool" where
  "dfs_inv cfg start s \<longleftrightarrow> linked (joins cfg) start (d_toVisit s) \<and> path_matches (d_toVisit s) (d_path s)
     \<and> simple_path cfg (d_path s) \<and> list_all (good_visit cfg start) (d_result s)"

lemma dfs_unique_vertex:
  assumes "dfs_unique cfg path visited current = (True, visited')" "cfg_vertexUniqueness cfg = UNIQUE_PATH"
  shows "vertex_key cfg (i_vertex current) \<notin> vertex_key cfg ` set (p_vertices path)"
  using assms by (auto simp: dfs_unique_def checkUniqueness_def dfs_path_items_def Let_def split: if_splits)

lemma dfs_unique_edge:
  assumes "dfs_unique cfg path visited current = (True, visited')" "cfg_edgeUniqueness cfg = UNIQUE_PATH"
    "i_edge current = Some e"
  shows "edge_key cfg e \<notin> edge_key cfg ` set (p_edges path)"
  using assms
  by (auto simp: dfs_unique_def checkUniqueness_def check_edge_def dfs_path_items_def Let_def split: if_splits)

lemma simple_path_enter:
  assumes "simple_path cfg path" "dfs_unique cfg path visited current = (True, visited')"
  shows "simple_path cfg (extend_path path (i_edge current) (i_vertex current))"
  using assms(1) dfs_unique_vertex [OF assms(2)] dfs_unique_edge [OF assms(2)]
  by (auto simp: simple_path_def extend_path_def split: option.splits)

lemma simple_path_leave:
  "simple_path cfg path \<Longrightarrow> simple_path cfg \<lparr>p_edges = butlast (p_edges path), p_vertices = butlast (p_vertices path)\<rparr>"
  by (auto simp: simple_path_def map_butlast distinct_butlast)

lemma good_visit_path:
  assumes "linked (joins cfg) start (i # stack)" "path_matches (i # stack) path" "opened i" "simple_path cfg path"
  shows "good_visit cfg start (i_vertex i, path)"
  using path_chain [OF assms(1,2)] assms(2-4)
  by (auto simp: good_visit_def path_matches_def opened_path_def)

lemma dfs_inv_step:
  assumes "cfg_visitor cfg = recordingVisitor" "dfs_inv cfg start s" "d_toVisit s \<noteq> []"
  shows "dfs_inv cfg start (fst (dfs_step cfg s))"
proof -
  obtain cur rest where st: "d_toVisit s = cur # rest" using assms(3) by (cases "d_toVisit s") auto
  have inv: "linked (joins cfg) start (cur # rest)" "path_matches (cur # rest) (d_path s)"
    "simple_path cfg (d_path s)" "list_all (good_visit cfg start) (d_result s)"
    using assms(2) by (simp_all add: dfs_inv_def st)
  from assms(1) st show ?thesis
  proof (cases rule: dfs_step_cases)
    case (skip visited)
    then have "opened_path (cur # rest) = opened_path rest" by (simp add: opened_path_def)
    then show ?thesis using skip inv linked_tl [OF inv(1)] by (simp add: dfs_inv_def path_matches_def)
  next
    case (enter visited b r cs)
    let ?cur = "cur\<lparr>i_visit := Some b\<rparr>"
    have o: "opened ?cur" by (simp add: opened_def)
    have l: "linked (joins cfg) start (?cur # rest)" by (rule linked_visit [OF inv(1)])
    have m: "path_matches (?cur # rest) (extend_path (d_path s) (i_edge cur) (i_vertex cur))"
      by (rule path_matches_enter [OF inv(2) enter(1) inv(1)])
    have sp: "simple_path cfg (extend_path (d_path s) (i_edge cur) (i_vertex cur))" by (rule simple_path_enter [OF inv(3) enter(2)])
    have "linked (joins cfg) start (push_connected cs (?cur # rest))"
      by (rule linked_push [OF l o]) (use enter(5) in simp)
    moreover have "path_matches (push_connected cs (?cur # rest)) (extend_path (d_path s) (i_edge cur) (i_vertex cur))"
      using m by (simp add: path_matches_def opened_push)
    ultimately show ?thesis
      using enter(3) good_visit_path [OF l m o sp] inv(4) sp by (simp add: dfs_inv_def)
  next
    case (leave r)
    then show ?thesis
      using inv good_visit_path [OF inv(1,2) leave(1) inv(3)] path_matches_leave [OF inv(2) leave(1)]
        simple_path_leave [OF inv(3)] linked_tl [OF inv(1)]
      by (simp add: dfs_inv_def)
  qed
qed

text \<open>
  C15: Every path the depth-first search hands to the visitor, in any order and also before an
  exception ends it, is a path of the graph: it starts at the start vertex, ends at the visited
  vertex, and each edge on it was returned by the expander for the vertex before it. Under path
  uniqueness no vertex, respectively no edge, occurs twice on it.
\<close>

theorem dfs_visits_paths:
  assumes "cfg_visitor cfg = recordingVisitor" "(v, path) \<in> set (fst (depthFirstSearch cfg [] start))"
  shows "chain (joins cfg) (p_vertices path) (p_edges path)
    \<and> hd (p_vertices path) = start \<and> last (p_vertices path) = v
    \<and> (cfg_vertexUniqueness cfg = UNIQUE_PATH \<longrightarrow> distinct (map (vertex_key cfg) (p_vertices path)))
    \<and> (cfg_edgeUniqueness cfg = UNIQUE_PATH \<longrightarrow> distinct (map (edge_key cfg) (p_edges path)))"
proof -
  have "dfs_inv cfg start (dfs_start [] start)"
    by (simp add: dfs_inv_def dfs_start_def path_matches_def opened_path_def opened_def simple_path_def)
  then have "dfs_inv cfg start (fst (dfs_loop cfg 0 (dfs_start [] start)))"
    by (rule dfs_loop_invariant [rotated]) (rule dfs_inv_step [OF assms(1)])
  then show ?thesis using assms(2)
    by (auto simp: dfs_inv_def list_all_iff good_visit_def simple_path_def depthFirstSearch_def split: prod.splits)
qed

theorem dfs_visits_paths_witness:
  "distinct (map (vertex_key (two_cycle UNIQUE_PATH PRE_ORDER)) [JStr ''a'', JStr ''b''])"
proof -
  have "(JStr ''b'', \<lparr>p_edges = [JStr ''ab''], p_vertices = [JStr ''a'', JStr ''b'']\<rparr>)
      \<in> set (fst (depthFirstSearch (two_cycle UNIQUE_PATH PRE_ORDER) [] (JStr ''a'')))" by code_simp
  from dfs_visits_paths [OF _ this] show ?thesis by (simp add: two_cycle_def Let_def)
qed

subsection \<open>Global uniqueness\<close>

lemma dfs_unique_global:
  assumes "cfg_vertexUniqueness cfg = UNIQUE_GLOBAL"
  shows "dfs_unique cfg path visited current = (True, visited') \<Longrightarrow>
      vertex_key cfg (i_vertex current) \<notin> vis_vertices visited
      \<and> vis_vertices visited' = insert (vertex_key cfg (i_vertex current)) (vis_vertices visited)"
    and "dfs_unique cfg path visited current = (False, visited') \<Longrightarrow> vis_vertices visited \<subseteq> vis_vertices visited'"
  using assms
  by (auto simp: dfs_unique_def checkUniqueness_def check_edge_def dfs_path_items_def Let_def split: if_splits option.splits)

text \<open>The opened items that a post-order search has still to visit.\<close>

definition pending :: "'r config \<Rightarrow> item list \<Rightarrow> jsval list" where
  "pending cfg stack = (if cfg_order cfg = POST_ORDER
     then map i_vertex (filter (\<lambda>i. i_visit i = Some True) stack) else [])"

definition global_inv :: "recording config \<Rightarrow> recording dfs_state \<Rightarrow> bool" where
  "global_inv cfg s \<longleftrightarrow>
     (let keys = map (vertex_key cfg) (map fst (d_result s) @ pending cfg (d_toVisit s))
      in distinct keys \<and> set keys \<subseteq> vis_vertices (d_visited s))"

lemma pending_push: "pending cfg (push_connected cs stack) = pending cfg stack"
  by (cases "cfg_order cfg = POST_ORDER"; induction cs rule: rev_induct)
    (simp_all add: push_connected_simps pending_def)

lemma global_inv_step:
  assumes "cfg_visitor cfg = recordingVisitor" "cfg_vertexUniqueness cfg = UNIQUE_GLOBAL" "global_inv cfg s" "d_toVisit s \<noteq> []"
  shows "global_inv cfg (fst (dfs_step cfg s))"
proof -
  obtain cur rest where st: "d_toVisit s = cur # rest" using assms(4) by (cases "d_toVisit s") auto
  from assms(1) st show ?thesis
  proof (cases rule: dfs_step_cases)
    case (skip visited)
    have "pending cfg (cur # rest) = pending cfg rest" using skip(1) by (simp add: pending_def opened_def)
    then show ?thesis using assms(3)
      by (auto simp: global_inv_def Let_def st skip(3) intro: subsetD [OF dfs_unique_global(2) [OF assms(2) skip(2)]])
  next
    case (enter visited b r cs)
    have old: "pending cfg (cur # rest) = pending cfg rest" using enter(1) by (simp add: pending_def opened_def)
    have new: "pending cfg (cur\<lparr>i_visit := Some b\<rparr> # rest)
        = (if cfg_order cfg = POST_ORDER \<and> b then i_vertex cur # pending cfg rest else pending cfg rest)" for b
      by (simp add: pending_def)
    show ?thesis using assms(3) dfs_unique_global(1) [OF assms(2) enter(2)] enter(4)
      by (cases r; cases "cfg_order cfg = POST_ORDER \<and> b")
        (auto simp: global_inv_def st Let_def enter(3) pending_push old new)
  next
    case (leave r)
    then show ?thesis using assms(3)
      by (auto simp: global_inv_def st pending_def opened_def Let_def split: if_splits)
  qed
qed

lemma dfs_visits_distinct:
  assumes "cfg_visitor cfg = recordingVisitor" "cfg_vertexUniqueness cfg = UNIQUE_GLOBAL"
  shows "distinct (map (vertex_key cfg \<circ> fst) (fst (depthFirstSearch cfg [] start)))"
proof -
  have "global_inv cfg (dfs_start [] start)"
    by (simp add: global_inv_def dfs_start_def pending_def)
  then have "global_inv cfg (fst (dfs_loop cfg 0 (dfs_start [] start)))"
    by (rule dfs_loop_invariant [rotated]) (rule global_inv_step [OF assms])
  then show ?thesis
    by (auto simp: global_inv_def Let_def depthFirstSearch_def split: prod.splits)
qed

text \<open>
  Under global uniqueness of vertices the depth-first search visits no vertex twice, in any
  visitation order.
\<close>

theorem dfs_global_visits_once:
  assumes "cfg_visitor cfg = recordingVisitor" "cfg_vertexUniqueness cfg = UNIQUE_GLOBAL"
  shows "distinct (map (vertex_key cfg \<circ> fst) (fst (depthFirstSearch cfg [] start)))"
  using assms by (rule dfs_visits_distinct)

theorem dfs_global_visits_once_witness:
  "distinct (map (vertex_key (two_cycle UNIQUE_GLOBAL POST_ORDER) \<circ> fst)
     (fst (depthFirstSearch (two_cycle UNIQUE_GLOBAL POST_ORDER) [] (JStr ''a''))))"
  by (rule dfs_global_visits_once) (simp_all add: two_cycle_def Let_def)

subsection \<open>Completeness\<close>

definition waiting :: "'r config \<Rightarrow> item list \<Rightarrow> string set" where
  "waiting cfg stack = set (map (vertex_key cfg \<circ> i_vertex) (filter (\<lambda>i. \<not> opened i) stack))"

text \<open>Every connection from a visited vertex, and the start, leads to a visited or a waiting vertex.\<close>

definition closed_under :: "'r config \<Rightarrow> (jsval \<Rightarrow> connection list) \<Rightarrow> jsval \<Rightarrow> string set \<Rightarrow> string set \<Rightarrow> bool" where
  "closed_under cfg succ start V W \<longleftrightarrow> vertex_key cfg start \<in> V \<union> W
     \<and> (\<forall>v c. vertex_key cfg v \<in> V \<and> c \<in> set (succ v) \<longrightarrow> vertex_key cfg (c_vertex c) \<in> V \<union> W)"

lemma closed_under_mono: "closed_under cfg succ start V W \<Longrightarrow> W \<subseteq> W' \<union> V \<Longrightarrow> closed_under cfg succ start V W'"
  unfolding closed_under_def by blast

lemma closed_under_add:
  assumes "closed_under cfg succ start V (insert (vertex_key cfg u) W)"
    "\<And>v. vertex_key cfg v = vertex_key cfg u \<Longrightarrow> succ v = succ u"
  shows "closed_under cfg succ start (insert (vertex_key cfg u) V) (vertex_key cfg ` c_vertex ` set (succ u) \<union> W)"
proof -
  have "vertex_key cfg (c_vertex c) \<in> insert (vertex_key cfg u) V \<union> (vertex_key cfg ` c_vertex ` set (succ u) \<union> W)"
    if "vertex_key cfg v \<in> insert (vertex_key cfg u) V" "c \<in> set (succ v)" for v c
  proof (cases "vertex_key cfg v = vertex_key cfg u")
    case True
    then have "c \<in> set (succ u)" using assms(2) [OF True] that(2) by simp
    then show ?thesis by blast
  next
    case False
    then show ?thesis using assms(1) that unfolding closed_under_def by blast
  qed
  then show ?thesis using assms(1) unfolding closed_under_def by blast
qed

definition complete_inv :: "recording config \<Rightarrow> (jsval \<Rightarrow> connection list) \<Rightarrow> jsval \<Rightarrow> recording dfs_state \<Rightarrow> bool" where
  "complete_inv cfg succ start s \<longleftrightarrow>
     vis_vertices (d_visited s) = vertex_key cfg ` (fst ` set (d_result s) \<union> set (pending cfg (d_toVisit s)))
     \<and> closed_under cfg succ start (vis_vertices (d_visited s)) (waiting cfg (d_toVisit s))
     \<and> (\<forall>v \<in> i_vertex ` set (d_toVisit s) \<union> fst ` set (d_result s). reachable succ start v)"

lemma dfs_open_all:
  assumes "exhaustive cfg succ"
  shows "\<exists>cs. set cs = set (succ (i_vertex current))
    \<and> fst (dfs_open cfg current rest path visited result)
      = \<lparr>d_toVisit = push_connected cs (current\<lparr>i_visit := Some (cfg_order cfg \<noteq> PRE_ORDER)\<rparr> # rest),
         d_path = path, d_visited = visited,
         d_result = result @ (if cfg_order cfg \<noteq> POST_ORDER then [(i_vertex current, path)] else [])\<rparr>"
  by (intro exI [of _ "if checkReverse cfg then rev (succ (i_vertex current)) else succ (i_vertex current)"])
    (simp add: dfs_open_def visit_and_expand_exhaustive [OF assms])

lemma waiting_push:
  "waiting cfg (push_connected cs stack) = vertex_key cfg ` c_vertex ` set cs \<union> waiting cfg stack"
  by (induction cs rule: rev_induct) (auto simp: push_connected_simps waiting_def opened_def)

lemma waiting_simps:
  "\<not> opened i \<Longrightarrow> waiting cfg (i # stack) = insert (vertex_key cfg (i_vertex i)) (waiting cfg stack)"
  "opened i \<Longrightarrow> waiting cfg (i # stack) = waiting cfg stack"
  by (auto simp: waiting_def)

lemma set_push: "i_vertex ` set (push_connected cs stack) = c_vertex ` set cs \<union> i_vertex ` set stack"
  by (induction cs rule: rev_induct) (auto simp: push_connected_simps)

lemma complete_inv_keep:
  assumes inv: "complete_inv cfg succ start s" and vis: "vis_vertices (d_visited s') = vis_vertices (d_visited s)"
    and same: "fst ` set (d_result s') \<union> set (pending cfg (d_toVisit s'))
      = fst ` set (d_result s) \<union> set (pending cfg (d_toVisit s))"
    and wait: "waiting cfg (d_toVisit s) \<subseteq> waiting cfg (d_toVisit s') \<union> vis_vertices (d_visited s)"
    and sub: "i_vertex ` set (d_toVisit s') \<union> fst ` set (d_result s') \<subseteq> i_vertex ` set (d_toVisit s) \<union> fst ` set (d_result s)"
  shows "complete_inv cfg succ start s'"
proof -
  note i = inv [unfolded complete_inv_def]
  note old = i [THEN conjunct1] i [THEN conjunct2, THEN conjunct1] i [THEN conjunct2, THEN conjunct2]
  have "reachable succ start v" if "v \<in> i_vertex ` set (d_toVisit s') \<union> fst ` set (d_result s')" for v
    by (rule bspec [OF old(3) subsetD [OF sub that]])
  then show ?thesis
    unfolding complete_inv_def vis same
    by (intro conjI ballI) (rule old(1), rule closed_under_mono [OF old(2) wait], assumption)
qed

lemma complete_inv_step:
  assumes e: "exhaustive cfg succ" and inv: "complete_inv cfg succ start s" and "d_toVisit s \<noteq> []"
  shows "complete_inv cfg succ start (fst (dfs_step cfg s))"
proof -
  obtain cur rest where st: "d_toVisit s = cur # rest" using assms(3) by (cases "d_toVisit s") auto
  note g = exhaustiveD(1-3) [OF e]
  let ?k = "vertex_key cfg (i_vertex cur)" and ?vis = "vis_vertices (d_visited s)"
  show ?thesis
  proof (cases "opened cur")
    case True
    have step: "fst (dfs_step cfg s) = s\<lparr>d_toVisit := rest,
        d_path := \<lparr>p_edges = butlast (p_edges (d_path s)), p_vertices = butlast (p_vertices (d_path s))\<rparr>,
        d_result := d_result s @ (if cfg_order cfg = POST_ORDER \<and> i_visit cur = Some True then [(i_vertex cur, d_path s)] else [])\<rparr>"
      using True by (auto simp: dfs_step_def st opened_def dfs_close_def g recordingVisitor_def Let_def)
    show ?thesis
      by (rule complete_inv_keep [OF inv]) (auto simp: step st pending_def waiting_simps(2) [OF True])
  next
    case False
    note unopened = this
    have u: "dfs_unique cfg (d_path s) (d_visited s) cur
        = (if ?k \<in> ?vis then (False, d_visited s) else (True, (d_visited s)\<lparr>vis_vertices := insert ?k ?vis\<rparr>))"
      by (auto simp: dfs_unique_def checkUniqueness_def check_edge_def dfs_path_items_def g Let_def split: option.split)
    have pend: "pending cfg (cur # rest) = pending cfg rest" using unopened by (simp add: pending_def opened_def)
    show ?thesis
    proof (cases "?k \<in> ?vis")
      case True
      then have step: "fst (dfs_step cfg s) = s\<lparr>d_toVisit := rest\<rparr>"
        using unopened u by (simp add: dfs_step_def st opened_def)
      show ?thesis
        by (rule complete_inv_keep [OF inv]) (use True in \<open>auto simp: step st pend waiting_simps(1) [OF unopened]\<close>)
    next
      case False
      obtain cs where cs: "set cs = set (succ (i_vertex cur))"
        "fst (dfs_step cfg s) = \<lparr>d_toVisit = push_connected cs (cur\<lparr>i_visit := Some (cfg_order cfg \<noteq> PRE_ORDER)\<rparr> # rest),
           d_path = extend_path (d_path s) (i_edge cur) (i_vertex cur), d_visited = (d_visited s)\<lparr>vis_vertices := insert ?k ?vis\<rparr>,
           d_result = d_result s @ (if cfg_order cfg \<noteq> POST_ORDER then [(i_vertex cur, extend_path (d_path s) (i_edge cur) (i_vertex cur))] else [])\<rparr>"
        using dfs_open_all [OF e, of cur rest "extend_path (d_path s) (i_edge cur) (i_vertex cur)" "(d_visited s)\<lparr>vis_vertices := insert ?k ?vis\<rparr>" "d_result s"]
          unopened u False by (auto simp: dfs_step_def st opened_def)
      let ?cur = "cur\<lparr>i_visit := Some (cfg_order cfg \<noteq> PRE_ORDER)\<rparr>" and ?s' = "fst (dfs_step cfg s)"
      have "waiting cfg (push_connected cs (?cur # rest)) = vertex_key cfg ` c_vertex ` set (succ (i_vertex cur)) \<union> waiting cfg rest"
        by (simp add: waiting_push cs(1) waiting_simps(2) [of ?cur] opened_def)
      moreover have "closed_under cfg succ start ?vis (insert ?k (waiting cfg rest))"
        using inv unfolding complete_inv_def st waiting_simps(1) [OF unopened] by blast
      ultimately have closed: "closed_under cfg succ start (vis_vertices (d_visited ?s')) (waiting cfg (d_toVisit ?s'))"
        using closed_under_add [OF _ exhaustiveD(6) [OF e]] by (simp add: cs(2))
      have "set (pending cfg (push_connected cs (?cur # rest)))
          = (if cfg_order cfg = POST_ORDER then insert (i_vertex cur) (set (pending cfg (cur # rest))) else {})"
        unfolding pending_push using unopened by (auto simp: pending_def opened_def)
      then have "fst ` set (d_result ?s') \<union> set (pending cfg (d_toVisit ?s'))
          = insert (i_vertex cur) (fst ` set (d_result s) \<union> set (pending cfg (d_toVisit s)))"
        by (auto simp: cs(2) st) (auto simp: pending_def)
      then have vis: "vis_vertices (d_visited ?s') = vertex_key cfg ` (fst ` set (d_result ?s') \<union> set (pending cfg (d_toVisit ?s')))"
        using inv by (simp add: cs(2) complete_inv_def)
      have cur: "reachable succ start (i_vertex cur)" using inv by (simp add: complete_inv_def st)
      have "i_vertex ` set (d_toVisit ?s') = c_vertex ` set (succ (i_vertex cur)) \<union> i_vertex ` set (cur # rest)"
        by (simp add: cs set_push)
      moreover have "fst ` set (d_result ?s') \<subseteq> insert (i_vertex cur) (fst ` set (d_result s))"
        by (auto simp: cs(2))
      moreover have "\<forall>v \<in> i_vertex ` set (cur # rest) \<union> fst ` set (d_result s). reachable succ start v"
        using inv unfolding complete_inv_def st by blast
      ultimately have sub: "i_vertex ` set (d_toVisit ?s') \<union> fst ` set (d_result ?s')
          \<subseteq> c_vertex ` set (succ (i_vertex cur)) \<union> (i_vertex ` set (cur # rest) \<union> fst ` set (d_result s))"
        and old: "\<forall>v \<in> i_vertex ` set (cur # rest) \<union> fst ` set (d_result s). reachable succ start v"
        by auto
      have "\<forall>v \<in> c_vertex ` set (succ (i_vertex cur)). reachable succ start v"
        by (auto intro: reachable_step [OF cur])
      then have "\<forall>v \<in> i_vertex ` set (d_toVisit ?s') \<union> fst ` set (d_result ?s'). reachable succ start v"
        using old subsetD [OF sub] by (metis UnE)
      then show ?thesis unfolding complete_inv_def by (intro conjI vis closed)
    qed
  qed
qed

lemma dfs_loop_finished: "dfs_loop cfg n s = (s', None) \<Longrightarrow> d_toVisit s' = []"
  by (auto simp: dfs_loop_def dest: search_loop_finished)

text \<open>A search that ended without an exception has visited exactly what can be reached.\<close>

lemma dfs_exhaustive_visits:
  assumes "exhaustive cfg succ" and s: "dfs_loop cfg 0 (dfs_start [] start) = (s, None)"
  shows "vertex_key cfg ` fst ` set (d_result s) = vertex_key cfg ` {v. reachable succ start v}"
proof -
  have "complete_inv cfg succ start (dfs_start [] start)"
    by (simp add: complete_inv_def closed_under_def dfs_start_def waiting_def opened_def pending_def reachable_start)
  then have "complete_inv cfg succ start (fst (dfs_loop cfg 0 (dfs_start [] start)))"
    by (rule dfs_loop_invariant [rotated]) (rule complete_inv_step [OF assms(1)])
  then have inv: "vis_vertices (d_visited s) = vertex_key cfg ` fst ` set (d_result s)"
    "closed_under cfg succ start (vertex_key cfg ` fst ` set (d_result s)) {}"
    "\<forall>v \<in> fst ` set (d_result s). reachable succ start v"
    using dfs_loop_finished [OF s] by (auto simp: complete_inv_def s pending_def waiting_def)
  have "vertex_key cfg v \<in> vertex_key cfg ` fst ` set (d_result s)" if "reachable succ start v" for v
    using that by induction (use inv(2) in \<open>unfold closed_under_def, blast+\<close>)
  then show ?thesis using inv(3) by auto
qed

subsection \<open>Termination\<close>

text \<open>
  Every iteration of an exhaustive search pops an item or opens one. An item of weight two comes onto the
  stack for each connection of a vertex when it is first visited.
\<close>

definition stack_weight :: "item list \<Rightarrow> nat" where
  "stack_weight stack = (\<Sum>i\<leftarrow>stack. if opened i then 1 else 2)"

lemma stack_weight_push: "stack_weight (push_connected cs stack) = 2 * length cs + stack_weight stack"
  by (induction cs rule: rev_induct) (simp_all add: push_connected_simps stack_weight_def opened_def)

lemma dfs_step_decreases:
  assumes e: "exhaustive cfg succ" and inv: "complete_inv cfg succ start s" and "d_toVisit s \<noteq> []"
    and fin: "\<forall>v. reachable succ start v \<longrightarrow> vertex_key cfg v \<in> vertex_key cfg ` set vs"
  shows "snd (dfs_step cfg s) = None
    \<and> stack_weight (d_toVisit (fst (dfs_step cfg s))) + 2 * unvisited_degree cfg succ vs (vis_vertices (d_visited (fst (dfs_step cfg s))))
      < stack_weight (d_toVisit s) + 2 * unvisited_degree cfg succ vs (vis_vertices (d_visited s))"
proof -
  obtain cur rest where st: "d_toVisit s = cur # rest" using assms(3) by (cases "d_toVisit s") auto
  note g = exhaustiveD(1-3) [OF e]
  let ?k = "vertex_key cfg (i_vertex cur)" and ?vis = "vis_vertices (d_visited s)"
  show ?thesis
  proof (cases "opened cur")
    case True
    then show ?thesis
      by (auto simp: dfs_step_def st opened_def dfs_close_def g recordingVisitor_def Let_def stack_weight_def)
  next
    case False
    then have none: "i_visit cur = None" by (simp add: opened_def)
    have u: "dfs_unique cfg (d_path s) (d_visited s) cur
        = (if ?k \<in> ?vis then (False, d_visited s) else (True, (d_visited s)\<lparr>vis_vertices := insert ?k ?vis\<rparr>))"
      by (auto simp: dfs_unique_def checkUniqueness_def check_edge_def dfs_path_items_def g Let_def split: option.split)
    show ?thesis
    proof (cases "?k \<in> ?vis")
      case True
      then show ?thesis by (simp add: dfs_step_def st none u stack_weight_def)
    next
      case new: False
      have "reachable succ start (i_vertex cur)" using inv by (simp add: complete_inv_def st)
      then have "unvisited_degree cfg succ vs (insert ?k ?vis) + length (succ (i_vertex cur)) \<le> unvisited_degree cfg succ vs ?vis"
        using fin new by (intro unvisited_degree_insert [OF e]) auto
      then show ?thesis using False new
        by (simp add: dfs_step_def st none u dfs_open_def visit_and_expand_exhaustive [OF e] stack_weight_push)
          (simp add: stack_weight_def opened_def)
    qed
  qed
qed

text \<open>
  C16: A depth-first search without a filter and with global uniqueness, over a graph with finitely many
  reachable vertices, ends without an exception if \<open>maxIterations\<close> is at least twice the number of their
  connections plus one, and it has then visited exactly the vertices that can be reached from the
  start, each once.
\<close>

theorem dfs_visits_reachable:
  assumes "exhaustive cfg succ" "\<And>n. \<not> cfg_killed cfg n"
    "\<forall>v. reachable succ start v \<longrightarrow> vertex_key cfg v \<in> vertex_key cfg ` set vs"
    "2 * (\<Sum>v\<leftarrow>vs. length (succ v)) + 1 \<le> cfg_maxIterations cfg"
  shows "\<exists>visits. depthFirstSearch cfg [] start = (visits, None)
    \<and> vertex_key cfg ` fst ` set visits = vertex_key cfg ` {v. reachable succ start v}
    \<and> distinct (map (vertex_key cfg \<circ> fst) visits)"
proof -
  let ?s = "dfs_start [] start"
  have init: "complete_inv cfg succ start ?s"
    by (simp add: complete_inv_def closed_under_def dfs_start_def waiting_def opened_def pending_def reachable_start)
  have "snd (dfs_loop cfg 0 ?s) = None"
    unfolding dfs_loop_def
  proof (rule search_loop_ends [where I = "complete_inv cfg succ start"])
    show "int (0 + (\<lambda>s. stack_weight (d_toVisit s) + 2 * unvisited_degree cfg succ vs (vis_vertices (d_visited s))) ?s)
        \<le> cfg_maxIterations cfg + 1"
      using assms(4) by (simp add: dfs_start_def stack_weight_def opened_def unvisited_degree_def)
  qed (use init assms(2) complete_inv_step [OF assms(1)] dfs_step_decreases [OF assms(1) _ _ assms(3)] in auto)
  then obtain s where s: "dfs_loop cfg 0 ?s = (s, None)" by (cases "dfs_loop cfg 0 ?s") auto
  have "depthFirstSearch cfg [] start = (d_result s, None)" by (simp add: depthFirstSearch_def s)
  then show ?thesis
    using dfs_exhaustive_visits [OF assms(1) s] dfs_visits_distinct [OF exhaustiveD(3,1) [OF assms(1)], of start] by auto
qed

theorem dfs_visits_reachable_witness:
  "\<exists>visits. depthFirstSearch (two_cycle UNIQUE_GLOBAL PRE_ORDER) [] (JStr ''a'') = (visits, None)
    \<and> vertex_key (two_cycle UNIQUE_GLOBAL PRE_ORDER) ` fst ` set visits
      = vertex_key (two_cycle UNIQUE_GLOBAL PRE_ORDER) ` {v. reachable two_cycle_succ (JStr ''a'') v}
    \<and> distinct (map (vertex_key (two_cycle UNIQUE_GLOBAL PRE_ORDER) \<circ> fst) visits)"
  by (rule dfs_visits_reachable [where vs = "[JStr ''a'', JStr ''b'']"])
    (use two_cycle_exhaustive two_cycle_reachable in \<open>auto simp: two_cycle_def two_cycle_succ_def\<close>)

end
