(* ===== verification/Traversal_BFS.thy ===== *)
theory Traversal_BFS
  imports Traversal
begin

text \<open>
  The breadth-first strategy of \<open>js/common/modules/org/arangodb/graph/traversal.js\<close>
  (\<open>breadthFirstSearch\<close>): the array of items with their parent indices, the walk forth over it and
  back again, and three theorems: the visits are paths of the graph, they come in the order of their
  length, and an exhaustive search visits what can be reached, by shortest paths.
\<close>

subsection \<open>Breadth-first search\<close>

record bfs_item =
  b_edge :: "jsval option"
  b_vertex :: jsval
  b_parent :: int
  b_visit :: "bool option"

record 'r bfs_state =
  b_toVisit :: "bfs_item list"
  b_index :: int
  b_step :: int
  b_visited :: visited_ids
  b_result :: 'r

text \<open>
  \<open>createPath\<close> follows the parent indices up to a negative one. They always point to an earlier item
  (lemma \<open>bfs_items_step\<close> below), which the second test of the model states.
\<close>

function bfs_createPath :: "bfs_item list \<Rightarrow> nat \<Rightarrow> tpath" where
  "bfs_createPath items idx =
     (let pathItem = items ! idx; parentIndex = b_parent pathItem;
          prior = (if parentIndex < 0 \<or> int idx \<le> parentIndex then \<lparr>p_edges = [], p_vertices = []\<rparr>
                   else bfs_createPath items (nat parentIndex))
      in extend_path prior (b_edge pathItem) (b_vertex pathItem))"
  by pat_completeness auto
termination by (relation "measure snd") auto

declare bfs_createPath.simps [simp del]

text \<open>\<open>getPathItems\<close> leaves out the last element of the path, the one just reached.\<close>

definition bfs_path_items :: "'r config \<Rightarrow> tpath \<Rightarrow> visited_ids \<Rightarrow> visited_ids" where
  "bfs_path_items cfg path visited =
     \<lparr>vis_edges = (if cfg_edgeUniqueness cfg = UNIQUE_PATH then edge_key cfg ` set (butlast (p_edges path)) else vis_edges visited),
      vis_vertices = (if cfg_vertexUniqueness cfg = UNIQUE_PATH then vertex_key cfg ` set (butlast (p_vertices path))
                      else vis_vertices visited)\<rparr>"

definition bfs_advance :: "'r bfs_state \<Rightarrow> 'r bfs_state" where
  "bfs_advance s = (if b_index s < int (length (b_toVisit s)) - 1 then s\<lparr>b_index := b_index s + b_step s\<rparr>
     else s\<lparr>b_step := -1\<rparr>)"

definition connected_items :: "int \<Rightarrow> connection list \<Rightarrow> bfs_item list" where
  "connected_items index conns =
     map (\<lambda>c. \<lparr>b_edge = Some (c_edge c), b_vertex = c_vertex c, b_parent = index, b_visit = None\<rparr>) conns"

definition bfs_open :: "'r config \<Rightarrow> nat \<Rightarrow> tpath \<Rightarrow> 'r bfs_state \<Rightarrow> 'r bfs_state \<times> trav_exc option" where
  "bfs_open cfg i path s =
     (let current = b_toVisit s ! i;
          (result, later, conns, exc) = visit_and_expand cfg (b_vertex current) path (b_result s);
          s' = s\<lparr>b_toVisit := (b_toVisit s)[i := current\<lparr>b_visit := Some later\<rparr>] @ connected_items (b_index s) conns,
                 b_result := result\<rparr>
      in (if exc = None \<and> cfg_order cfg = POST_ORDER then bfs_advance s' else s', exc))"

definition bfs_close :: "'r config \<Rightarrow> nat \<Rightarrow> 'r bfs_state \<Rightarrow> 'r bfs_state \<times> trav_exc option" where
  "bfs_close cfg i s =
     (let current = b_toVisit s ! i;
          (result, exc) = (if cfg_order cfg = POST_ORDER \<and> b_visit current = Some True
             then cfg_visitor cfg (b_result s) (b_vertex current) (bfs_createPath (b_toVisit s) i) []
             else (b_result s, None))
      in (s\<lparr>b_result := result, b_index := b_index s + b_step s\<rparr>, exc))"

definition bfs_step :: "'r config \<Rightarrow> 'r bfs_state \<Rightarrow> 'r bfs_state \<times> trav_exc option" where
  "bfs_step cfg s =
     (let i = nat (b_index s); current = b_toVisit s ! i
      in if b_visit current = None
         then let path = bfs_createPath (b_toVisit s) i;
                  (ok, visited) = checkUniqueness cfg (bfs_path_items cfg path (b_visited s)) (b_vertex current) (b_edge current);
                  s1 = s\<lparr>b_toVisit := (b_toVisit s)[i := current\<lparr>b_visit := Some False\<rparr>], b_visited := visited\<rparr>
              in if \<not> ok then (bfs_advance s1, None) else bfs_open cfg i path s1
         else bfs_close cfg i s)"

definition bfs_alive :: "'r bfs_state \<Rightarrow> bool" where
  "bfs_alive s \<longleftrightarrow> b_step s = 1 \<and> b_index s < int (length (b_toVisit s)) \<or> b_step s = -1 \<and> 0 \<le> b_index s"

definition bfs_loop :: "'r config \<Rightarrow> nat \<Rightarrow> 'r bfs_state \<Rightarrow> 'r bfs_state \<times> trav_exc option" where
  "bfs_loop cfg = search_loop (cfg_maxIterations cfg) (cfg_killed cfg) bfs_alive (bfs_step cfg)"

definition bfs_start :: "'r \<Rightarrow> jsval \<Rightarrow> 'r bfs_state" where
  "bfs_start result startVertex =
     \<lparr>b_toVisit = [\<lparr>b_edge = None, b_vertex = startVertex, b_parent = -1, b_visit = None\<rparr>],
      b_index = 0, b_step = 1, b_visited = \<lparr>vis_edges = {}, vis_vertices = {}\<rparr>, b_result = result\<rparr>"

definition breadthFirstSearch :: "'r config \<Rightarrow> 'r \<Rightarrow> jsval \<Rightarrow> 'r \<times> trav_exc option" where
  "breadthFirstSearch cfg result startVertex =
     (let (s, exc) = bfs_loop cfg 0 (bfs_start result startVertex) in (b_result s, exc))"

subsection \<open>Items and their paths\<close>

definition bfs_core :: "bfs_item \<Rightarrow> jsval option \<times> jsval \<times> int" where
  "bfs_core i = (b_edge i, b_vertex i, b_parent i)"

lemma createPath_cong:
  assumes "\<And>j. j \<le> idx \<Longrightarrow> bfs_core (items ! j) = bfs_core (items' ! j)"
  shows "bfs_createPath items idx = bfs_createPath items' idx"
  using assms
proof (induction items idx rule: bfs_createPath.induct)
  case (1 items idx)
  have "b_edge (items ! idx) = b_edge (items' ! idx)" "b_vertex (items ! idx) = b_vertex (items' ! idx)"
    "b_parent (items ! idx) = b_parent (items' ! idx)"
    using "1.prems" [of idx] by (simp_all add: bfs_core_def)
  moreover have "bfs_createPath items (nat (b_parent (items ! idx))) = bfs_createPath items' (nat (b_parent (items ! idx)))"
    if "\<not> (b_parent (items ! idx) < 0 \<or> int idx \<le> b_parent (items ! idx))"
    by (rule "1.IH" [OF refl refl that]) (use that "1.prems" in auto)
  ultimately show ?case
    by (subst (1 2) bfs_createPath.simps) (auto simp: Let_def)
qed

text \<open>What stays of the items in a step: the visit flag of one changes, and new ones come to the end.\<close>

definition extends_items :: "bfs_item list \<Rightarrow> nat \<Rightarrow> bool \<Rightarrow> connection list \<Rightarrow> bfs_item list \<Rightarrow> bool" where
  "extends_items items i later cs items' \<longleftrightarrow>
     items' = items[i := (items ! i)\<lparr>b_visit := Some later\<rparr>] @ connected_items (int i) cs"

lemma extends_core:
  "extends_items items i later cs items' \<Longrightarrow> j < length items \<Longrightarrow> bfs_core (items' ! j) = bfs_core (items ! j)"
  by (cases "j = i") (auto simp: extends_items_def nth_append bfs_core_def)

lemma extends_path:
  "extends_items items i later cs items' \<Longrightarrow> j < length items \<Longrightarrow> bfs_createPath items' j = bfs_createPath items j"
  by (rule createPath_cong) (simp add: extends_core)

lemma extends_length: "extends_items items i later cs items' \<Longrightarrow> length items' = length items + length cs"
  by (simp add: extends_items_def connected_items_def)

lemma extends_old:
  assumes "extends_items items i later cs items'" "j < length items"
  shows "b_edge (items' ! j) = b_edge (items ! j)" "b_vertex (items' ! j) = b_vertex (items ! j)"
    "b_parent (items' ! j) = b_parent (items ! j)"
    "b_visit (items' ! j) = (if j = i then Some later else b_visit (items ! j))"
  using assms extends_core [OF assms] by (auto simp: bfs_core_def extends_items_def nth_append)

lemma extends_new:
  assumes "extends_items items i later cs items'" "k < length cs"
  shows "items' ! (length items + k)
    = \<lparr>b_edge = Some (c_edge (cs ! k)), b_vertex = c_vertex (cs ! k), b_parent = int i, b_visit = None\<rparr>"
  using assms by (simp add: extends_items_def nth_append connected_items_def)

text \<open>The items form a tree rooted at the start vertex.\<close>

definition bfs_tree :: "(jsval \<Rightarrow> jsval \<Rightarrow> jsval \<Rightarrow> bool) \<Rightarrow> jsval \<Rightarrow> bfs_item list \<Rightarrow> bool" where
  "bfs_tree J start items \<longleftrightarrow> items \<noteq> [] \<and> bfs_core (items ! 0) = (None, start, -1)
     \<and> (\<forall>i. 0 < i \<and> i < length items \<longrightarrow> 0 \<le> b_parent (items ! i) \<and> nat (b_parent (items ! i)) < i
          \<and> (\<exists>e. b_edge (items ! i) = Some e \<and> J (b_vertex (items ! nat (b_parent (items ! i)))) e (b_vertex (items ! i))))"

lemma bfs_tree_root: "bfs_tree J start items \<Longrightarrow> bfs_createPath items 0 = \<lparr>p_edges = [], p_vertices = [start]\<rparr>"
  by (subst bfs_createPath.simps) (simp add: bfs_tree_def bfs_core_def extend_path_def)

lemma bfs_tree_child:
  assumes "bfs_tree J start items" "0 < i" "i < length items"
  obtains p e where "p < i" "b_parent (items ! i) = int p" "b_edge (items ! i) = Some e"
    "J (b_vertex (items ! p)) e (b_vertex (items ! i))"
    "bfs_createPath items i = extend_path (bfs_createPath items p) (Some e) (b_vertex (items ! i))"
proof -
  obtain e where i: "0 \<le> b_parent (items ! i)" "nat (b_parent (items ! i)) < i" "b_edge (items ! i) = Some e"
    "J (b_vertex (items ! nat (b_parent (items ! i)))) e (b_vertex (items ! i))"
    using assms unfolding bfs_tree_def by blast
  then have "bfs_createPath items i
      = extend_path (bfs_createPath items (nat (b_parent (items ! i)))) (Some e) (b_vertex (items ! i))"
    by (subst bfs_createPath.simps) (auto simp: Let_def)
  with i show thesis by (intro that [of "nat (b_parent (items ! i))" e]) auto
qed

lemma bfs_tree_path:
  assumes "bfs_tree J start items" "i < length items"
  shows "chain J (p_vertices (bfs_createPath items i)) (p_edges (bfs_createPath items i))
    \<and> hd (p_vertices (bfs_createPath items i)) = start \<and> last (p_vertices (bfs_createPath items i)) = b_vertex (items ! i)
    \<and> p_vertices (bfs_createPath items i) \<noteq> []"
  using assms(2)
proof (induction i rule: less_induct)
  case (less i)
  show ?case
  proof (cases "i = 0")
    case True
    then show ?thesis using bfs_tree_root [OF assms(1)] assms(1) by (simp add: bfs_tree_def bfs_core_def)
  next
    case False
    then have "0 < i" by simp
    from assms(1) this less.prems show ?thesis
    proof (rule bfs_tree_child)
      fix p e assume p: "p < i" "b_edge (items ! i) = Some e" "J (b_vertex (items ! p)) e (b_vertex (items ! i))"
        "bfs_createPath items i = extend_path (bfs_createPath items p) (Some e) (b_vertex (items ! i))"
      then show ?thesis using less.IH [OF p(1)] less.prems chain_append
        by (auto simp: extend_path_def)
    qed
  qed
qed

lemma bfs_tree_extends:
  assumes t: "bfs_tree J start items" and x: "extends_items items i later cs items'" and "i < length items"
    and new: "\<And>c. c \<in> set cs \<Longrightarrow> J (b_vertex (items ! i)) (c_edge c) (c_vertex c)"
  shows "bfs_tree J start items'"
proof -
  have "0 \<le> b_parent (items' ! j) \<and> nat (b_parent (items' ! j)) < j
      \<and> (\<exists>e. b_edge (items' ! j) = Some e \<and> J (b_vertex (items' ! nat (b_parent (items' ! j)))) e (b_vertex (items' ! j)))"
    if j: "0 < j" "j < length items'" for j
  proof (cases "j < length items")
    case True
    from t j(1) True show ?thesis
      by (rule bfs_tree_child) (use True in \<open>auto simp: extends_old [OF x]\<close>)
  next
    case False
    then obtain k where k: "j = length items + k" "k < length cs"
      using j extends_length [OF x] by (metis add_less_cancel_left le_Suc_ex not_less)
    then show ?thesis using new [of "cs ! k"] assms(3) by (auto simp: extends_new [OF x] extends_old [OF x])
  qed
  moreover have "items' \<noteq> []" "bfs_core (items' ! 0) = (None, start, -1)"
    using t extends_core [OF x, of 0] extends_length [OF x] by (auto simp: bfs_tree_def)
  ultimately show ?thesis by (simp add: bfs_tree_def)
qed

subsection \<open>The walk over the items\<close>

definition bfs_opened :: "bfs_item \<Rightarrow> bool" where
  "bfs_opened i \<longleftrightarrow> b_visit i \<noteq> None"

text \<open>
  On the way forth everything before the index is opened and nothing behind it, and all parents are up
  to the index; on the way back everything is opened.
\<close>

definition bfs_walk :: "'r bfs_state \<Rightarrow> bool" where
  "bfs_walk s \<longleftrightarrow>
     (b_step s = 1 \<and> 0 \<le> b_index s \<and> b_index s \<le> int (length (b_toVisit s))
      \<and> (\<forall>j < length (b_toVisit s). (int j < b_index s \<longrightarrow> bfs_opened (b_toVisit s ! j))
           \<and> (b_index s < int j \<longrightarrow> \<not> bfs_opened (b_toVisit s ! j)) \<and> b_parent (b_toVisit s ! j) \<le> b_index s))
   \<or> (b_step s = -1 \<and> b_index s < int (length (b_toVisit s)) \<and> (\<forall>j < length (b_toVisit s). bfs_opened (b_toVisit s ! j)))"

lemma bfs_walk_alive:
  assumes "bfs_walk s" "bfs_alive s"
  obtains i where "b_index s = int i" "i < length (b_toVisit s)"
  using assms by (auto simp: bfs_walk_def bfs_alive_def intro: that [of "nat (b_index s)"])

text \<open>The state after an item was opened: the index stays, or moves on.\<close>

definition moved_on :: "nat \<Rightarrow> 'r bfs_state \<Rightarrow> bool" where
  "moved_on i s \<longleftrightarrow> b_step s = 1 \<and> (b_index s = int i \<or> b_index s = int i + 1 \<and> Suc i < length (b_toVisit s))
     \<or> b_step s = -1 \<and> b_index s = int i \<and> Suc i = length (b_toVisit s)"

lemma bfs_advance_simps [simp]:
  "b_toVisit (bfs_advance s) = b_toVisit s" "b_visited (bfs_advance s) = b_visited s" "b_result (bfs_advance s) = b_result s"
  by (simp_all add: bfs_advance_def)

lemma moved_on_advance:
  "b_step s = 1 \<Longrightarrow> b_index s = int i \<Longrightarrow> i < length (b_toVisit s) \<Longrightarrow> moved_on i (bfs_advance s)"
  by (auto simp: moved_on_def bfs_advance_def)

lemma bfs_step_cases:
  assumes rec: "cfg_visitor cfg = recordingVisitor" and "bfs_walk s" "bfs_alive s"
  obtains
    (skip) i visited where "b_index s = int i" "i < length (b_toVisit s)" "b_step s = 1" "\<not> bfs_opened (b_toVisit s ! i)"
      "checkUniqueness cfg (bfs_path_items cfg (bfs_createPath (b_toVisit s) i) (b_visited s))
         (b_vertex (b_toVisit s ! i)) (b_edge (b_toVisit s ! i)) = (False, visited)"
      "extends_items (b_toVisit s) i False [] (b_toVisit (fst (bfs_step cfg s)))"
      "b_visited (fst (bfs_step cfg s)) = visited" "b_result (fst (bfs_step cfg s)) = b_result s"
      "moved_on i (fst (bfs_step cfg s))" "b_index (fst (bfs_step cfg s)) \<noteq> int i \<or> b_step (fst (bfs_step cfg s)) = -1"
  | (enter) i visited later r cs where "b_index s = int i" "i < length (b_toVisit s)" "b_step s = 1" "\<not> bfs_opened (b_toVisit s ! i)"
      "checkUniqueness cfg (bfs_path_items cfg (bfs_createPath (b_toVisit s) i) (b_visited s))
         (b_vertex (b_toVisit s ! i)) (b_edge (b_toVisit s ! i)) = (True, visited)"
      "extends_items (b_toVisit s) i later cs (b_toVisit (fst (bfs_step cfg s)))"
      "b_visited (fst (bfs_step cfg s)) = visited"
      "b_result (fst (bfs_step cfg s))
         = b_result s @ (if r then [(b_vertex (b_toVisit s ! i), bfs_createPath (b_toVisit s) i)] else [])"
      "r \<Longrightarrow> cfg_order cfg \<noteq> POST_ORDER" "\<And>c. c \<in> set cs \<Longrightarrow> joins cfg (b_vertex (b_toVisit s ! i)) (c_edge c) (c_vertex c)"
      "moved_on i (fst (bfs_step cfg s))"
      "snd (bfs_step cfg s) = None \<Longrightarrow> cfg_order cfg = POST_ORDER \<longleftrightarrow> (b_index (fst (bfs_step cfg s)) \<noteq> int i \<or> b_step (fst (bfs_step cfg s)) = -1)"
  | (close) i r where "b_index s = int i" "i < length (b_toVisit s)" "bfs_opened (b_toVisit s ! i)"
      "r \<longleftrightarrow> cfg_order cfg = POST_ORDER \<and> b_visit (b_toVisit s ! i) = Some True"
      "fst (bfs_step cfg s) = s\<lparr>b_result := b_result s @ (if r then [(b_vertex (b_toVisit s ! i), bfs_createPath (b_toVisit s) i)] else []),
          b_index := int i + b_step s\<rparr>"
proof -
  from assms(2,3) obtain i where i: "b_index s = int i" "i < length (b_toVisit s)" by (rule bfs_walk_alive)
  let ?cur = "b_toVisit s ! i"
  show thesis
  proof (cases "bfs_opened ?cur")
    case True
    show thesis
      by (rule close [OF i True refl])
        (use True in \<open>auto simp: bfs_step_def Let_def i(1) bfs_opened_def bfs_close_def rec recordingVisitor_def\<close>)
  next
    case False
    then have none: "b_visit ?cur = None" by (simp add: bfs_opened_def)
    have step: "b_step s = 1" using assms(2) False i by (auto simp: bfs_walk_def)
    let ?path = "bfs_createPath (b_toVisit s) i"
    obtain ok visited where u: "checkUniqueness cfg (bfs_path_items cfg ?path (b_visited s)) (b_vertex ?cur) (b_edge ?cur) = (ok, visited)"
      by fastforce
    let ?s1 = "s\<lparr>b_toVisit := (b_toVisit s)[i := ?cur\<lparr>b_visit := Some False\<rparr>], b_visited := visited\<rparr>"
    show thesis
    proof (cases ok)
      case False
      then have st: "fst (bfs_step cfg s) = bfs_advance ?s1" by (simp add: bfs_step_def i(1) none u)
      have m: "moved_on i (bfs_advance ?s1)" by (rule moved_on_advance) (simp_all add: step i)
      show thesis
        by (rule skip [OF i step \<open>\<not> bfs_opened ?cur\<close>])
          (use u False m in \<open>auto simp: st extends_items_def connected_items_def bfs_advance_def i(1) step\<close>)
    next
      case True
      obtain result later cs exc where v: "visit_and_expand cfg (b_vertex ?cur) ?path (b_result s) = (result, later, cs, exc)"
        by (metis prod_cases4)
      let ?s2 = "s\<lparr>b_visited := visited,
        b_toVisit := (b_toVisit s)[i := ?cur\<lparr>b_visit := Some later\<rparr>] @ connected_items (int i) cs, b_result := result\<rparr>"
      have st: "bfs_step cfg s = (if exc = None \<and> cfg_order cfg = POST_ORDER then bfs_advance ?s2 else ?s2, exc)"
        using True i(2) by (simp add: bfs_step_def i(1) none u bfs_open_def v Let_def)
      from rec v show thesis
      proof (rule visit_and_expand_recording)
        fix r
        assume r: "result = b_result s @ (if r then [(b_vertex ?cur, ?path)] else [])"
          "r \<Longrightarrow> cfg_order cfg \<noteq> POST_ORDER" "\<And>c. c \<in> set cs \<Longrightarrow> joins cfg (b_vertex ?cur) (c_edge c) (c_vertex c)"
        have m: "moved_on i (bfs_advance ?s2)" by (rule moved_on_advance) (simp_all add: step i trans_less_add1)
        show thesis
          by (rule enter [where r = r and later = later and cs = cs, OF i step \<open>\<not> bfs_opened ?cur\<close>])
            (use u True m r i step in \<open>simp_all add: st extends_items_def moved_on_def\<close>, auto simp: bfs_advance_def split: if_splits)
      qed
    qed
  qed
qed

lemma extends_opened:
  assumes x: "extends_items items i later cs items'" and "i < length items"
  shows "j < length items' \<Longrightarrow> bfs_opened (items' ! j) \<longleftrightarrow> j = i \<or> j < length items \<and> bfs_opened (items ! j)"
proof -
  assume j: "j < length items'"
  show ?thesis
  proof (cases "j < length items")
    case True
    then show ?thesis by (simp add: bfs_opened_def extends_old [OF x])
  next
    case False
    then obtain k where "j = length items + k" "k < length cs"
      using j extends_length [OF x] by (metis add_less_cancel_left le_Suc_ex not_less)
    then show ?thesis using assms(2) by (simp add: extends_new [OF x] bfs_opened_def)
  qed
qed

lemma extends_parent:
  assumes x: "extends_items items i later cs items'" and "j < length items'"
  shows "b_parent (items' ! j) = (if j < length items then b_parent (items ! j) else int i)"
proof (cases "j < length items")
  case False
  then obtain k where "j = length items + k" "k < length cs"
    using assms(2) extends_length [OF x] by (metis add_less_cancel_left le_Suc_ex not_less)
  then show ?thesis by (simp add: extends_new [OF x])
qed (simp add: extends_old [OF x])

lemma bfs_walk_moved:
  assumes "bfs_walk s" "b_index s = int i" "i < length (b_toVisit s)" "b_step s = 1"
    and x: "extends_items (b_toVisit s) i later cs (b_toVisit s')" and m: "moved_on i s'"
  shows "bfs_walk s'"
proof -
  have walk: "bfs_opened (b_toVisit s ! j)" if "j < i" for j using assms that by (auto simp: bfs_walk_def)
  have par: "b_parent (b_toVisit s ! j) \<le> int i" and un: "i < j \<Longrightarrow> \<not> bfs_opened (b_toVisit s ! j)"
    if "j < length (b_toVisit s)" for j
    using assms(1,2,4) that by (auto simp: bfs_walk_def)
  have len: "length (b_toVisit s) \<le> length (b_toVisit s')" using extends_length [OF x] by simp
  have o: "bfs_opened (b_toVisit s' ! j) \<longleftrightarrow> j \<le> i" if "j < length (b_toVisit s')" for j
    using extends_opened [OF x assms(3) that] walk [of j] un [of j] assms(3)
    by (cases j i rule: linorder_cases) auto
  have p: "b_parent (b_toVisit s' ! j) \<le> int i" if "j < length (b_toVisit s')" for j
    using extends_parent [OF x that] par [of j] by (simp split: if_splits)
  show ?thesis
    using m o p len assms(3) unfolding moved_on_def bfs_walk_def by fastforce
qed

lemma bfs_walk_closed:
  assumes "bfs_walk s" "bfs_alive s" "b_index s = int i" "bfs_opened (b_toVisit s ! i)"
  shows "bfs_walk (s\<lparr>b_result := result, b_index := int i + b_step s\<rparr>)"
proof (cases "b_step s = 1")
  case True
  have "bfs_opened (b_toVisit s ! j)" if "int j < int i + 1" "j < length (b_toVisit s)" for j
    using assms True that by (cases "j = i") (auto simp: bfs_walk_def)
  moreover have "\<not> bfs_opened (b_toVisit s ! j)" if "int i + 1 < int j" "j < length (b_toVisit s)" for j
    using assms(1,3) True that by (auto simp: bfs_walk_def)
  moreover have "b_parent (b_toVisit s ! j) \<le> int i + 1" if "j < length (b_toVisit s)" for j
    using assms(1,3) True that by (fastforce simp: bfs_walk_def)
  ultimately show ?thesis using assms(2,3) True by (simp add: bfs_walk_def bfs_alive_def)
next
  case False
  then show ?thesis using assms(1,3) by (auto simp: bfs_walk_def)
qed

lemma bfs_walk_step:
  assumes "cfg_visitor cfg = recordingVisitor" "bfs_walk s" "bfs_alive s"
  shows "bfs_walk (fst (bfs_step cfg s))"
  using assms
proof (cases rule: bfs_step_cases)
  case (skip i visited)
  then show ?thesis using bfs_walk_moved assms(2) by blast
next
  case (enter i visited later r cs)
  then show ?thesis using bfs_walk_moved assms(2) by blast
next
  case (close i r)
  then show ?thesis using bfs_walk_closed [OF assms(2,3) close(1,3)] by simp
qed

subsection \<open>Breadth-first paths\<close>

definition bfs_inv :: "recording config \<Rightarrow> jsval \<Rightarrow> recording bfs_state \<Rightarrow> bool" where
  "bfs_inv cfg start s \<longleftrightarrow> bfs_walk s \<and> bfs_tree (joins cfg) start (b_toVisit s)
     \<and> (\<forall>j. 0 < j \<and> j < length (b_toVisit s) \<longrightarrow>
          simple_path cfg (bfs_createPath (b_toVisit s) (nat (b_parent (b_toVisit s ! j)))))
     \<and> (\<forall>j < length (b_toVisit s). b_visit (b_toVisit s ! j) = Some True \<longrightarrow> simple_path cfg (bfs_createPath (b_toVisit s) j))
     \<and> list_all (good_visit cfg start) (b_result s)"

lemma bfs_unique_simple:
  assumes "checkUniqueness cfg (bfs_path_items cfg (extend_path prior edge vertex) visited) vertex edge = (True, visited')"
    "simple_path cfg prior"
  shows "simple_path cfg (extend_path prior edge vertex)"
  using assms
  by (auto simp: simple_path_def extend_path_def checkUniqueness_def check_edge_def bfs_path_items_def Let_def
      split: option.splits if_splits)

lemma bfs_inv_extends:
  assumes inv: "bfs_inv cfg start s" and i: "b_index s = int i" "i < length (b_toVisit s)" "b_step s = 1"
    and x: "extends_items (b_toVisit s) i later cs (b_toVisit s')" and m: "moved_on i s'"
    and new: "\<And>c. c \<in> set cs \<Longrightarrow> joins cfg (b_vertex (b_toVisit s ! i)) (c_edge c) (c_vertex c)"
    and sp: "later \<or> cs \<noteq> [] \<Longrightarrow> simple_path cfg (bfs_createPath (b_toVisit s) i)"
    and res: "list_all (good_visit cfg start) (b_result s')"
  shows "bfs_inv cfg start s'"
proof -
  note inv = inv [unfolded bfs_inv_def]
  have t: "bfs_tree (joins cfg) start (b_toVisit s')" using bfs_tree_extends inv x i(2) new by blast
  have "simple_path cfg (bfs_createPath (b_toVisit s') (nat (b_parent (b_toVisit s' ! j))))"
    if j: "0 < j" "j < length (b_toVisit s')" for j
  proof (cases "j < length (b_toVisit s)")
    case True
    have "nat (b_parent (b_toVisit s ! j)) < length (b_toVisit s)"
      using inv j(1) True unfolding bfs_tree_def by (meson order.strict_trans)
    then show ?thesis using inv j(1) True by (simp add: extends_old [OF x True] extends_path [OF x])
  next
    case False
    then have "cs \<noteq> []" using j(2) extends_length [OF x] by auto
    then show ?thesis using sp False extends_parent [OF x j(2)] by (simp add: extends_path [OF x i(2)])
  qed
  moreover have "simple_path cfg (bfs_createPath (b_toVisit s') j)"
    if j: "j < length (b_toVisit s')" "b_visit (b_toVisit s' ! j) = Some True" for j
  proof (cases "j < length (b_toVisit s)")
    case True
    then show ?thesis using j(2) inv sp by (auto simp: extends_old [OF x] extends_path [OF x] split: if_splits)
  next
    case False
    then obtain k where "j = length (b_toVisit s) + k" "k < length cs"
      using j extends_length [OF x] by (metis add_less_cancel_left le_Suc_ex not_less)
    then show ?thesis using j(2) by (simp add: extends_new [OF x])
  qed
  ultimately show ?thesis
    using t res bfs_walk_moved [OF _ i x m] inv unfolding bfs_inv_def by blast
qed

lemma bfs_good_visit:
  assumes "bfs_inv cfg start s" "i < length (b_toVisit s)" "simple_path cfg (bfs_createPath (b_toVisit s) i)"
  shows "good_visit cfg start (b_vertex (b_toVisit s ! i), bfs_createPath (b_toVisit s) i)"
  using bfs_tree_path [of "joins cfg" start "b_toVisit s" i] assms by (simp add: bfs_inv_def good_visit_def)

lemma bfs_inv_step:
  assumes "cfg_visitor cfg = recordingVisitor" "bfs_inv cfg start s" "bfs_alive s"
  shows "bfs_inv cfg start (fst (bfs_step cfg s))"
proof -
  have w: "bfs_walk s" and t: "bfs_tree (joins cfg) start (b_toVisit s)" and r: "list_all (good_visit cfg start) (b_result s)"
    using assms(2) by (simp_all add: bfs_inv_def)
  from assms(1) w assms(3) show ?thesis
  proof (cases rule: bfs_step_cases)
    case (skip i visited)
    show ?thesis
      by (rule bfs_inv_extends [OF assms(2) skip(1-3,6,9)]) (simp_all add: skip r)
  next
    case (enter i visited later b cs)
    have prior: "\<exists>prior. bfs_createPath (b_toVisit s) i = extend_path prior (b_edge (b_toVisit s ! i)) (b_vertex (b_toVisit s ! i))
      \<and> simple_path cfg prior"
    proof (cases "i = 0")
      case True
      then show ?thesis using t bfs_tree_root [OF t]
        by (intro exI [of _ "\<lparr>p_edges = [], p_vertices = []\<rparr>"]) (simp add: extend_path_def bfs_tree_def bfs_core_def simple_path_def)
    next
      case False
      then have "0 < i" by simp
      from t this enter(2) show ?thesis
      proof (rule bfs_tree_child)
        fix p e
        assume "b_parent (b_toVisit s ! i) = int p" "b_edge (b_toVisit s ! i) = Some e"
          "bfs_createPath (b_toVisit s) i = extend_path (bfs_createPath (b_toVisit s) p) (Some e) (b_vertex (b_toVisit s ! i))"
        moreover have "simple_path cfg (bfs_createPath (b_toVisit s) (nat (b_parent (b_toVisit s ! i))))"
          using assms(2) enter(2) False by (simp add: bfs_inv_def)
        ultimately show ?thesis by (intro exI [of _ "bfs_createPath (b_toVisit s) p"]) simp
      qed
    qed
    then have sp: "simple_path cfg (bfs_createPath (b_toVisit s) i)" using bfs_unique_simple enter(5) by metis
    show ?thesis
      by (rule bfs_inv_extends [OF assms(2) enter(1-3,6,11,10) sp])
        (simp_all add: enter(8) r bfs_good_visit [OF assms(2) enter(2) sp])
  next
    case (close i b)
    then show ?thesis using assms(2) bfs_walk_closed [OF w assms(3) close(1,3)] bfs_good_visit [OF assms(2) close(2)]
      by (auto simp: bfs_inv_def)
  qed
qed

lemma bfs_inv_start: "bfs_inv cfg start (bfs_start [] start)"
  by (simp add: bfs_inv_def bfs_walk_def bfs_start_def bfs_tree_def bfs_core_def bfs_opened_def) auto

text \<open>
  C17: Every path the breadth-first search hands to the visitor, in any order and also before an exception
  ends it, is a path of the graph from the start vertex to the visited one, and simple under path
  uniqueness.
\<close>

theorem bfs_visits_paths:
  assumes "cfg_visitor cfg = recordingVisitor" "(v, path) \<in> set (fst (breadthFirstSearch cfg [] start))"
  shows "chain (joins cfg) (p_vertices path) (p_edges path)
    \<and> hd (p_vertices path) = start \<and> last (p_vertices path) = v
    \<and> (cfg_vertexUniqueness cfg = UNIQUE_PATH \<longrightarrow> distinct (map (vertex_key cfg) (p_vertices path)))
    \<and> (cfg_edgeUniqueness cfg = UNIQUE_PATH \<longrightarrow> distinct (map (edge_key cfg) (p_edges path)))"
proof -
  have "bfs_inv cfg start (fst (bfs_loop cfg 0 (bfs_start [] start)))"
    unfolding bfs_loop_def by (rule search_loop_invariant) (use bfs_inv_step [OF assms(1)] bfs_inv_start in auto)
  then show ?thesis using assms(2)
    by (auto simp: bfs_inv_def list_all_iff good_visit_def simple_path_def breadthFirstSearch_def split: prod.splits)
qed

theorem bfs_visits_paths_witness:
  "distinct (map (vertex_key (two_cycle UNIQUE_PATH POST_ORDER\<lparr>cfg_strategy := BREADTH_FIRST\<rparr>)) [JStr ''a'', JStr ''b''])"
proof -
  have "(JStr ''b'', \<lparr>p_edges = [JStr ''ab''], p_vertices = [JStr ''a'', JStr ''b'']\<rparr>)
      \<in> set (fst (breadthFirstSearch (two_cycle UNIQUE_PATH POST_ORDER\<lparr>cfg_strategy := BREADTH_FIRST\<rparr>) [] (JStr ''a'')))"
    by code_simp
  from bfs_visits_paths [OF _ this] show ?thesis by (simp add: two_cycle_def)
qed

subsection \<open>Level order\<close>

definition bfs_depth :: "bfs_item list \<Rightarrow> nat \<Rightarrow> nat" where
  "bfs_depth items i = length (p_edges (bfs_createPath items i))"

lemma bfs_depth_root: "bfs_tree J start items \<Longrightarrow> bfs_depth items 0 = 0"
  by (simp add: bfs_depth_def bfs_tree_root)

lemma bfs_depth_child:
  "bfs_tree J start items \<Longrightarrow> 0 < i \<Longrightarrow> i < length items \<Longrightarrow>
    bfs_depth items i = Suc (bfs_depth items (nat (b_parent (items ! i))))"
  by (erule (2) bfs_tree_child) (simp add: bfs_depth_def extend_path_def)

lemma extends_depth:
  "extends_items items i later cs items' \<Longrightarrow> j < length items \<Longrightarrow> bfs_depth items' j = bfs_depth items j"
  by (simp add: bfs_depth_def extends_path)

definition parents_sorted :: "bfs_item list \<Rightarrow> bool" where
  "parents_sorted items \<longleftrightarrow> (\<forall>j < length items. \<forall>i \<le> j. b_parent (items ! i) \<le> b_parent (items ! j))"

lemma bfs_depth_mono:
  assumes t: "bfs_tree J start items" and p: "parents_sorted items" and "i \<le> j" "j < length items"
  shows "bfs_depth items i \<le> bfs_depth items j"
  using assms(3,4)
proof (induction j arbitrary: i rule: less_induct)
  case (less j)
  show ?case
  proof (cases "i = 0")
    case True
    then show ?thesis by (simp add: bfs_depth_root [OF t])
  next
    case False
    then have i: "0 < i" "0 < j" "i < length items" using less.prems by auto
    have "nat (b_parent (items ! j)) < j" using t i(2) less.prems(2) by (simp add: bfs_tree_def)
    moreover have "nat (b_parent (items ! i)) \<le> nat (b_parent (items ! j))"
      using p less.prems by (simp add: parents_sorted_def nat_mono)
    ultimately show ?thesis
      using less.IH [of "nat (b_parent (items ! j))" "nat (b_parent (items ! i))"] less.prems
      by (simp add: bfs_depth_child [OF t i(1,3)] bfs_depth_child [OF t i(2) less.prems(2)])
  qed
qed

lemma parents_sorted_extends:
  assumes "bfs_walk s" "b_index s = int i" "i < length (b_toVisit s)" "b_step s = 1"
    and x: "extends_items (b_toVisit s) i later cs items'" and "parents_sorted (b_toVisit s)"
  shows "parents_sorted items'"
proof -
  have le: "b_parent (items' ! k) \<le> int i" if "k < length items'" for k
    using assms(1,2,4) extends_parent [OF x that] by (auto simp: bfs_walk_def)
  show ?thesis unfolding parents_sorted_def
  proof (intro allI impI)
    fix j k assume "j < length items'" "k \<le> j"
    then show "b_parent (items' ! k) \<le> b_parent (items' ! j)"
      using le [of k] assms(6) extends_parent [OF x, of j] extends_parent [OF x, of k]
      by (auto simp: parents_sorted_def split: if_splits)
  qed
qed

definition lengths :: "recording \<Rightarrow> nat list" where
  "lengths r = map (\<lambda>(v, path). length (p_edges path)) r"

definition in_level_order :: "'r config \<Rightarrow> recording \<Rightarrow> bool" where
  "in_level_order cfg r \<longleftrightarrow> (if cfg_order cfg = POST_ORDER then sorted (rev (lengths r)) else sorted (lengths r))"

text \<open>
  In the post-order walk nothing is visited on the way forth; the visits on the way back end at the
  index. Otherwise visits happen on the way forth only, up to the index.
\<close>

definition level_inv :: "recording config \<Rightarrow> jsval \<Rightarrow> recording bfs_state \<Rightarrow> bool" where
  "level_inv cfg start s \<longleftrightarrow> bfs_inv cfg start s \<and> parents_sorted (b_toVisit s) \<and> in_level_order cfg (b_result s)
     \<and> (cfg_order cfg = POST_ORDER \<longrightarrow> (b_step s = 1 \<longrightarrow> b_result s = [] \<and>
            (\<forall>j < length (b_toVisit s). b_index s = int j \<longrightarrow> \<not> bfs_opened (b_toVisit s ! j)))
          \<and> (\<forall>i < length (b_toVisit s). b_index s = int i \<longrightarrow> (\<forall>l \<in> set (lengths (b_result s)). bfs_depth (b_toVisit s) i \<le> l)))
     \<and> (cfg_order cfg \<noteq> POST_ORDER \<longrightarrow> b_step s = 1 \<longrightarrow>
          (\<forall>i < length (b_toVisit s). b_index s = int i \<longrightarrow> (\<forall>l \<in> set (lengths (b_result s)). l \<le> bfs_depth (b_toVisit s) i)))"

lemma level_inv_extends:
  assumes lev: "level_inv cfg start s" and i: "b_index s = int i" "i < length (b_toVisit s)" "b_step s = 1"
    and x: "extends_items (b_toVisit s) i later cs (b_toVisit s')" and m: "moved_on i s'" and inv: "bfs_inv cfg start s'"
    and post: "cfg_order cfg = POST_ORDER \<Longrightarrow> b_result s' = [] \<and> (b_index s' \<noteq> int i \<or> b_step s' = -1)"
    and pre: "cfg_order cfg \<noteq> POST_ORDER \<Longrightarrow> \<exists>r. lengths (b_result s') = lengths (b_result s) @ r \<and> set r \<subseteq> {bfs_depth (b_toVisit s) i}
      \<and> length r \<le> 1"
  shows "level_inv cfg start s'"
proof -
  note lev = lev [unfolded level_inv_def]
  have p: "parents_sorted (b_toVisit s')"
    using parents_sorted_extends [OF _ i x] lev by (simp add: bfs_inv_def)
  have t: "bfs_tree (joins cfg) start (b_toVisit s')" using inv by (simp add: bfs_inv_def)
  have len: "length (b_toVisit s) \<le> length (b_toVisit s')" using extends_length [OF x] by simp
  have d: "bfs_depth (b_toVisit s) i \<le> bfs_depth (b_toVisit s') j" if "i \<le> j" "j < length (b_toVisit s')" for j
    using bfs_depth_mono [OF t p that] extends_depth [OF x i(2)] by simp
  have unopened: "\<not> bfs_opened (b_toVisit s' ! j)" if "int i + 1 = int j" "j < length (b_toVisit s')" for j
    using extends_opened [OF x i(2) that(2)] that(1) lev i by (auto simp: bfs_inv_def bfs_walk_def)
  show ?thesis
  proof (cases "cfg_order cfg = POST_ORDER")
    case True
    then show ?thesis using post [OF True] p inv m unopened
      by (auto simp: level_inv_def in_level_order_def lengths_def moved_on_def)
  next
    case False
    obtain r where r: "lengths (b_result s') = lengths (b_result s) @ r" "set r \<subseteq> {bfs_depth (b_toVisit s) i}" "length r \<le> 1"
      using pre [OF False] by blast
    have old: "\<forall>l \<in> set (lengths (b_result s)). l \<le> bfs_depth (b_toVisit s) i" "sorted (lengths (b_result s))"
      using lev False i by (simp_all add: in_level_order_def)
    have "sorted (lengths (b_result s'))"
      using r old by (cases r) (auto simp: sorted_append)
    moreover have "l \<le> bfs_depth (b_toVisit s') j" if "i \<le> j" "j < length (b_toVisit s')" "l \<in> set (lengths (b_result s'))" for l j
      using d [OF that(1,2)] that(3) r old by (auto intro: order_trans)
    moreover have "i \<le> j" if "b_index s' = int j" for j using m that by (auto simp: moved_on_def)
    ultimately show ?thesis using False p inv by (auto simp: level_inv_def in_level_order_def)
  qed
qed

lemma level_inv_step:
  assumes rec: "cfg_visitor cfg = recordingVisitor" and lev: "level_inv cfg start s" and alive: "bfs_alive s"
  shows "if snd (bfs_step cfg s) = None then level_inv cfg start (fst (bfs_step cfg s))
    else in_level_order cfg (b_result (fst (bfs_step cfg s)))"
proof -
  have inv: "bfs_inv cfg start (fst (bfs_step cfg s))"
    using bfs_inv_step [OF rec _ alive] lev by (simp add: level_inv_def)
  have w: "bfs_walk s" and t: "bfs_tree (joins cfg) start (b_toVisit s)" and p: "parents_sorted (b_toVisit s)"
    and ord: "in_level_order cfg (b_result s)"
    using lev by (simp_all add: level_inv_def bfs_inv_def)
  have weaken: ?thesis if "level_inv cfg start (fst (bfs_step cfg s))" using that by (simp add: level_inv_def)
  from rec w alive show ?thesis
  proof (cases rule: bfs_step_cases)
    case (skip i visited)
    show ?thesis
      by (rule weaken, rule level_inv_extends [OF lev skip(1-3,6,9) inv])
        (use skip(8,10) lev skip(3) in \<open>auto simp: level_inv_def\<close>)
  next
    case (enter i visited later r cs)
    have pre: "\<exists>l. lengths (b_result (fst (bfs_step cfg s))) = lengths (b_result s) @ l
        \<and> set l \<subseteq> {bfs_depth (b_toVisit s) i} \<and> length l \<le> 1"
      by (auto simp: enter(8) lengths_def bfs_depth_def)
    show ?thesis
    proof (cases "snd (bfs_step cfg s) = None \<or> cfg_order cfg \<noteq> POST_ORDER")
      case True
      show ?thesis
        by (rule weaken, rule level_inv_extends [OF lev enter(1-3,6,11) inv _ pre])
          (use True enter(3,8,9,12) lev in \<open>auto simp: level_inv_def split: if_splits\<close>)
    next
      case False
      then show ?thesis using ord enter(8,9) by (auto split: if_splits)
    qed
  next
    case (close i r)
    note st = close(5)
    have mono: "bfs_depth (b_toVisit s) j \<le> bfs_depth (b_toVisit s) k" if "j \<le> k" "k < length (b_toVisit s)" for j k
      by (rule bfs_depth_mono [OF t p that])
    have down: "j \<le> i" if "int j = int i + b_step s" "b_step s = -1" for j using that by simp
    show ?thesis
    proof (cases "cfg_order cfg = POST_ORDER")
      case True
      then have bk: "b_step s = -1"
        using lev close(1-3) w by (auto simp: level_inv_def bfs_walk_def)
      have old: "\<forall>l \<in> set (lengths (b_result s)). bfs_depth (b_toVisit s) i \<le> l" using lev True close(1,2) by (simp add: level_inv_def)
      have new: "lengths (b_result (fst (bfs_step cfg s))) = lengths (b_result s) @ (if r then [bfs_depth (b_toVisit s) i] else [])"
        by (simp add: st lengths_def bfs_depth_def)
      have "in_level_order cfg (b_result (fst (bfs_step cfg s)))"
        using ord old True by (auto simp: in_level_order_def new sorted_append)
      moreover have "bfs_depth (b_toVisit s) j \<le> l" if "int j = int i + b_step s" "l \<in> set (lengths (b_result (fst (bfs_step cfg s))))" for j l
        using mono [OF down [OF that(1) bk] close(2)] old that(2) by (auto simp: new split: if_splits intro: order_trans)
      ultimately show ?thesis
        using True bk inv p by (intro weaken) (auto simp: level_inv_def st)
    next
      case False
      then have r: "\<not> r" using close(4) by simp
      have "l \<le> bfs_depth (b_toVisit s) j" if "int i + 1 = int j" "b_step s = 1" "j < length (b_toVisit s)" "l \<in> set (lengths (b_result s))" for j l
        using mono [of i j] that lev False close(1,2) by (fastforce simp: level_inv_def)
      then show ?thesis using False inv p ord r by (intro weaken) (auto simp: level_inv_def st)
    qed
  qed
qed

text \<open>
  C18: The breadth-first search visits in the order of the path lengths, ascending in both pre-orders and
  descending in post-order, whatever its filter and uniqueness, and also when an exception ends it.
\<close>

theorem bfs_level_order:
  assumes "cfg_visitor cfg = recordingVisitor"
  shows "(if cfg_order cfg = POST_ORDER then sorted_wrt (\<ge>) else sorted_wrt (\<le>))
    (map (\<lambda>(v, path). length (p_edges path)) (fst (breadthFirstSearch cfg [] start)))"
proof -
  have "level_inv cfg start (bfs_start [] start)"
    using bfs_inv_start [of cfg start]
    by (auto simp: level_inv_def bfs_start_def parents_sorted_def in_level_order_def lengths_def bfs_opened_def)
  then have "in_level_order cfg (b_result (fst (bfs_loop cfg 0 (bfs_start [] start))))"
    unfolding bfs_loop_def
  proof (rule search_loop_outcome [where I = "level_inv cfg start" and Q = "\<lambda>s. in_level_order cfg (b_result s)", THEN conjunct1, rotated 2])
    show "if snd (bfs_step cfg s) = None then level_inv cfg start (fst (bfs_step cfg s))
        else in_level_order cfg (b_result (fst (bfs_step cfg s)))" if "level_inv cfg start s" "bfs_alive s" for s
      by (rule level_inv_step [OF assms that])
  qed (simp add: level_inv_def)
  then show ?thesis
    by (auto simp: in_level_order_def lengths_def breadthFirstSearch_def sorted_wrt_rev split: prod.splits)
qed

theorem bfs_level_order_witness:
  "sorted_wrt (\<ge>) (map (\<lambda>(v, path). length (p_edges path))
     (fst (breadthFirstSearch (two_cycle UNIQUE_PATH POST_ORDER\<lparr>cfg_strategy := BREADTH_FIRST\<rparr>) [] (JStr ''a''))))"
  using bfs_level_order [of "two_cycle UNIQUE_PATH POST_ORDER\<lparr>cfg_strategy := BREADTH_FIRST\<rparr>" "JStr ''a''"]
  by (simp add: two_cycle_def)

subsection \<open>Shortest paths\<close>

text \<open>\<open>walk succ start n v\<close>: the vertex \<open>v\<close> is reached from the start over \<open>n\<close> connections.\<close>

inductive walk :: "(jsval \<Rightarrow> connection list) \<Rightarrow> jsval \<Rightarrow> nat \<Rightarrow> jsval \<Rightarrow> bool" for succ start where
  walk_start: "walk succ start 0 start"
| walk_step: "walk succ start n v \<Longrightarrow> c \<in> set (succ v) \<Longrightarrow> walk succ start (Suc n) (c_vertex c)"

lemma walk_reachable: "reachable succ start v \<longleftrightarrow> (\<exists>n. walk succ start n v)"
proof
  show "reachable succ start v \<Longrightarrow> \<exists>n. walk succ start n v"
    by (induction rule: reachable.induct) (auto intro: walk.intros)
  show "\<exists>n. walk succ start n v \<Longrightarrow> reachable succ start v"
  proof (elim exE)
    fix n show "walk succ start n v \<Longrightarrow> reachable succ start v"
      by (induction rule: walk.induct) (auto intro: reachable.intros)
  qed
qed

text \<open>
  In an exhaustive search the first opened item with the id of a vertex was visited, and all the
  connections of the vertex became items of their own.
\<close>

definition expanded :: "(jsval \<Rightarrow> connection list) \<Rightarrow> bfs_item list \<Rightarrow> nat \<Rightarrow> bool" where
  "expanded succ items i \<longleftrightarrow> i < length items \<and> bfs_opened (items ! i)
     \<and> (\<forall>c \<in> set (succ (b_vertex (items ! i))). \<exists>j < length items. 0 < j \<and> b_parent (items ! j) = int i \<and> b_vertex (items ! j) = c_vertex c)"

definition visited_before :: "recording config \<Rightarrow> bfs_item list \<Rightarrow> recording \<Rightarrow> nat \<Rightarrow> bool" where
  "visited_before cfg items r j \<longleftrightarrow> (\<exists>i \<le> j. vertex_key cfg (b_vertex (items ! i)) = vertex_key cfg (b_vertex (items ! j))
     \<and> (b_vertex (items ! i), bfs_createPath items i) \<in> set r)"

definition shortest_inv :: "recording config \<Rightarrow> (jsval \<Rightarrow> connection list) \<Rightarrow> jsval \<Rightarrow> recording bfs_state \<Rightarrow> bool" where
  "shortest_inv cfg succ start s \<longleftrightarrow> bfs_inv cfg start s \<and> parents_sorted (b_toVisit s)
     \<and> vis_vertices (b_visited s) = vertex_key cfg ` fst ` set (b_result s)
     \<and> distinct (map (vertex_key cfg \<circ> fst) (b_result s))
     \<and> (\<forall>j < length (b_toVisit s). walk succ start (bfs_depth (b_toVisit s) j) (b_vertex (b_toVisit s ! j)))
     \<and> (\<forall>j < length (b_toVisit s). bfs_opened (b_toVisit s ! j) \<longrightarrow> visited_before cfg (b_toVisit s) (b_result s) j)
     \<and> (\<forall>x \<in> set (b_result s). \<exists>i. expanded succ (b_toVisit s) i \<and> x = (b_vertex (b_toVisit s ! i), bfs_createPath (b_toVisit s) i))"

lemma bfs_unique_global:
  assumes "exhaustive cfg succ"
  shows "checkUniqueness cfg (bfs_path_items cfg path visited) v e
    = (if vertex_key cfg v \<in> vis_vertices visited then (False, visited)
       else (True, visited\<lparr>vis_vertices := insert (vertex_key cfg v) (vis_vertices visited)\<rparr>))"
  using exhaustiveD(1,2) [OF assms]
  by (auto simp: checkUniqueness_def check_edge_def bfs_path_items_def Let_def split: option.split)

lemma expanded_extends:
  assumes x: "extends_items items i later cs items'" and "i < length items" "expanded succ items k"
  shows "expanded succ items' k"
proof -
  have len: "length items \<le> length items'" using extends_length [OF x] by simp
  have k: "k < length items" "bfs_opened (items ! k)" using assms(3) by (simp_all add: expanded_def)
  have "\<exists>j < length items'. 0 < j \<and> b_parent (items' ! j) = int k \<and> b_vertex (items' ! j) = c_vertex c"
    if "c \<in> set (succ (b_vertex (items' ! k)))" for c
  proof -
    obtain j where "j < length items" "0 < j" "b_parent (items ! j) = int k" "b_vertex (items ! j) = c_vertex c"
      using assms(3) \<open>c \<in> _\<close> unfolding expanded_def extends_old(2) [OF x k(1)] by blast
    then show ?thesis using len by (intro exI [of _ j]) (simp add: extends_old [OF x])
  qed
  then show ?thesis using k len extends_opened [OF x assms(2)] by (simp add: expanded_def)
qed

lemma expanded_new:
  assumes x: "extends_items items i later cs items'" and "i < length items" "set cs = set (succ (b_vertex (items ! i)))"
  shows "expanded succ items' i"
proof -
  have "\<exists>j < length items'. 0 < j \<and> b_parent (items' ! j) = int i \<and> b_vertex (items' ! j) = c_vertex c"
    if "c \<in> set (succ (b_vertex (items' ! i)))" for c
  proof -
    have "c \<in> set cs" using that assms(3) by (simp add: extends_old [OF x assms(2)])
    then obtain k where "k < length cs" "cs ! k = c" by (auto simp: in_set_conv_nth)
    then show ?thesis using extends_length [OF x] assms(2)
      by (intro exI [of _ "length items + k"]) (auto simp: extends_new [OF x])
  qed
  then show ?thesis using assms(2) extends_length [OF x] extends_opened [OF x assms(2)] by (simp add: expanded_def)
qed

lemma visited_before_extends:
  assumes x: "extends_items items i later cs items'" and "j < length items" "visited_before cfg items r j" "set r \<subseteq> set r'"
  shows "visited_before cfg items' r' j"
proof -
  obtain l where l: "l \<le> j" "vertex_key cfg (b_vertex (items ! l)) = vertex_key cfg (b_vertex (items ! j))"
    "(b_vertex (items ! l), bfs_createPath items l) \<in> set r"
    using assms(3) unfolding visited_before_def by blast
  then have "l < length items" using assms(2) by simp
  then show ?thesis using l assms(2,4) unfolding visited_before_def
    by (intro exI [of _ l]) (auto simp: extends_old [OF x] extends_path [OF x])
qed

lemma walks_extends:
  assumes t: "bfs_tree J start items'" and x: "extends_items items i later cs items'" and i: "i < length items"
    and old: "\<forall>j < length items. walk succ start (bfs_depth items j) (b_vertex (items ! j))"
    and cs: "set cs \<subseteq> set (succ (b_vertex (items ! i)))" and j: "j < length items'"
  shows "walk succ start (bfs_depth items' j) (b_vertex (items' ! j))"
proof (cases "j < length items")
  case True
  then show ?thesis using old by (simp add: extends_depth [OF x] extends_old [OF x])
next
  case False
  then obtain k where k: "j = length items + k" "k < length cs"
    using j extends_length [OF x] by (metis add_less_cancel_left le_Suc_ex not_less)
  then have "cs ! k \<in> set (succ (b_vertex (items ! i)))" using cs by (meson nth_mem subsetD)
  then have "walk succ start (Suc (bfs_depth items i)) (c_vertex (cs ! k))" using old i walk_step by blast
  moreover have "0 < j" using k i by auto
  ultimately show ?thesis
    using bfs_depth_child [OF t _ j] k i by (simp add: extends_new [OF x] extends_depth [OF x i])
qed

lemma shortest_inv_extends:
  assumes sh: "shortest_inv cfg succ start s"
    and i: "b_index s = int i" "i < length (b_toVisit s)" "b_step s = 1" "\<not> bfs_opened (b_toVisit s ! i)"
    and x: "extends_items (b_toVisit s) i later cs (b_toVisit s')" and inv: "bfs_inv cfg start s'"
    and new: "if vertex_key cfg (b_vertex (b_toVisit s ! i)) \<in> vis_vertices (b_visited s)
       then vis_vertices (b_visited s') = vis_vertices (b_visited s) \<and> b_result s' = b_result s \<and> cs = []
       else vis_vertices (b_visited s') = insert (vertex_key cfg (b_vertex (b_toVisit s ! i))) (vis_vertices (b_visited s))
         \<and> b_result s' = b_result s @ [(b_vertex (b_toVisit s ! i), bfs_createPath (b_toVisit s) i)]
         \<and> set cs = set (succ (b_vertex (b_toVisit s ! i)))"
  shows "shortest_inv cfg succ start s'"
proof -
  let ?I = "b_toVisit s" and ?I' = "b_toVisit s'" and ?R = "b_result s" and ?R' = "b_result s'"
  let ?v = "b_vertex (?I ! i)"
  let ?seen = "vertex_key cfg ?v \<in> vis_vertices (b_visited s)"
  note sh = sh [unfolded shortest_inv_def]
  have walked: "bfs_walk s" using sh by (simp add: bfs_inv_def)
  have t: "bfs_tree (joins cfg) start ?I'" using inv by (simp add: bfs_inv_def)
  have sub: "set ?R \<subseteq> set ?R'" using new by (auto split: if_splits)
  have vis: "vis_vertices (b_visited s') = vertex_key cfg ` fst ` set ?R'" "distinct (map (vertex_key cfg \<circ> fst) ?R')"
    using new sh by (auto split: if_splits)
  have walks: "\<forall>j < length ?I'. walk succ start (bfs_depth ?I' j) (b_vertex (?I' ! j))"
    using walks_extends [OF t x i(2)] sh new by (auto split: if_splits)
  have "expanded succ ?I' k" if "expanded succ ?I k" for k by (rule expanded_extends [OF x i(2) that])
  then have old: "\<exists>k. expanded succ ?I' k \<and> y = (b_vertex (?I' ! k), bfs_createPath ?I' k)" if y: "y \<in> set ?R" for y
  proof -
    obtain k where "expanded succ ?I k" "y = (b_vertex (?I ! k), bfs_createPath ?I k)" using sh y by blast
    moreover from this have "k < length ?I" by (simp add: expanded_def)
    ultimately show ?thesis
      using expanded_extends [OF x i(2)] by (intro exI [of _ k]) (simp add: extends_old [OF x] extends_path [OF x])
  qed
  have results: "\<exists>k. expanded succ ?I' k \<and> y = (b_vertex (?I' ! k), bfs_createPath ?I' k)" if "y \<in> set ?R'" for y
  proof (cases "y \<in> set ?R")
    case False
    then have "y = (?v, bfs_createPath ?I i)" "set cs = set (succ ?v)" using that new by (auto split: if_splits)
    then show ?thesis using expanded_new [OF x i(2)]
      by (intro exI [of _ i]) (simp add: extends_old [OF x i(2)] extends_path [OF x i(2)])
  qed (rule old)
  have "visited_before cfg ?I' ?R' j" if j: "j < length ?I'" "bfs_opened (?I' ! j)" for j
  proof (cases "j = i")
    case False
    then have "j < length ?I" "bfs_opened (?I ! j)" using extends_opened [OF x i(2) j(1)] j(2) by auto
    then show ?thesis using sh visited_before_extends [OF x _ _ sub] by blast
  next
    case True
    show ?thesis
    proof (cases ?seen)
      case False
      then show ?thesis using new True unfolding visited_before_def
        by (intro exI [of _ i]) (simp add: extends_old [OF x i(2)] extends_path [OF x i(2)])
    next
      case seen: True
      then obtain w p where w: "(w, p) \<in> set ?R" "vertex_key cfg w = vertex_key cfg ?v" using sh by auto
      then obtain l where l: "expanded succ ?I l" "w = b_vertex (?I ! l)" "p = bfs_createPath ?I l" using sh by blast
      then have "l \<le> i" using walked i by (fastforce simp: expanded_def bfs_walk_def)
      then have "visited_before cfg ?I ?R i" using w l unfolding visited_before_def by blast
      then show ?thesis using True visited_before_extends [OF x i(2) _ sub] by simp
    qed
  qed
  then show ?thesis
    using inv vis walks results parents_sorted_extends [OF walked i(1-3) x] sh by (simp add: shortest_inv_def)
qed

lemma bfs_step_exhaustive:
  assumes e: "exhaustive cfg succ" and i: "b_index s = int i" "i < length (b_toVisit s)" "b_step s = 1" "\<not> bfs_opened (b_toVisit s ! i)"
    and pre: "cfg_order cfg \<noteq> POST_ORDER"
  obtains later cs where "snd (bfs_step cfg s) = None" "extends_items (b_toVisit s) i later cs (b_toVisit (fst (bfs_step cfg s)))"
    "if vertex_key cfg (b_vertex (b_toVisit s ! i)) \<in> vis_vertices (b_visited s)
       then vis_vertices (b_visited (fst (bfs_step cfg s))) = vis_vertices (b_visited s)
         \<and> b_result (fst (bfs_step cfg s)) = b_result s \<and> cs = []
         \<and> (b_index (fst (bfs_step cfg s)) = int i + 1 \<and> b_step (fst (bfs_step cfg s)) = 1
            \<or> b_index (fst (bfs_step cfg s)) = int i \<and> b_step (fst (bfs_step cfg s)) = -1)
       else vis_vertices (b_visited (fst (bfs_step cfg s)))
           = insert (vertex_key cfg (b_vertex (b_toVisit s ! i))) (vis_vertices (b_visited s))
         \<and> b_result (fst (bfs_step cfg s)) = b_result s @ [(b_vertex (b_toVisit s ! i), bfs_createPath (b_toVisit s) i)]
         \<and> set cs = set (succ (b_vertex (b_toVisit s ! i))) \<and> length cs = length (succ (b_vertex (b_toVisit s ! i)))
         \<and> b_index (fst (bfs_step cfg s)) = int i \<and> b_step (fst (bfs_step cfg s)) = 1"
proof -
  have none: "b_visit (b_toVisit s ! i) = None" using i(4) by (simp add: bfs_opened_def)
  let ?v = "b_vertex (b_toVisit s ! i)"
  show thesis
  proof (cases "vertex_key cfg ?v \<in> vis_vertices (b_visited s)")
    case True
    then show thesis using i pre none
      by (intro that [of False "[]"])
        (simp_all add: bfs_step_def bfs_unique_global [OF e] Let_def extends_items_def connected_items_def
           exhaustiveD [OF e] bfs_advance_def)
  next
    case False
    let ?cs = "if checkReverse cfg then rev (succ ?v) else succ ?v"
    have st: "bfs_step cfg s = (s\<lparr>b_visited := (b_visited s)\<lparr>vis_vertices := insert (vertex_key cfg ?v) (vis_vertices (b_visited s))\<rparr>,
        b_toVisit := (b_toVisit s)[i := (b_toVisit s ! i)\<lparr>b_visit := Some (cfg_order cfg \<noteq> PRE_ORDER)\<rparr>] @ connected_items (int i) ?cs,
        b_result := b_result s @ [(?v, bfs_createPath (b_toVisit s) i)]\<rparr>, None)"
      using False i pre none
      by (simp add: bfs_step_def bfs_unique_global [OF e] bfs_open_def visit_and_expand_exhaustive [OF e] Let_def)
    show thesis
      by (rule that [of "cfg_order cfg \<noteq> PRE_ORDER" ?cs]) (use False i in \<open>simp_all add: st extends_items_def\<close>)
  qed
qed

lemma shortest_inv_step:
  assumes e: "exhaustive cfg succ" and pre: "cfg_order cfg \<noteq> POST_ORDER" and sh: "shortest_inv cfg succ start s" and alive: "bfs_alive s"
  shows "shortest_inv cfg succ start (fst (bfs_step cfg s))"
proof -
  note rec = exhaustiveD(3) [OF e]
  have inv: "bfs_inv cfg start s" "bfs_walk s" using sh by (simp_all add: shortest_inv_def bfs_inv_def)
  have inv': "bfs_inv cfg start (fst (bfs_step cfg s))" by (rule bfs_inv_step [OF rec inv(1) alive])
  from inv(2) alive obtain i where i: "b_index s = int i" "i < length (b_toVisit s)" by (rule bfs_walk_alive)
  show ?thesis
  proof (cases "bfs_opened (b_toVisit s ! i)")
    case True
    then have "fst (bfs_step cfg s) = s\<lparr>b_result := b_result s, b_index := int i + b_step s\<rparr>"
      using pre i by (auto simp: bfs_step_def bfs_opened_def bfs_close_def Let_def)
    then show ?thesis using sh inv' by (simp add: shortest_inv_def)
  next
    case False
    then have "b_step s = 1" using inv(2) i by (auto simp: bfs_walk_def)
    from e i this False pre show ?thesis
    proof (rule bfs_step_exhaustive)
      fix later cs
      assume st: "extends_items (b_toVisit s) i later cs (b_toVisit (fst (bfs_step cfg s)))"
        "if vertex_key cfg (b_vertex (b_toVisit s ! i)) \<in> vis_vertices (b_visited s)
           then vis_vertices (b_visited (fst (bfs_step cfg s))) = vis_vertices (b_visited s)
             \<and> b_result (fst (bfs_step cfg s)) = b_result s \<and> cs = []
             \<and> (b_index (fst (bfs_step cfg s)) = int i + 1 \<and> b_step (fst (bfs_step cfg s)) = 1
                \<or> b_index (fst (bfs_step cfg s)) = int i \<and> b_step (fst (bfs_step cfg s)) = -1)
           else vis_vertices (b_visited (fst (bfs_step cfg s)))
               = insert (vertex_key cfg (b_vertex (b_toVisit s ! i))) (vis_vertices (b_visited s))
             \<and> b_result (fst (bfs_step cfg s)) = b_result s @ [(b_vertex (b_toVisit s ! i), bfs_createPath (b_toVisit s) i)]
             \<and> set cs = set (succ (b_vertex (b_toVisit s ! i))) \<and> length cs = length (succ (b_vertex (b_toVisit s ! i)))
             \<and> b_index (fst (bfs_step cfg s)) = int i \<and> b_step (fst (bfs_step cfg s)) = 1"
      show ?thesis
        by (rule shortest_inv_extends [OF sh i \<open>b_step s = 1\<close> False st(1) inv']) (use st(2) in \<open>auto split: if_splits\<close>)
    qed
  qed
qed

text \<open>
  Forth, an opened item costs one iteration more, and later one on the way back; an item still to be
  opened costs three at most.
\<close>

definition bfs_cost :: "'r config \<Rightarrow> (jsval \<Rightarrow> connection list) \<Rightarrow> jsval list \<Rightarrow> 'r bfs_state \<Rightarrow> nat" where
  "bfs_cost cfg succ vs s = nat (b_index s + 1) + (if b_step s = 1
     then 3 * length (filter (\<lambda>i. \<not> bfs_opened i) (b_toVisit s)) + 3 * unvisited_degree cfg succ vs (vis_vertices (b_visited s))
       + (if b_index s < int (length (b_toVisit s)) \<and> bfs_opened (b_toVisit s ! nat (b_index s)) then 2 else 0)
     else 0)"

lemma unopened_extends:
  assumes "extends_items items i later cs items'" "i < length items" "\<not> bfs_opened (items ! i)"
  shows "Suc (length (filter (\<lambda>i. \<not> bfs_opened i) items')) = length (filter (\<lambda>i. \<not> bfs_opened i) items) + length cs"
proof -
  have items: "items = take i items @ items ! i # drop (Suc i) items" by (simp add: assms(2) id_take_nth_drop)
  have items': "items' = take i items @ (items ! i)\<lparr>b_visit := Some later\<rparr> # drop (Suc i) items @ connected_items (int i) cs"
    using assms(1,2) by (simp add: extends_items_def upd_conv_take_nth_drop)
  have "filter (\<lambda>i. \<not> bfs_opened i) (connected_items (int i) cs) = connected_items (int i) cs"
    by (auto simp: connected_items_def bfs_opened_def)
  then show ?thesis
    by (subst items', subst (2) items) (simp add: assms(3), simp add: bfs_opened_def connected_items_def)
qed

lemma bfs_step_decreases:
  assumes e: "exhaustive cfg succ" and pre: "cfg_order cfg \<noteq> POST_ORDER" and sh: "shortest_inv cfg succ start s" and alive: "bfs_alive s"
    and fin: "\<forall>v. reachable succ start v \<longrightarrow> vertex_key cfg v \<in> vertex_key cfg ` set vs"
  shows "snd (bfs_step cfg s) = None \<and> bfs_cost cfg succ vs (fst (bfs_step cfg s)) < bfs_cost cfg succ vs s"
proof -
  have w: "bfs_walk s" using sh by (simp add: shortest_inv_def bfs_inv_def)
  from w alive obtain i where i: "b_index s = int i" "i < length (b_toVisit s)" by (rule bfs_walk_alive)
  let ?v = "b_vertex (b_toVisit s ! i)" and ?vis = "vis_vertices (b_visited s)" and ?s' = "fst (bfs_step cfg s)"
  show ?thesis
  proof (cases "bfs_opened (b_toVisit s ! i)")
    case True
    then have "bfs_step cfg s = (s\<lparr>b_result := b_result s, b_index := int i + b_step s\<rparr>, None)"
      using pre i by (auto simp: bfs_step_def bfs_opened_def bfs_close_def Let_def)
    then show ?thesis using True i w by (auto simp: bfs_cost_def bfs_walk_def nat_add_distrib split: if_splits)
  next
    case False
    then have step: "b_step s = 1" using w i by (auto simp: bfs_walk_def)
    from e i step False pre show ?thesis
    proof (rule bfs_step_exhaustive)
      fix later cs
      assume st: "snd (bfs_step cfg s) = None" "extends_items (b_toVisit s) i later cs (b_toVisit ?s')"
        "if vertex_key cfg ?v \<in> ?vis
           then vis_vertices (b_visited ?s') = ?vis \<and> b_result ?s' = b_result s \<and> cs = []
             \<and> (b_index ?s' = int i + 1 \<and> b_step ?s' = 1 \<or> b_index ?s' = int i \<and> b_step ?s' = -1)
           else vis_vertices (b_visited ?s') = insert (vertex_key cfg ?v) ?vis
             \<and> b_result ?s' = b_result s @ [(?v, bfs_createPath (b_toVisit s) i)]
             \<and> set cs = set (succ ?v) \<and> length cs = length (succ ?v) \<and> b_index ?s' = int i \<and> b_step ?s' = 1"
      note un = unopened_extends [OF st(2) i(2) False]
      have nxt: "\<not> bfs_opened (b_toVisit ?s' ! Suc i)" if "Suc i < length (b_toVisit ?s')"
        using extends_opened [OF st(2) i(2) that] w i step by (auto simp: bfs_walk_def)
      have reach: "reachable succ start ?v" using sh i(2) unfolding shortest_inv_def walk_reachable by blast
      show ?thesis
      proof (cases "vertex_key cfg ?v \<in> ?vis")
        case True
        then show ?thesis using st(1,3) un nxt step i False by (auto simp: bfs_cost_def nat_add_distrib)
      next
        case new: False
        have "unvisited_degree cfg succ vs (insert (vertex_key cfg ?v) ?vis) + length (succ ?v) \<le> unvisited_degree cfg succ vs ?vis"
          using fin reach new by (intro unvisited_degree_insert [OF e]) auto
        then show ?thesis using st(1,3) un step i False new by (simp add: bfs_cost_def nat_add_distrib)
      qed
    qed
  qed
qed

lemma shortest_inv_end:
  assumes e: "exhaustive cfg succ" and sh: "shortest_inv cfg succ start s" and "\<not> bfs_alive s" and "walk succ start n w"
  shows "\<exists>i. expanded succ (b_toVisit s) i \<and> vertex_key cfg (b_vertex (b_toVisit s ! i)) = vertex_key cfg w
    \<and> bfs_depth (b_toVisit s) i \<le> n \<and> (b_vertex (b_toVisit s ! i), bfs_createPath (b_toVisit s) i) \<in> set (b_result s)"
proof -
  let ?I = "b_toVisit s"
  have w: "bfs_walk s" and t: "bfs_tree (joins cfg) start ?I" and p: "parents_sorted ?I"
    using sh by (simp_all add: shortest_inv_def bfs_inv_def)
  have opened: "bfs_opened (?I ! j)" if "j < length ?I" for j
    using w assms(3) that by (auto simp: bfs_walk_def bfs_alive_def)
  have first: "\<exists>i. expanded succ ?I i \<and> vertex_key cfg (b_vertex (?I ! i)) = vertex_key cfg (b_vertex (?I ! j))
      \<and> bfs_depth ?I i \<le> bfs_depth ?I j \<and> (b_vertex (?I ! i), bfs_createPath ?I i) \<in> set (b_result s)" if j: "j < length ?I" for j
  proof -
    obtain l where l: "l \<le> j" "vertex_key cfg (b_vertex (?I ! l)) = vertex_key cfg (b_vertex (?I ! j))"
      "(b_vertex (?I ! l), bfs_createPath ?I l) \<in> set (b_result s)"
      using sh opened [OF j] j unfolding shortest_inv_def visited_before_def by blast
    then obtain i where i: "expanded succ ?I i" "b_vertex (?I ! l) = b_vertex (?I ! i)" "bfs_createPath ?I l = bfs_createPath ?I i"
      using sh unfolding shortest_inv_def by fastforce
    have "bfs_depth ?I i \<le> bfs_depth ?I j"
      using bfs_depth_mono [OF t p l(1) j] i(3) by (simp add: bfs_depth_def)
    then show ?thesis using i l by auto
  qed
  show ?thesis using assms(4)
  proof induction
    case walk_start
    then show ?case using first [of 0] t bfs_depth_root [OF t] by (auto simp: bfs_tree_def bfs_core_def)
  next
    case (walk_step n v c)
    then obtain i where i: "expanded succ ?I i" "vertex_key cfg (b_vertex (?I ! i)) = vertex_key cfg v" "bfs_depth ?I i \<le> n" by blast
    then have "c \<in> set (succ (b_vertex (?I ! i)))" using walk_step.hyps(2) exhaustiveD(6) [OF e i(2)] by simp
    then obtain j where j: "j < length ?I" "0 < j" "b_parent (?I ! j) = int i" "b_vertex (?I ! j) = c_vertex c"
      using i(1) unfolding expanded_def by blast
    have "bfs_depth ?I j = Suc (bfs_depth ?I i)" using bfs_depth_child [OF t j(2,1)] j(3) by simp
    moreover from first [OF j(1)] obtain k where "expanded succ ?I k" "vertex_key cfg (b_vertex (?I ! k)) = vertex_key cfg (c_vertex c)"
      "bfs_depth ?I k \<le> bfs_depth ?I j" "(b_vertex (?I ! k), bfs_createPath ?I k) \<in> set (b_result s)"
      using j(4) by auto
    ultimately show ?case using i(3) by (intro exI [of _ k]) simp
  qed
qed

lemma bfs_exhaustive_total:
  assumes "exhaustive cfg succ" "cfg_order cfg \<noteq> POST_ORDER" "\<And>n. \<not> cfg_killed cfg n"
    "\<forall>v. reachable succ start v \<longrightarrow> vertex_key cfg v \<in> vertex_key cfg ` set vs"
    "3 * (\<Sum>v\<leftarrow>vs. length (succ v)) + 3 \<le> cfg_maxIterations cfg"
  shows "\<exists>visits. breadthFirstSearch cfg [] start = (visits, None)
    \<and> vertex_key cfg ` fst ` set visits = vertex_key cfg ` {v. reachable succ start v}
    \<and> distinct (map (vertex_key cfg \<circ> fst) visits)
    \<and> (\<forall>(v, path) \<in> set visits. walk succ start (length (p_edges path)) v
         \<and> (\<forall>n w. walk succ start n w \<and> vertex_key cfg w = vertex_key cfg v \<longrightarrow> length (p_edges path) \<le> n))"
proof -
  let ?s = "bfs_start [] start" and ?I = "shortest_inv cfg succ start"
  have init: "?I ?s"
    using bfs_inv_start [of cfg start]
    by (simp add: shortest_inv_def bfs_start_def parents_sorted_def bfs_opened_def)
      (simp add: bfs_depth_def bfs_createPath.simps extend_path_def walk_start)
  have "snd (bfs_loop cfg 0 ?s) = None"
    unfolding bfs_loop_def
  proof (rule search_loop_ends [where I = ?I])
    show "int (0 + bfs_cost cfg succ vs ?s) \<le> cfg_maxIterations cfg + 1"
      using assms(5) by (simp add: bfs_cost_def bfs_start_def bfs_opened_def unvisited_degree_def)
  qed (use init assms(3) shortest_inv_step [OF assms(1,2)] bfs_step_decreases [OF assms(1,2) _ _ assms(4)] in auto)
  then obtain s where s: "bfs_loop cfg 0 ?s = (s, None)" by (cases "bfs_loop cfg 0 ?s") auto
  have "?I (fst (bfs_loop cfg 0 ?s))"
    unfolding bfs_loop_def by (rule search_loop_invariant) (use init shortest_inv_step [OF assms(1,2)] in auto)
  then have sh: "?I s" by (simp add: s)
  have dead: "\<not> bfs_alive s" using s unfolding bfs_loop_def by (rule search_loop_finished)
  note found = shortest_inv_end [OF assms(1) sh dead]
  have result: "\<exists>i. expanded succ (b_toVisit s) i \<and> v = b_vertex (b_toVisit s ! i) \<and> path = bfs_createPath (b_toVisit s) i
      \<and> walk succ start (length (p_edges path)) v" if "(v, path) \<in> set (b_result s)" for v path
  proof -
    from sh have "\<forall>x \<in> set (b_result s). \<exists>i. expanded succ (b_toVisit s) i \<and> x = (b_vertex (b_toVisit s ! i), bfs_createPath (b_toVisit s) i)"
      and w: "\<forall>j < length (b_toVisit s). walk succ start (bfs_depth (b_toVisit s) j) (b_vertex (b_toVisit s ! j))"
      by (simp_all add: shortest_inv_def)
    with that obtain i where i: "expanded succ (b_toVisit s) i" "v = b_vertex (b_toVisit s ! i)" "path = bfs_createPath (b_toVisit s) i"
      by blast
    then have "i < length (b_toVisit s)" by (simp add: expanded_def)
    then show ?thesis using i w by (auto simp: bfs_depth_def)
  qed
  have dist: "distinct (map (vertex_key cfg \<circ> fst) (b_result s))" using sh by (simp add: shortest_inv_def)
  have "length (p_edges path) \<le> n"
    if vp: "(v, path) \<in> set (b_result s)" and w: "walk succ start n w" "vertex_key cfg w = vertex_key cfg v" for v path n w
  proof -
    obtain i where i: "vertex_key cfg (b_vertex (b_toVisit s ! i)) = vertex_key cfg v" "bfs_depth (b_toVisit s) i \<le> n"
      "(b_vertex (b_toVisit s ! i), bfs_createPath (b_toVisit s) i) \<in> set (b_result s)"
      using found [OF w(1)] w(2) by auto
    then have "(v, path) = (b_vertex (b_toVisit s ! i), bfs_createPath (b_toVisit s) i)"
      using dist vp by (intro inj_onD [of "vertex_key cfg \<circ> fst" "set (b_result s)"]) (simp_all add: distinct_map)
    then show ?thesis using i(2) by (simp add: bfs_depth_def)
  qed
  moreover have "vertex_key cfg ` fst ` set (b_result s) = vertex_key cfg ` {v. reachable succ start v}"
  proof (intro equalityI subsetI)
    fix k assume "k \<in> vertex_key cfg ` fst ` set (b_result s)"
    then obtain v path where "(v, path) \<in> set (b_result s)" "k = vertex_key cfg v" by auto
    then show "k \<in> vertex_key cfg ` {v. reachable succ start v}" using result walk_reachable by blast
  next
    fix k assume "k \<in> vertex_key cfg ` {v. reachable succ start v}"
    then obtain n v where "walk succ start n v" "k = vertex_key cfg v" using walk_reachable by blast
    then show "k \<in> vertex_key cfg ` fst ` set (b_result s)" using found by (metis fst_conv imageI)
  qed
  moreover have "breadthFirstSearch cfg [] start = (b_result s, None)" by (simp add: breadthFirstSearch_def s)
  ultimately show ?thesis using dist result by blast
qed

text \<open>
  C19: A breadth-first search in one of the pre-orders, without a filter and with global uniqueness, over a
  graph with finitely many reachable vertices, ends without an exception if \<open>maxIterations\<close> is at least
  three times the number of their connections plus three. It has then visited exactly the vertices that
  can be reached from the start, each once, and none of them over more connections than needed.
\<close>

theorem bfs_shortest_paths:
  assumes "exhaustive cfg succ" "cfg_order cfg \<noteq> POST_ORDER" "\<And>n. \<not> cfg_killed cfg n"
    "\<forall>v. reachable succ start v \<longrightarrow> vertex_key cfg v \<in> vertex_key cfg ` set vs"
    "3 * (\<Sum>v\<leftarrow>vs. length (succ v)) + 3 \<le> cfg_maxIterations cfg"
  shows "\<exists>visits. breadthFirstSearch cfg [] start = (visits, None)
    \<and> vertex_key cfg ` fst ` set visits = vertex_key cfg ` {v. reachable succ start v}
    \<and> distinct (map (vertex_key cfg \<circ> fst) visits)
    \<and> (\<forall>(v, path) \<in> set visits. walk succ start (length (p_edges path)) v
         \<and> (\<forall>n w. walk succ start n w \<and> vertex_key cfg w = vertex_key cfg v \<longrightarrow> length (p_edges path) \<le> n))"
  by (rule bfs_exhaustive_total [OF assms])

theorem bfs_shortest_paths_witness:
  "\<exists>visits. breadthFirstSearch (two_cycle UNIQUE_GLOBAL PRE_ORDER) [] (JStr ''a'') = (visits, None)
    \<and> vertex_key (two_cycle UNIQUE_GLOBAL PRE_ORDER) ` fst ` set visits
      = vertex_key (two_cycle UNIQUE_GLOBAL PRE_ORDER) ` {v. reachable two_cycle_succ (JStr ''a'') v}
    \<and> distinct (map (vertex_key (two_cycle UNIQUE_GLOBAL PRE_ORDER) \<circ> fst) visits)
    \<and> (\<forall>(v, path) \<in> set visits. walk two_cycle_succ (JStr ''a'') (length (p_edges path)) v
         \<and> (\<forall>n w. walk two_cycle_succ (JStr ''a'') n w \<and> vertex_key (two_cycle UNIQUE_GLOBAL PRE_ORDER) w
               = vertex_key (two_cycle UNIQUE_GLOBAL PRE_ORDER) v \<longrightarrow> length (p_edges path) \<le> n))"
  by (rule bfs_shortest_paths [where vs = "[JStr ''a'', JStr ''b'']"])
    (use two_cycle_exhaustive two_cycle_reachable in \<open>auto simp: two_cycle_def two_cycle_succ_def\<close>)

end
