(* ===== verification/Traversal_Nodes.thy ===== *)
theory Traversal_Nodes
  imports Traversal Binary_Heap "HOL-Library.AList"
begin

text \<open>
  What the three shortest path strategies of \<open>js/common/modules/org/arangodb/graph/traversal.js\<close> share:
  the object \<open>nodes\<close>, which holds one node per vertex id, \<open>makeNode\<close>, \<open>vertexList\<close> and \<open>buildPath\<close>.
  Nodes refer to their parent by reference; the model names a node by its id and keeps the nodes
  in an association list, in the order of their creation. The heap then is a list of ids, scored
  with the nodes as they are at the time of the call.
\<close>

subsection \<open>Configuration and nodes\<close>

text \<open>
  \<open>cfg_distance\<close>, \<open>cfg_weight\<close> and \<open>cfg_defaultWeight\<close> are \<open>None\<close> where the configuration has no such member
  or a falsy one; distances and default weights are numbers.
\<close>

record 'r path_config = "'r config" +
  cfg_distance :: "(jsval \<Rightarrow> jsval \<Rightarrow> jsval \<Rightarrow> trav_exc + jsnum) option"
  cfg_weight :: "string option"
  cfg_defaultWeight :: "jsnum option"

record search_node =
  n_vertex :: jsval
  n_parent :: "(string \<times> jsval) option"
  n_visited :: bool

text \<open>\<open>vertex._id\<close> as a property key; \<open>null\<close> has no properties.\<close>

definition node_id :: "jsval \<Rightarrow> trav_exc + string" where
  "node_id vertex = (if vertex = JNull \<or> vertex = JUndef then Inl (Raised TypeError)
     else Inr (js_string (attribute vertex ''_id'')))"

definition node_at :: "(string \<times> 'n) list \<Rightarrow> string \<Rightarrow> 'n" where
  "node_at nodes nid = the (map_of nodes nid)"

definition make_node :: "(jsval \<Rightarrow> 'n) \<Rightarrow> (string \<times> 'n) list \<Rightarrow> jsval \<Rightarrow> string \<Rightarrow> (string \<times> 'n) list" where
  "make_node fresh nodes vertex nid = (if map_of nodes nid = None then nodes @ [(nid, fresh vertex)] else nodes)"

text \<open>
  The loops over the chain of parents are bounded by the number of nodes, which \<open>chain_of_path\<close> shows to
  be enough for the chains of a search.
\<close>

fun vertexList :: "nat \<Rightarrow> (string \<times> 'n search_node_scheme) list \<Rightarrow> string \<Rightarrow> string list" where
  "vertexList 0 nodes nid = []"
| "vertexList (Suc n) nodes nid = nid # (case n_parent (node_at nodes nid) of None \<Rightarrow> [] | Some (p, e) \<Rightarrow> vertexList n nodes p)"

fun build_path :: "nat \<Rightarrow> (string \<times> 'n search_node_scheme) list \<Rightarrow> string \<Rightarrow> tpath" where
  "build_path 0 nodes nid = \<lparr>p_edges = [], p_vertices = []\<rparr>"
| "build_path (Suc n) nodes nid = (case n_parent (node_at nodes nid) of
      None \<Rightarrow> \<lparr>p_edges = [], p_vertices = [n_vertex (node_at nodes nid)]\<rparr>
    | Some (p, e) \<Rightarrow> extend_path (build_path n nodes p) (Some e) (n_vertex (node_at nodes nid)))"

definition buildPath :: "(string \<times> 'n search_node_scheme) list \<Rightarrow> string \<Rightarrow> tpath" where
  "buildPath nodes nid = build_path (length nodes) nodes nid"

text \<open>The calls of the visitor for a list of nodes; an exception ends them.\<close>

fun visit_nodes :: "('r \<Rightarrow> jsval \<Rightarrow> tpath \<Rightarrow> 'r \<times> trav_exc option) \<Rightarrow> 'r \<Rightarrow> (jsval \<times> tpath) list \<Rightarrow> 'r \<times> trav_exc option" where
  "visit_nodes visitor result [] = (result, None)"
| "visit_nodes visitor result ((vertex, path) # rest) = (case visitor result vertex path of
      (result', Some e) \<Rightarrow> (result', Some e)
    | (result', None) \<Rightarrow> visit_nodes visitor result' rest)"

text \<open>Heap operations on ids, with the scores of the current nodes.\<close>

definition push_id :: "(string \<Rightarrow> jsnum) \<Rightarrow> string \<Rightarrow> string list \<Rightarrow> string list" where
  "push_id score nid ids = heap_values (heap_push nid \<lparr>heap_values = ids, scoreFunction = score\<rparr>)"

definition pop_id :: "(string \<Rightarrow> jsnum) \<Rightarrow> string list \<Rightarrow> string \<times> string list" where
  "pop_id score ids = (case heap_pop \<lparr>heap_values = ids, scoreFunction = score\<rparr> of
      None \<Rightarrow> ([], ids) | Some (nid, h) \<Rightarrow> (nid, heap_values h))"

definition rescore_id :: "(string \<Rightarrow> jsnum) \<Rightarrow> string \<Rightarrow> string list \<Rightarrow> string list" where
  "rescore_id score nid ids = heap_values (rescoreElement nid \<lparr>heap_values = ids, scoreFunction = score\<rparr>)"

lemma set_pop_id:
  assumes "ids \<noteq> []" "pop_id score ids = (i, ids')"
  shows "set ids = insert i (set ids')"
proof -
  let ?h = "\<lparr>heap_values = ids, scoreFunction = score\<rparr>"
  obtain h' where h': "heap_pop ?h = Some (i, h')" "ids' = heap_values h'"
    using assms by (cases "heap_pop ?h") (auto simp: pop_id_def heap_pop_def Let_def split: list.splits)
  have "mset ids = add_mset i (mset ids')" using heap_pop_mset [OF h'(1)] h'(2) by simp
  then show ?thesis by (metis set_mset_add_mset_insert set_mset_mset)
qed

lemma set_push_id: "set (push_id score i ids) = insert i (set ids)"
proof -
  have "mset (push_id score i ids) = add_mset i (mset ids)"
    using heap_push_mset [of i "\<lparr>heap_values = ids, scoreFunction = score\<rparr>"] by (simp add: push_id_def)
  then show ?thesis by (metis set_mset_add_mset_insert set_mset_mset)
qed

lemma node_at_update: "node_at (AList.update i n nodes) j = (if j = i then n else node_at nodes j)"
  by (simp add: node_at_def update_conv')

lemma map_of_make_node:
  "map_of (make_node fresh nodes v i) = (if map_of nodes i = None then (map_of nodes)(i \<mapsto> fresh v) else map_of nodes)"
  by (auto simp: make_node_def map_add_def fun_eq_iff split: option.split)

end
