(* ===== verification/Traversal_Dijkstra.thy ===== *)
theory Traversal_Dijkstra
  imports Traversal_Nodes
begin

text \<open>
  The strategy \<open>dijkstraSearch\<close> of \<open>js/common/modules/org/arangodb/graph/traversal.js\<close>. The heap orders the
  nodes by their current distance, and a shorter distance is written to a node that may already be in
  the heap.
\<close>

record dk_node = search_node +
  dk_dist :: jsnum
  dk_hide :: bool

definition fresh_node :: "jsval \<Rightarrow> dk_node" where
  "fresh_node vertex = \<lparr>n_vertex = vertex, n_parent = None, n_visited = False, dk_dist = PInf, dk_hide = False\<rparr>"

type_synonym dk_nodes = "(string \<times> dk_node) list"

record 'r dk_state =
  dk_nodes :: dk_nodes
  dk_heap :: "string list"
  dk_result :: 'r
  dk_finished :: bool

definition dk_score :: "dk_nodes \<Rightarrow> string \<Rightarrow> jsnum" where
  "dk_score nodes nid = dk_dist (node_at nodes nid)"

definition edge_weight :: "'r path_config \<Rightarrow> jsval \<Rightarrow> jsval \<Rightarrow> jsval \<Rightarrow> trav_exc + jsnum" where
  "edge_weight cfg current neighbor edge = (case cfg_distance cfg of
      Some distance \<Rightarrow> distance current neighbor edge
    | None \<Rightarrow> (case cfg_weight cfg of
        None \<Rightarrow> Inr (Fin 1)
      | Some a \<Rightarrow> (case attribute edge a of
          JNum w \<Rightarrow> Inr w
        | _ \<Rightarrow> Inr (case cfg_defaultWeight cfg of Some w \<Rightarrow> w | None \<Rightarrow> PInf))))"

text \<open>The loop over the connections of the current node.\<close>

fun relax :: "'r path_config \<Rightarrow> string \<Rightarrow> jsnum \<Rightarrow> connection list \<Rightarrow> dk_nodes \<Rightarrow> string list \<Rightarrow> (dk_nodes \<times> string list) \<times> trav_exc option" where
  "relax cfg current d [] nodes heap = ((nodes, heap), None)"
| "relax cfg current d (c # cs) nodes heap =
     (case node_id (c_vertex c) of
        Inl e \<Rightarrow> ((nodes, heap), Some e)
      | Inr nid \<Rightarrow>
          (let nodes = make_node fresh_node nodes (c_vertex c) nid; neighbor = node_at nodes nid
           in if n_visited neighbor then relax cfg current d cs nodes heap
              else case edge_weight cfg (n_vertex (node_at nodes current)) (n_vertex neighbor) (c_edge c) of
                  Inl e \<Rightarrow> ((nodes, heap), Some e)
                | Inr weight \<Rightarrow>
                    (let alt = num_add d weight
                     in if num_lt alt (dk_dist neighbor)
                        then let nodes = AList.update nid (neighbor\<lparr>dk_dist := alt, n_parent := Some (current, c_edge c)\<rparr>) nodes
                             in relax cfg current d cs nodes (push_id (dk_score nodes) nid heap)
                        else relax cfg current d cs nodes heap)))"

definition dk_visits :: "dk_nodes \<Rightarrow> string \<Rightarrow> (jsval \<times> tpath) list" where
  "dk_visits nodes nid = map (\<lambda>v. (n_vertex (node_at nodes v), buildPath nodes v))
     (filter (\<lambda>v. \<not> dk_hide (node_at nodes v)) (rev (vertexList (length nodes) nodes nid)))"

definition dk_expand :: "'c path_config \<Rightarrow> string \<Rightarrow> 'r dk_state \<Rightarrow> 'r dk_state \<times> trav_exc option" where
  "dk_expand cfg nid s =
     (let s = s\<lparr>dk_nodes := AList.update nid (node_at (dk_nodes s) nid\<lparr>n_visited := True\<rparr>) (dk_nodes s)\<rparr>;
          current = node_at (dk_nodes s) nid;
          path = buildPath (dk_nodes s) nid
      in case cfg_filter cfg (n_vertex current) path of
           Inl e \<Rightarrow> (s, Some e)
         | Inr args \<Rightarrow> (case parseFilterResult args of
             Inl e \<Rightarrow> (s, Some e)
           | Inr fr \<Rightarrow>
               (let s = (if fr_visit fr then s else s\<lparr>dk_nodes := AList.update nid (current\<lparr>dk_hide := True\<rparr>) (dk_nodes s)\<rparr>)
                in if \<not> fr_expand fr then (s, None)
                   else case cfg_expander cfg (n_vertex current) path of
                       Inl e \<Rightarrow> (s, Some e)
                     | Inr conns \<Rightarrow>
                         (let ((nodes, heap), exc) = relax cfg nid (dk_dist current) conns (dk_nodes s) (dk_heap s)
                          in (s\<lparr>dk_nodes := nodes, dk_heap := heap\<rparr>, exc)))))"

text \<open>The part of the loop for a node that is not an end vertex.\<close>

definition dk_continue :: "'c path_config \<Rightarrow> string \<Rightarrow> 'r dk_state \<Rightarrow> 'r dk_state \<times> trav_exc option" where
  "dk_continue cfg i s =
     (let current = node_at (dk_nodes s) i
      in if n_visited current then (s, None)
         else if dk_dist current = PInf then (s\<lparr>dk_finished := True\<rparr>, None)
         else dk_expand cfg i s)"

definition dk_step :: "'r path_config \<Rightarrow> jsval \<Rightarrow> 'r dk_state \<Rightarrow> 'r dk_state \<times> trav_exc option" where
  "dk_step cfg endVertex s =
     (let (nid, heap) = pop_id (dk_score (dk_nodes s)) (dk_heap s);
          s = s\<lparr>dk_heap := heap\<rparr>; current = node_at (dk_nodes s) nid
      in if js_eq (attribute (n_vertex current) ''_id'') (attribute endVertex ''_id'')
         then let (result, exc) = visit_nodes (\<lambda>r v p. cfg_visitor cfg r v p []) (dk_result s) (dk_visits (dk_nodes s) nid)
              in (s\<lparr>dk_result := result, dk_finished := True\<rparr>, exc)
         else dk_continue cfg nid s)"

definition dk_alive :: "'r dk_state \<Rightarrow> bool" where
  "dk_alive s \<longleftrightarrow> \<not> dk_finished s \<and> dk_heap s \<noteq> []"

definition dk_start :: "'r \<Rightarrow> jsval \<Rightarrow> string \<Rightarrow> 'r dk_state" where
  "dk_start result startVertex nid =
     (let nodes = [(nid, (fresh_node startVertex)\<lparr>dk_dist := Fin 0\<rparr>)]
      in \<lparr>dk_nodes = nodes, dk_heap = push_id (dk_score nodes) nid [], dk_result = result, dk_finished = False\<rparr>)"

definition dijkstraSearch :: "'r path_config \<Rightarrow> 'r \<Rightarrow> jsval \<Rightarrow> jsval \<Rightarrow> 'r \<times> trav_exc option" where
  "dijkstraSearch cfg result startVertex endVertex = (case node_id startVertex of
      Inl e \<Rightarrow> (result, Some e)
    | Inr nid \<Rightarrow>
        (let (s, exc) = search_loop (cfg_maxIterations cfg) (cfg_killed cfg) dk_alive (dk_step cfg endVertex) 0
               (dk_start result startVertex nid)
         in (dk_result s, exc)))"

subsection \<open>An example graph\<close>

definition edge_doc :: "string \<Rightarrow> rat \<Rightarrow> jsval" where
  "edge_doc to w = JObj [(''_to'', JStr to), (''weight'', JNum (Fin w))]"

definition vertex_doc :: "string \<Rightarrow> jsval" where
  "vertex_doc nid = JObj [(''_id'', JStr nid)]"

fun weighted_graph :: "(string \<times> (string \<times> rat) list) list \<Rightarrow> jsval \<Rightarrow> connection list" where
  "weighted_graph g (JObj ob) = (case map_of g (js_string (obj_get ob ''_id'')) of
      None \<Rightarrow> []
    | Some es \<Rightarrow> map (\<lambda>(to, w). \<lparr>c_edge = edge_doc to w, c_vertex = vertex_doc to\<rparr>) es)"
| "weighted_graph g _ = []"

definition weighted_config :: "(string \<times> (string \<times> rat) list) list \<Rightarrow> recording path_config" where
  "weighted_config g =
     \<lparr>cfg_datasource = \<lparr>getVertexId = (\<lambda>v. attribute v ''_id''), getPeerVertex = (\<lambda>e v. Inr JNull), getInVertex = (\<lambda>e. Inr JNull),
        getOutVertex = (\<lambda>e. Inr JNull), getEdgeId = (\<lambda>e. e), getEdgeFrom = (\<lambda>e. JNull), getEdgeTo = (\<lambda>e. JNull),
        getLabel = (\<lambda>e. JNull), getAllEdges = (\<lambda>v. []), getInEdges = (\<lambda>v. []), getOutEdges = (\<lambda>v. [])\<rparr>,
      cfg_sort = None, cfg_buildVertices = True, cfg_expandFilter = None, cfg_labels = [],
      cfg_minDepth = Fin 0, cfg_maxDepth = Fin 0, cfg_matchingAttributes = [], cfg_maxIterations = 50,
      cfg_vertexUniqueness = UNIQUE_GLOBAL, cfg_edgeUniqueness = UNIQUE_NONE, cfg_strategy = DIJKSTRA_SEARCH,
      cfg_order = PRE_ORDER, cfg_itemOrder = FORWARD, cfg_filter = visitAllFilter,
      cfg_visitor = recordingVisitor, cfg_expander = (\<lambda>v path. Inr (weighted_graph g v)), cfg_killed = (\<lambda>n. False),
      cfg_distance = None, cfg_weight = Some ''weight'', cfg_defaultWeight = None\<rparr>"

definition stale_heap_graph :: "(string \<times> (string \<times> rat) list) list" where
  "stale_heap_graph = [(''S'', [(''R'', 3), (''X'', 5), (''Y'', 6), (''C'', 1)]), (''C'', [(''X'', 1)]), (''X'', [(''R'', 1 / 2)])]"

subsection \<open>Paths in the nodes\<close>

text \<open>
  An edge joins two vertices if the expander returned it with a vertex of the same id: \<open>makeNode\<close> keeps
  the vertex it saw first. The cost of a path adds up the weights in its order.
\<close>

definition joins_id :: "'r path_config \<Rightarrow> jsval \<Rightarrow> jsval \<Rightarrow> jsval \<Rightarrow> bool" where
  "joins_id cfg v e w \<longleftrightarrow> (\<exists>w' path cs. cfg_expander cfg v path = Inr cs \<and> \<lparr>c_edge = e, c_vertex = w'\<rparr> \<in> set cs \<and> node_id w' = node_id w)"

fun path_cost :: "'r path_config \<Rightarrow> jsnum \<Rightarrow> jsval list \<Rightarrow> jsval list \<Rightarrow> jsnum option" where
  "path_cost cfg d (v # w # vs) (e # es) = (case edge_weight cfg v w e of
      Inl _ \<Rightarrow> None | Inr x \<Rightarrow> path_cost cfg (num_add d x) (w # vs) es)"
| "path_cost cfg d _ _ = Some d"

lemma path_cost_append:
  "length vs = Suc (length es) \<Longrightarrow> path_cost cfg d (vs @ [w]) (es @ [e])
    = (case path_cost cfg d vs es of None \<Rightarrow> None
       | Some c \<Rightarrow> (case edge_weight cfg (last vs) w e of Inl _ \<Rightarrow> None | Inr x \<Rightarrow> Some (num_add c x)))"
proof (induction es arbitrary: d vs)
  case Nil
  then obtain v where "vs = [v]" by (cases vs) auto
  then show ?case by (simp split: sum.split)
next
  case (Cons e' es)
  then obtain v u vs' where vs: "vs = v # u # vs'" by (cases vs; cases "tl vs") auto
  show ?case using Cons.prems Cons.IH [of "u # vs'"] unfolding vs by (simp split: sum.split option.split)
qed

lemma chain_length: "chain J vs es \<Longrightarrow> length vs = Suc (length es)"
  by (induction J vs es rule: chain.induct) auto

definition good_route :: "'r path_config \<Rightarrow> jsval \<Rightarrow> dk_node \<Rightarrow> tpath \<Rightarrow> bool" where
  "good_route cfg start n path \<longleftrightarrow> chain (joins_id cfg) (p_vertices path) (p_edges path)
     \<and> hd (p_vertices path) = start \<and> last (p_vertices path) = n_vertex n
     \<and> path_cost cfg (Fin 0) (p_vertices path) (p_edges path) = Some (dk_dist n)"

definition linked_node :: "'r path_config \<Rightarrow> dk_nodes \<Rightarrow> string \<Rightarrow> jsval \<Rightarrow> dk_node \<Rightarrow> bool" where
  "linked_node cfg nodes p e n \<longleftrightarrow> (\<exists>m w. map_of nodes p = Some m \<and> joins_id cfg (n_vertex m) e (n_vertex n)
     \<and> edge_weight cfg (n_vertex m) (n_vertex n) e = Inr w \<and> dk_dist n = num_add (dk_dist m) w)"

lemma good_route_extend:
  assumes "good_route cfg start m path" "map_of nodes p = Some m" "linked_node cfg nodes p e n"
  shows "good_route cfg start n (extend_path path (Some e) (n_vertex n))"
proof -
  obtain w where w: "joins_id cfg (n_vertex m) e (n_vertex n)" "edge_weight cfg (n_vertex m) (n_vertex n) e = Inr w"
    "dk_dist n = num_add (dk_dist m) w"
    using assms(2,3) by (auto simp: linked_node_def)
  have c: "chain (joins_id cfg) (p_vertices path) (p_edges path)" "last (p_vertices path) = n_vertex m"
    "hd (p_vertices path) = start" "path_cost cfg (Fin 0) (p_vertices path) (p_edges path) = Some (dk_dist m)"
    using assms(1) by (simp_all add: good_route_def)
  then have "p_vertices path \<noteq> []" using chain_length by fastforce
  then show ?thesis using c w chain_append [OF c(1)]
    by (simp add: good_route_def extend_path_def path_cost_append [OF chain_length [OF c(1)]])
qed

text \<open>
  \<open>order\<close> lists the visited nodes in the order of their visits. Every parent is visited, before its child
  if that is visited too, and the edge to it explains the distance.
\<close>

definition dk_ok :: "'r path_config \<Rightarrow> jsval \<Rightarrow> string \<Rightarrow> string list \<Rightarrow> dk_nodes \<Rightarrow> string list \<Rightarrow> bool" where
  "dk_ok cfg start sid order nodes heap \<longleftrightarrow>
     distinct order
     \<and> (\<forall>i. i \<in> set order \<longleftrightarrow> (\<exists>n. map_of nodes i = Some n \<and> n_visited n))
     \<and> (order \<noteq> [] \<longrightarrow> sid \<in> set order)
     \<and> (\<exists>n. map_of nodes sid = Some n \<and> n_vertex n = start \<and> n_parent n = None \<and> dk_dist n = Fin 0)
     \<and> (\<forall>i n p e. map_of nodes i = Some n \<and> n_parent n = Some (p, e) \<longrightarrow> p \<in> set order \<and> linked_node cfg nodes p e n
          \<and> (\<forall>us vs. order = us @ i # vs \<longrightarrow> p \<in> set us))
     \<and> (\<forall>i \<in> set heap \<union> set order. i = sid \<or> (\<exists>n. map_of nodes i = Some n \<and> n_parent n \<noteq> None))
     \<and> (\<forall>i n. map_of nodes i = Some n \<longrightarrow> node_id (n_vertex n) = Inr i)"

lemma dk_okD:
  assumes "dk_ok cfg start sid order nodes heap"
  shows "distinct order" "i \<in> set order \<longleftrightarrow> (\<exists>n. map_of nodes i = Some n \<and> n_visited n)"
    "order \<noteq> [] \<Longrightarrow> sid \<in> set order"
    "\<exists>n. map_of nodes sid = Some n \<and> n_vertex n = start \<and> n_parent n = None \<and> dk_dist n = Fin 0"
    "map_of nodes i = Some n \<Longrightarrow> n_parent n = Some (p, e) \<Longrightarrow> p \<in> set order \<and> linked_node cfg nodes p e n
       \<and> (\<forall>us vs. order = us @ i # vs \<longrightarrow> p \<in> set us)"
    "i \<in> set heap \<union> set order \<Longrightarrow> i = sid \<or> (\<exists>n. map_of nodes i = Some n \<and> n_parent n \<noteq> None)"
    "map_of nodes i = Some n \<Longrightarrow> node_id (n_vertex n) = Inr i"
  using assms unfolding dk_ok_def by blast+

lemma dk_okI:
  assumes "distinct order" "\<And>i. i \<in> set order \<longleftrightarrow> (\<exists>n. map_of nodes i = Some n \<and> n_visited n)"
    "order \<noteq> [] \<Longrightarrow> sid \<in> set order"
    "\<exists>n. map_of nodes sid = Some n \<and> n_vertex n = start \<and> n_parent n = None \<and> dk_dist n = Fin 0"
    "\<And>i n p e. map_of nodes i = Some n \<Longrightarrow> n_parent n = Some (p, e) \<Longrightarrow> p \<in> set order \<and> linked_node cfg nodes p e n
       \<and> (\<forall>us vs. order = us @ i # vs \<longrightarrow> p \<in> set us)"
    "\<And>i. i \<in> set heap \<union> set order \<Longrightarrow> i = sid \<or> (\<exists>n. map_of nodes i = Some n \<and> n_parent n \<noteq> None)"
    "\<And>i n. map_of nodes i = Some n \<Longrightarrow> node_id (n_vertex n) = Inr i"
  shows "dk_ok cfg start sid order nodes heap"
  unfolding dk_ok_def by (intro conjI; use assms in blast)

lemma chain_of_path:
  assumes ok: "dk_ok cfg start sid order nodes heap" and "order = us @ i # vs" "length us < m" "map_of nodes i = Some n"
  shows "good_route cfg start n (build_path m nodes i)"
  using assms(2-)
proof (induction "length us" arbitrary: us i vs m n rule: less_induct)
  case less
  obtain k where m: "m = Suc k" using less.prems(2) by (cases m) auto
  have i: "i = sid \<or> n_parent n \<noteq> None" using dk_okD(6) [OF ok, of i] less.prems by auto
  show ?case
  proof (cases "n_parent n")
    case None
    then show ?thesis using i dk_okD(4) [OF ok] less.prems(3)
      by (auto simp: m node_at_def good_route_def)
  next
    case (Some pe)
    then obtain p e where pe: "n_parent n = Some (p, e)" by (cases pe) auto
    have p: "p \<in> set order" "linked_node cfg nodes p e n" "p \<in> set us"
      using dk_okD(5) [OF ok less.prems(3) pe] less.prems(1) by auto
    then obtain us1 us2 where us: "us = us1 @ p # us2" by (meson split_list)
    obtain q where q: "map_of nodes p = Some q" using dk_okD(2) [OF ok, of p] p(1) by auto
    have "good_route cfg start q (build_path k nodes p)"
      by (rule less.hyps [of us1 p "us2 @ i # vs"]) (use us less.prems m q in auto)
    then show ?thesis using good_route_extend [OF _ q p(2)] less.prems(3) pe by (simp add: m node_at_def)
  qed
qed

lemma length_order:
  assumes ok: "dk_ok cfg start sid order nodes heap" and "map_of nodes i = Some n" "i \<notin> set order"
  shows "length order < length nodes"
proof -
  have "set (i # order) \<subseteq> fst ` set nodes"
    using dk_okD(2) [OF ok] assms(2) by (auto simp flip: dom_map_of_conv_image_fst)
  then have "card (set (i # order)) \<le> length nodes"
    by (meson card_image_le card_length card_mono finite_imageI finite_set le_trans)
  then show ?thesis using assms(3) dk_okD(1) [OF ok] by (simp add: distinct_card)
qed

lemma length_order_visited:
  assumes ok: "dk_ok cfg start sid order nodes heap"
  shows "length order \<le> length nodes"
proof -
  have "set order \<subseteq> fst ` set nodes"
    using dk_okD(2) [OF ok] by (auto simp flip: dom_map_of_conv_image_fst)
  then have "card (set order) \<le> length nodes"
    by (meson card_image_le card_length card_mono finite_imageI finite_set le_trans)
  then show ?thesis using dk_okD(1) [OF ok] by (simp add: distinct_card)
qed

lemma buildPath_route:
  assumes ok: "dk_ok cfg start sid order nodes heap" and "i \<in> set heap \<union> set order"
  shows "good_route cfg start (node_at nodes i) (buildPath nodes i)"
proof -
  obtain n where n: "map_of nodes i = Some n" using dk_okD(4,6) [OF ok] assms(2) by blast
  show ?thesis
  proof (cases "i \<in> set order")
    case True
    then obtain us vs where us: "order = us @ i # vs" by (meson split_list)
    then have "length us < length nodes" using length_order_visited [OF ok] by simp
    then show ?thesis using chain_of_path [OF ok us _ n] by (simp add: buildPath_def node_at_def n)
  next
    case False
    then obtain k where k: "length nodes = Suc k" "length order \<le> k"
      using length_order [OF ok n] by (cases "length nodes") auto
    have i: "i = sid \<or> n_parent n \<noteq> None" using dk_okD(6) [OF ok, of i] assms(2) n by auto
    show ?thesis
    proof (cases "n_parent n")
      case None
      then show ?thesis using i dk_okD(4) [OF ok] n by (auto simp: buildPath_def k node_at_def good_route_def)
    next
      case (Some pe)
      then obtain p e where pe: "n_parent n = Some (p, e)" by (cases pe) auto
      have p: "p \<in> set order" "linked_node cfg nodes p e n" using dk_okD(5) [OF ok n pe] by auto
      then obtain us vs where us: "order = us @ p # vs" by (meson split_list)
      obtain q where q: "map_of nodes p = Some q" using dk_okD(2) [OF ok, of p] p(1) by auto
      have "good_route cfg start q (build_path k nodes p)"
        by (rule chain_of_path [OF ok us _ q]) (use k us in simp)
      then show ?thesis using good_route_extend [OF _ q p(2)] pe n by (simp add: buildPath_def k node_at_def)
    qed
  qed
qed

subsection \<open>The nodes of a search\<close>

lemma dk_ok_heap:
  assumes ok: "dk_ok cfg start sid order nodes heap" and sub: "set heap' \<subseteq> set heap"
  shows "dk_ok cfg start sid order nodes heap'"
proof (rule dk_okI)
  show "i = sid \<or> (\<exists>n. map_of nodes i = Some n \<and> n_parent n \<noteq> None)" if "i \<in> set heap' \<union> set order" for i
    using dk_okD(6) [OF ok, of i] that sub by blast
qed (fact dk_okD [OF ok])+

text \<open>Changes that leave the members alone that the condition is about.\<close>

lemma linked_node_cong:
  assumes "linked_node cfg nodes p e n" "n_vertex n' = n_vertex n" "dk_dist n' = dk_dist n"
    "\<And>m. map_of nodes p = Some m \<Longrightarrow> \<exists>m'. map_of nodes' p = Some m' \<and> n_vertex m' = n_vertex m \<and> dk_dist m' = dk_dist m"
  shows "linked_node cfg nodes' p e n'"
proof -
  obtain m w where m: "map_of nodes p = Some m" "joins_id cfg (n_vertex m) e (n_vertex n)"
    "edge_weight cfg (n_vertex m) (n_vertex n) e = Inr w" "dk_dist n = num_add (dk_dist m) w"
    using assms(1) unfolding linked_node_def by blast
  then show ?thesis using assms(2,3) assms(4) [OF m(1)] unfolding linked_node_def by auto
qed

lemma dk_ok_visit:
  assumes ok: "dk_ok cfg start sid order nodes heap" and i: "i \<in> set heap" "map_of nodes i = Some n" "\<not> n_visited n"
  shows "dk_ok cfg start sid (order @ [i]) (AList.update i (n\<lparr>n_visited := True\<rparr>) nodes) heap"
proof -
  let ?N = "AList.update i (n\<lparr>n_visited := True\<rparr>) nodes"
  have new: "i \<notin> set order" using dk_okD(2) [OF ok, of i] i by simp
  have look: "map_of ?N j = (if j = i then Some (n\<lparr>n_visited := True\<rparr>) else map_of nodes j)" for j by (simp add: update_conv')
  have sid: "sid \<in> set (order @ [i])"
    using dk_okD(3) [OF ok] dk_okD(6) [OF ok, of i] dk_okD(5) [OF ok i(2)] i by (cases "order = []") auto
  have "p \<in> set (order @ [i]) \<and> linked_node cfg ?N p e m \<and> (\<forall>us vs. order @ [i] = us @ j # vs \<longrightarrow> p \<in> set us)"
    if j: "map_of ?N j = Some m" "n_parent m = Some (p, e)" for j m p e
  proof -
    obtain m' where m': "map_of nodes j = Some m'" "n_parent m' = Some (p, e)" "n_vertex m' = n_vertex m" "dk_dist m' = dk_dist m"
      using j i(2) by (auto simp: look split: if_splits)
    note old = dk_okD(5) [OF ok m'(1,2)]
    have "linked_node cfg ?N p e m"
      by (rule linked_node_cong [of cfg nodes p e m']) (use old m' i(2) in \<open>auto simp: look\<close>)
    moreover have "p \<in> set us" if "order @ [i] = us @ j # vs" for us vs
    proof (cases vs rule: rev_cases)
      case Nil
      then show ?thesis using that old by simp
    next
      case (snoc vs' x)
      then have "order = us @ j # vs'" using that by (simp flip: append_assoc append_Cons)
      then show ?thesis using old by blast
    qed
    ultimately show ?thesis using old by auto
  qed
  have "j = sid \<or> (\<exists>m. map_of ?N j = Some m \<and> n_parent m \<noteq> None)" if "j \<in> set heap \<union> set (order @ [i])" for j
    using dk_okD(6) [OF ok, of j] that i by (auto simp: look)
  have "\<exists>m. map_of ?N sid = Some m \<and> n_vertex m = start \<and> n_parent m = None \<and> dk_dist m = Fin 0"
    using dk_okD(4) [OF ok] i(2) by (auto simp: look)
  have "j \<in> set (order @ [i]) \<longleftrightarrow> (\<exists>m. map_of ?N j = Some m \<and> n_visited m)" for j
    using dk_okD(2) [OF ok, of j] by (auto simp: look)
  have "node_id (n_vertex m) = Inr j" if "map_of ?N j = Some m" for j m
    using dk_okD(7) [OF ok] that i(2) by (auto simp: look split: if_splits)
  have "distinct (order @ [i])" using new dk_okD(1) [OF ok] by simp
  show ?thesis by (rule dk_okI; (rule sid | fact))
qed

lemma dk_ok_hide:
  assumes ok: "dk_ok cfg start sid order nodes heap" and i: "map_of nodes i = Some n"
  shows "dk_ok cfg start sid order (AList.update i (n\<lparr>dk_hide := b\<rparr>) nodes) heap"
proof -
  let ?N = "AList.update i (n\<lparr>dk_hide := b\<rparr>) nodes"
  have look: "map_of ?N j = (if j = i then Some (n\<lparr>dk_hide := b\<rparr>) else map_of nodes j)" for j by (simp add: update_conv')
  have back1: "\<exists>m'. map_of nodes j = Some m' \<and> n_parent m' = n_parent m \<and> n_vertex m' = n_vertex m \<and> dk_dist m' = dk_dist m
      \<and> n_visited m' = n_visited m" if "map_of ?N j = Some m" for j m
    using that i by (auto simp: look split: if_splits)
  have fwd: "\<exists>m'. map_of ?N j = Some m' \<and> n_parent m' = n_parent m \<and> n_vertex m' = n_vertex m \<and> dk_dist m' = dk_dist m
      \<and> n_visited m' = n_visited m" if "map_of nodes j = Some m" for j m
    using that i by (auto simp: look)
  have "p \<in> set order \<and> linked_node cfg ?N p e m \<and> (\<forall>us vs. order = us @ j # vs \<longrightarrow> p \<in> set us)"
    if j: "map_of ?N j = Some m" "n_parent m = Some (p, e)" for j m p e
  proof -
    obtain m' where m': "map_of nodes j = Some m'" "n_parent m' = Some (p, e)" "n_vertex m' = n_vertex m" "dk_dist m' = dk_dist m"
      using back1 [OF j(1)] j(2) by auto
    have "linked_node cfg ?N p e m"
      by (rule linked_node_cong [of cfg nodes p e m']) (use dk_okD(5) [OF ok m'(1,2)] m' fwd in \<open>auto, metis\<close>)
    then show ?thesis using dk_okD(5) [OF ok m'(1,2)] by blast
  qed
  have "j = sid \<or> (\<exists>m. map_of ?N j = Some m \<and> n_parent m \<noteq> None)" if "j \<in> set heap \<union> set order" for j
    using dk_okD(6) [OF ok that] i by (auto simp: look)
  have "\<exists>m. map_of ?N sid = Some m \<and> n_vertex m = start \<and> n_parent m = None \<and> dk_dist m = Fin 0"
    using dk_okD(4) [OF ok] i by (auto simp: look)
  have "j \<in> set order \<longleftrightarrow> (\<exists>m. map_of ?N j = Some m \<and> n_visited m)" for j
    using dk_okD(2) [OF ok, of j] i by (auto simp: look)
  have "node_id (n_vertex m) = Inr j" if "map_of ?N j = Some m" for j m
    using dk_okD(7) [OF ok] back1 [OF that] by metis
  show ?thesis by (rule dk_okI; (fact dk_okD(1,3) [OF ok] | fact))
qed

lemma dk_ok_make:
  assumes ok: "dk_ok cfg start sid order nodes heap" and v: "node_id v = Inr i"
  shows "dk_ok cfg start sid order (make_node fresh_node nodes v i) heap"
proof (cases "map_of nodes i")
  case (Some n)
  then show ?thesis using ok by (simp add: make_node_def)
next
  case None
  let ?N = "make_node fresh_node nodes v i"
  have look: "map_of ?N j = (if j = i then Some (fresh_node v) else map_of nodes j)" for j
    using None by (simp add: map_of_make_node)
  have old: "map_of nodes j = Some m \<Longrightarrow> map_of ?N j = Some m" for j m using None by (auto simp: look)
  have "p \<in> set order \<and> linked_node cfg ?N p e m \<and> (\<forall>us vs. order = us @ j # vs \<longrightarrow> p \<in> set us)"
    if j: "map_of ?N j = Some m" "n_parent m = Some (p, e)" for j m p e
  proof -
    have m: "map_of nodes j = Some m" using j by (auto simp: look fresh_node_def split: if_splits)
    then show ?thesis
      using dk_okD(5) [OF ok m j(2)] old by (auto intro: linked_node_cong)
  qed
  have "j = sid \<or> (\<exists>m. map_of ?N j = Some m \<and> n_parent m \<noteq> None)" if "j \<in> set heap \<union> set order" for j
    using dk_okD(6) [OF ok that] old by blast
  have "\<exists>m. map_of ?N sid = Some m \<and> n_vertex m = start \<and> n_parent m = None \<and> dk_dist m = Fin 0"
    using dk_okD(4) [OF ok] old by blast
  have "j \<in> set order \<longleftrightarrow> (\<exists>m. map_of ?N j = Some m \<and> n_visited m)" for j
    using dk_okD(2) [OF ok, of j] None by (auto simp: look fresh_node_def)
  have "node_id (n_vertex m) = Inr j" if "map_of ?N j = Some m" for j m
    using dk_okD(7) [OF ok] that v by (auto simp: look fresh_node_def split: if_splits)
  show ?thesis by (rule dk_okI; (fact dk_okD(1,3) [OF ok] | fact))
qed

lemma dk_ok_improve:
  assumes ok: "dk_ok cfg start sid order nodes heap" and i: "map_of nodes i = Some n" "\<not> n_visited n"
    and cur: "current \<in> set order" and l: "linked_node cfg nodes current e (n\<lparr>dk_dist := d, n_parent := Some (current, e)\<rparr>)"
    and heap: "set heap' = insert i (set heap)"
  shows "dk_ok cfg start sid order (AList.update i (n\<lparr>dk_dist := d, n_parent := Some (current, e)\<rparr>) nodes) heap'"
proof -
  let ?n = "n\<lparr>dk_dist := d, n_parent := Some (current, e)\<rparr>"
  let ?N = "AList.update i ?n nodes"
  have new: "i \<notin> set order" using dk_okD(2) [OF ok, of i] i by simp
  have look: "map_of ?N j = (if j = i then Some ?n else map_of nodes j)" for j by (simp add: update_conv')
  have sid: "sid \<noteq> i" using dk_okD(3) [OF ok] cur new by (metis empty_iff empty_set)
  have visited: "map_of ?N p = map_of nodes p" if "p \<in> set order" for p using that new by (auto simp: look)
  have "p \<in> set order \<and> linked_node cfg ?N p e' m \<and> (\<forall>us vs. order = us @ j # vs \<longrightarrow> p \<in> set us)"
    if j: "map_of ?N j = Some m" "n_parent m = Some (p, e')" for j m p e'
  proof (cases "j = i")
    case True
    then have "m = ?n" "p = current" "e' = e" using j by (auto simp: look)
    then show ?thesis using cur True new linked_node_cong [OF l, of ?n ?N] visited [OF cur] by auto
  next
    case False
    then have m: "map_of nodes j = Some m" using j(1) by (simp add: look)
    note old = dk_okD(5) [OF ok m j(2)]
    have "linked_node cfg ?N p e' m"
      by (rule linked_node_cong [of cfg nodes p e' m]) (use old visited [of p] in auto)
    then show ?thesis using old by blast
  qed
  have "j = sid \<or> (\<exists>m. map_of ?N j = Some m \<and> n_parent m \<noteq> None)" if "j \<in> set heap' \<union> set order" for j
    using dk_okD(6) [OF ok, of j] that heap by (auto simp: look)
  have "\<exists>m. map_of ?N sid = Some m \<and> n_vertex m = start \<and> n_parent m = None \<and> dk_dist m = Fin 0"
    using dk_okD(4) [OF ok] sid by (simp add: look)
  have "j \<in> set order \<longleftrightarrow> (\<exists>m. map_of ?N j = Some m \<and> n_visited m)" for j
    using dk_okD(2) [OF ok, of j] i by (auto simp: look)
  have "node_id (n_vertex m) = Inr j" if "map_of ?N j = Some m" for j m
    using dk_okD(7) [OF ok] that i(1) by (auto simp: look split: if_splits)
  show ?thesis by (rule dk_okI; (fact dk_okD(1,3) [OF ok] | fact))
qed

subsection \<open>What a Dijkstra search visits\<close>

lemma relax_ok:
  assumes "dk_ok cfg start sid order nodes heap" "current \<in> set order" "d = dk_dist (node_at nodes current)"
    "\<And>c. c \<in> set cs \<Longrightarrow> \<exists>path cs'. cfg_expander cfg (n_vertex (node_at nodes current)) path = Inr cs' \<and> c \<in> set cs'"
    "relax cfg current d cs nodes heap = ((nodes', heap'), exc)"
  shows "dk_ok cfg start sid order nodes' heap'"
  using assms
proof (induction cfg current d cs nodes heap rule: relax.induct)
  case (1 cfg current d nodes heap)
  then show ?case by simp
next
  case (2 cfg current d c cs nodes heap)
  show ?case
  proof (cases "node_id (c_vertex c)")
    case (Inl e)
    then show ?thesis using "2.prems" by simp
  next
    case (Inr i)
    let ?N = "make_node fresh_node nodes (c_vertex c) i"
    have ok: "dk_ok cfg start sid order ?N heap" by (rule dk_ok_make [OF "2.prems"(1) Inr])
    obtain q where q: "map_of nodes current = Some q" using dk_okD(2) [OF "2.prems"(1), of current] "2.prems"(2) by auto
    then have same: "map_of ?N current = Some q" "node_at ?N current = node_at nodes current" "node_at nodes current = q"
      by (auto simp: map_of_make_node node_at_def)
    obtain n where n: "map_of ?N i = Some n" "node_at ?N i = n"
      by (cases "map_of nodes i") (auto simp: map_of_make_node node_at_def)
    note IH = "2.IH" [OF Inr refl n(2) [symmetric]]
    show ?thesis
    proof (cases "n_visited n")
      case True
      then show ?thesis using IH(1) ok "2.prems" Inr n(2) same by (simp add: Let_def)
    next
      case False
      note unvisited = this
      show ?thesis
      proof (cases "edge_weight cfg (n_vertex (node_at ?N current)) (n_vertex n) (c_edge c)")
        case (Inl e)
        then show ?thesis using ok "2.prems" Inr n(2) False by (simp add: Let_def)
      next
        case (Inr w)
        note weight = this
        let ?alt = "num_add d w"
        show ?thesis
        proof (cases "num_lt ?alt (dk_dist n)")
          case False
          then show ?thesis using IH(3) [OF unvisited weight refl False] ok "2.prems" \<open>node_id (c_vertex c) = Inr i\<close> n(2) same unvisited weight
            by (simp add: Let_def)
        next
          case True
          let ?n = "n\<lparr>dk_dist := ?alt, n_parent := Some (current, c_edge c)\<rparr>"
          let ?M = "AList.update i ?n ?N" and ?H = "push_id (dk_score (AList.update i ?n ?N)) i heap"
          obtain path cs' where "cfg_expander cfg (n_vertex q) path = Inr cs'" "c \<in> set cs'"
            using "2.prems"(4) [of c] same(3) by auto
          moreover have "node_id (n_vertex n) = node_id (c_vertex c)"
            using dk_okD(7) [OF ok n(1)] \<open>node_id (c_vertex c) = Inr i\<close> by simp
          ultimately have "joins_id cfg (n_vertex q) (c_edge c) (n_vertex n)"
            unfolding joins_id_def by (intro exI [of _ "c_vertex c"] exI [of _ path] exI [of _ cs']) (cases c, simp)
          then have "linked_node cfg ?N current (c_edge c) ?n"
            using same weight "2.prems"(3) by (auto simp: linked_node_def)
          then have ok': "dk_ok cfg start sid order ?M ?H"
            by (rule dk_ok_improve [OF ok n(1) unvisited "2.prems"(2)]) (simp add: set_push_id)
          have "i \<noteq> current" using unvisited n(1) dk_okD(2) [OF ok, of current] "2.prems"(2) by auto
          then have "node_at ?M current = node_at nodes current" using same(2) by (simp add: node_at_update)
          then show ?thesis using IH(2) [OF unvisited weight refl True refl ok' "2.prems"(2)] "2.prems"(3,4,5)
              \<open>node_id (c_vertex c) = Inr i\<close> n(2) unvisited weight True
            by (simp add: Let_def)
        qed
      qed
    qed
  qed
qed

definition dk_good_visit :: "'r path_config \<Rightarrow> jsval \<Rightarrow> dk_nodes \<Rightarrow> jsval \<times> tpath \<Rightarrow> bool" where
  "dk_good_visit cfg start nodes = (\<lambda>(v, path). chain (joins_id cfg) (p_vertices path) (p_edges path)
     \<and> hd (p_vertices path) = start \<and> last (p_vertices path) = v
     \<and> (\<exists>i n. map_of nodes i = Some n \<and> n_vertex n = v \<and> node_id v = Inr i
          \<and> path_cost cfg (Fin 0) (p_vertices path) (p_edges path) = Some (dk_dist n)))"

lemma visit_nodes_recording:
  "visit_nodes (\<lambda>r v p. recordingVisitor r v p []) r xs = (r @ xs, None)"
  by (induction xs arbitrary: r) (auto simp: recordingVisitor_def)

lemma vertexList_nodes:
  assumes ok: "dk_ok cfg start sid order nodes heap"
  shows "i \<in> set heap \<union> set order \<Longrightarrow> set (vertexList m nodes i) \<subseteq> insert i (set order)"
proof (induction m arbitrary: i)
  case (Suc m)
  then obtain n where n: "map_of nodes i = Some n" using dk_okD(4,6) [OF ok] by blast
  show ?case
  proof (cases "n_parent n")
    case (Some pe)
    then obtain p e where pe: "n_parent n = Some (p, e)" by (cases pe) auto
    then have "p \<in> set order" using dk_okD(5) [OF ok n pe] by blast
    then show ?thesis using Suc.IH [of p] n pe by (auto simp: node_at_def)
  qed (simp add: node_at_def n)
qed simp

lemma dk_visits_good:
  assumes ok: "dk_ok cfg start sid order nodes heap" and "i \<in> set heap"
  shows "list_all (dk_good_visit cfg start nodes) (dk_visits nodes i)"
proof -
  have "dk_good_visit cfg start nodes (n_vertex (node_at nodes j), buildPath nodes j)" if "j \<in> set (vertexList (length nodes) nodes i)" for j
  proof -
    have j: "j \<in> set heap \<union> set order" using vertexList_nodes [OF ok, of i "length nodes"] that assms(2) by auto
    then obtain n where n: "map_of nodes j = Some n" using dk_okD(4,6) [OF ok] by blast
    then show ?thesis using buildPath_route [OF ok j] dk_okD(7) [OF ok n]
      by (auto simp: good_route_def dk_good_visit_def node_at_def)
  qed
  then show ?thesis by (auto simp: dk_visits_def list_all_iff)
qed

definition dk_inv :: "recording path_config \<Rightarrow> jsval \<Rightarrow> string \<Rightarrow> recording dk_state \<Rightarrow> bool" where
  "dk_inv cfg start sid s \<longleftrightarrow> (\<exists>order. dk_ok cfg start sid order (dk_nodes s) (dk_heap s))
     \<and> list_all (dk_good_visit cfg start (dk_nodes s)) (dk_result s) \<and> (dk_result s \<noteq> [] \<longrightarrow> dk_finished s)"

lemma dk_expand_ok:
  assumes ok: "dk_ok cfg start sid order (dk_nodes s) heap" and i: "i \<in> set heap" and heap: "set (dk_heap s) \<subseteq> set heap"
    and "\<not> n_visited (node_at (dk_nodes s) i)"
  shows "(\<exists>order'. dk_ok cfg start sid order' (dk_nodes (fst (dk_expand cfg i s))) (dk_heap (fst (dk_expand cfg i s))))
    \<and> dk_result (fst (dk_expand cfg i s)) = dk_result s \<and> dk_finished (fst (dk_expand cfg i s)) = dk_finished s"
proof -
  obtain n where n: "map_of (dk_nodes s) i = Some n" "\<not> n_visited n" "node_at (dk_nodes s) i = n"
    using dk_okD(4,6) [OF ok] i assms(4) by (fastforce simp: node_at_def)
  let ?N = "AList.update i (n\<lparr>n_visited := True\<rparr>) (dk_nodes s)"
  have ok1: "dk_ok cfg start sid (order @ [i]) ?N (dk_heap s)"
    by (rule dk_ok_heap [OF dk_ok_visit [OF ok i n(1,2)] heap])
  let ?cur = "node_at ?N i"
  have cur: "?cur = n\<lparr>n_visited := True\<rparr>" "map_of ?N i = Some ?cur" by (simp_all add: node_at_update update_conv')
  show ?thesis
  proof (cases "cfg_filter cfg (n_vertex ?cur) (buildPath ?N i)")
    case (Inl e)
    then show ?thesis using ok1 n(3) cur(1) by (auto simp: dk_expand_def Let_def)
  next
    case (Inr args)
    note filter = this
    show ?thesis
    proof (cases "parseFilterResult args")
      case (Inl e)
      then show ?thesis using ok1 n(3) cur(1) filter by (auto simp: dk_expand_def Let_def)
    next
      case (Inr fr)
      let ?M = "if fr_visit fr then ?N else AList.update i (?cur\<lparr>dk_hide := True\<rparr>) ?N"
      have ok2: "dk_ok cfg start sid (order @ [i]) ?M (dk_heap s)"
        using ok1 dk_ok_hide [OF ok1 cur(2)] by simp
      have at: "dk_dist (node_at ?M i) = dk_dist ?cur" "n_vertex (node_at ?M i) = n_vertex ?cur"
        by (simp_all add: node_at_update)
      show ?thesis
      proof (cases "\<not> fr_expand fr")
        case True
        then show ?thesis using ok2 n(3) cur(1) filter Inr by (auto simp: dk_expand_def Let_def)
      next
        case False
        show ?thesis
        proof (cases "cfg_expander cfg (n_vertex ?cur) (buildPath ?N i)")
          case (Inl e)
          then show ?thesis using ok2 n(3) cur(1) filter \<open>parseFilterResult args = Inr fr\<close> False
            by (auto simp: dk_expand_def Let_def)
        next
          case (Inr cs)
          obtain nodes' heap' exc where r: "relax cfg i (dk_dist ?cur) cs ?M (dk_heap s) = ((nodes', heap'), exc)"
            by (metis prod.collapse)
          have "dk_ok cfg start sid (order @ [i]) nodes' heap'"
            by (rule relax_ok [OF ok2 _ _ _ r]) (use Inr at in auto)
          moreover have "fst (dk_expand cfg i s) = s\<lparr>dk_nodes := nodes', dk_heap := heap'\<rparr>"
            using r n(3) cur(1) filter \<open>parseFilterResult args = Inr fr\<close> False Inr
            by (cases "fr_visit fr") (simp_all add: dk_expand_def Let_def)
          ultimately show ?thesis by auto
        qed
      qed
    qed
  qed
qed

lemma dk_inv_step:
  assumes rec: "cfg_visitor cfg = recordingVisitor" and inv: "dk_inv cfg start sid s" and alive: "dk_alive s"
  shows "dk_inv cfg start sid (fst (dk_step cfg endVertex s))"
proof -
  obtain order where ok: "dk_ok cfg start sid order (dk_nodes s) (dk_heap s)" and res: "dk_result s = []"
    using inv alive by (auto simp: dk_inv_def dk_alive_def)
  obtain i heap where pop: "pop_id (dk_score (dk_nodes s)) (dk_heap s) = (i, heap)" by fastforce
  have set: "set (dk_heap s) = insert i (set heap)" using set_pop_id [OF _ pop] alive by (simp add: dk_alive_def)
  let ?s = "s\<lparr>dk_heap := heap\<rparr>" and ?cur = "node_at (dk_nodes s) i"
  have ok': "dk_ok cfg start sid order (dk_nodes s) heap" by (rule dk_ok_heap [OF ok]) (use set in auto)
  have step: "dk_step cfg endVertex s =
    (if js_eq (attribute (n_vertex ?cur) ''_id'') (attribute endVertex ''_id'')
     then (?s\<lparr>dk_result := dk_result s @ dk_visits (dk_nodes s) i, dk_finished := True\<rparr>, None)
     else if n_visited ?cur then (?s, None)
     else if dk_dist ?cur = PInf then (?s\<lparr>dk_finished := True\<rparr>, None) else dk_expand cfg i ?s)"
    by (simp add: dk_step_def dk_continue_def pop rec visit_nodes_recording)
  have "list_all (dk_good_visit cfg start (dk_nodes s)) (dk_visits (dk_nodes s) i)"
    using dk_visits_good [OF ok] set by simp
  then show ?thesis
    using ok' res set dk_expand_ok [of cfg start sid order ?s "dk_heap s" i] ok subset_insertI [of "set heap" i]
    by (auto simp: step dk_inv_def)
qed

text \<open>The nodes at the end of a search, also of one that an exception ends.\<close>

definition dk_final :: "recording path_config \<Rightarrow> jsval \<Rightarrow> jsval \<Rightarrow> string \<Rightarrow> dk_nodes" where
  "dk_final cfg start end_vertex sid = dk_nodes (fst (search_loop (cfg_maxIterations cfg) (cfg_killed cfg) dk_alive
     (dk_step cfg end_vertex) 0 (dk_start [] start sid)))"

text \<open>
  C20: Every path the Dijkstra search hands to the visitor, also when an exception ends it, is a path of the
  graph from the start vertex to the visited one, and the weights of its edges add up to the distance that
  the search has stored in the node of this vertex.
\<close>

theorem dijkstra_visits_paths:
  assumes "cfg_visitor cfg = recordingVisitor" "(v, path) \<in> set (fst (dijkstraSearch cfg [] start end_vertex))"
  shows "chain (joins_id cfg) (p_vertices path) (p_edges path) \<and> hd (p_vertices path) = start \<and> last (p_vertices path) = v
    \<and> (\<exists>sid i n. node_id start = Inr sid \<and> node_id v = Inr i \<and> map_of (dk_final cfg start end_vertex sid) i = Some n
         \<and> n_vertex n = v \<and> path_cost cfg (Fin 0) (p_vertices path) (p_edges path) = Some (dk_dist n))"
proof -
  obtain sid where sid: "node_id start = Inr sid"
    using assms(2) by (cases "node_id start") (auto simp: dijkstraSearch_def)
  have "dk_ok cfg start sid [] [(sid, (fresh_node start)\<lparr>dk_dist := Fin 0\<rparr>)] (dk_heap (dk_start [] start sid))"
    using sid by (auto simp: dk_ok_def fresh_node_def dk_start_def set_push_id Let_def)
  then have "dk_inv cfg start sid (dk_start [] start sid)"
    by (auto simp: dk_inv_def dk_start_def Let_def)
  then have "dk_inv cfg start sid (fst (search_loop (cfg_maxIterations cfg) (cfg_killed cfg) dk_alive (dk_step cfg end_vertex) 0 (dk_start [] start sid)))"
    by (rule search_loop_invariant [rotated]) (rule dk_inv_step [OF assms(1)])
  then have "dk_good_visit cfg start (dk_final cfg start end_vertex sid) (v, path)" using assms(2) sid
    by (auto simp: dijkstraSearch_def dk_inv_def list_all_iff dk_final_def split: prod.splits)
  then show ?thesis using sid by (auto simp: dk_good_visit_def)
qed

theorem dijkstra_visits_paths_witness:
  "chain (joins_id (weighted_config [(''S'', [(''R'', 3)])])) [vertex_doc ''S'', vertex_doc ''R''] [edge_doc ''R'' 3]"
proof -
  have "(vertex_doc ''R'', \<lparr>p_edges = [edge_doc ''R'' 3], p_vertices = [vertex_doc ''S'', vertex_doc ''R'']\<rparr>)
      \<in> set (fst (dijkstraSearch (weighted_config [(''S'', [(''R'', 3)])]) [] (vertex_doc ''S'') (vertex_doc ''R'')))"
    by code_simp
  from dijkstra_visits_paths [OF _ this, THEN conjunct1] show ?thesis by (simp add: weighted_config_def)
qed

subsection \<open>A stale heap\<close>

lemma list_update_Cons': "(x # xs)[n := v] = (if n = 0 then v # xs else x # xs[n - 1 := v])"
  by (cases n) auto

lemma weighted_config_simps:
  "cfg_killed (weighted_config g) n = False" "cfg_maxIterations (weighted_config g) = 50"
  "cfg_filter (weighted_config g) v p = Inr (JStr [])" "cfg_visitor (weighted_config g) = recordingVisitor"
  "cfg_expander (weighted_config g) v p = Inr (weighted_graph g v)"
  "cfg_distance (weighted_config g) = None" "cfg_weight (weighted_config g) = Some ''weight''"
  by (simp_all add: weighted_config_def visitAllFilter_def)

lemma parse_visit_all: "parseFilterResult (JStr []) = Inr \<lparr>fr_visit = True, fr_expand = True\<rparr>"
  by (simp add: parseFilterResult_def EXCLUDE_def PRUNE_def)

lemma vertex_doc_simps: "attribute (vertex_doc i) ''_id'' = JStr i" "node_id (vertex_doc i) = Inr i"
  "weighted_graph g (vertex_doc i) = (case map_of g i of None \<Rightarrow> [] | Some es \<Rightarrow> map (\<lambda>(to, w). \<lparr>c_edge = edge_doc to w, c_vertex = vertex_doc to\<rparr>) es)"
  by (simp_all add: attribute_def vertex_doc_def node_id_def obj_get_def)

lemma edge_doc_weight: "edge_weight (weighted_config g) v w (edge_doc i x) = Inr (Fin x)"
  by (simp add: edge_weight_def attribute_def edge_doc_def obj_get_def weighted_config_simps)

lemma round_5_2: "round_double (5 / 2) = Fin (5 / 2)" by code_simp

text \<open>What evaluates a search on an example graph.\<close>

lemmas run_simps = dijkstraSearch_def dk_start_def search_loop.simps dk_alive_def dk_step_def dk_continue_def dk_expand_def
     pop_id_def push_id_def heap_push_def heap_pop_def sinkDown_def sink_loop.simps bubbleUp_def bubble_loop.simps swap_child_def parentN_def Let_def
     node_at_def dk_score_def fresh_node_def parse_visit_all make_node_def visit_nodes_recording
     dk_visits_def buildPath_def extend_path_def round_double_numeral round_5_2 list_update_Cons' nth_Cons' weighted_config_simps vertex_doc_simps edge_doc_weight

text \<open>
  C21: The Dijkstra search does not always find a shortest path. A shorter distance is written to a node that is
  in the heap already; the heap is then out of order, and pushing the node once more stops at its own
  old entry. Here the way over \<open>C\<close> and \<open>X\<close> costs 5/2, but the search returns the edge of weight 3.
\<close>

theorem dijkstra_not_shortest:
  "\<exists>path vs es. dijkstraSearch (weighted_config stale_heap_graph) [] (vertex_doc ''S'') (vertex_doc ''R'')
       = ([(vertex_doc ''S'', \<lparr>p_edges = [], p_vertices = [vertex_doc ''S'']\<rparr>), (vertex_doc ''R'', path)], None)
     \<and> path_cost (weighted_config stale_heap_graph) (Fin 0) (p_vertices path) (p_edges path) = Some (Fin 3)
     \<and> chain (joins_id (weighted_config stale_heap_graph)) vs es \<and> hd vs = vertex_doc ''S'' \<and> last vs = vertex_doc ''R''
     \<and> path_cost (weighted_config stale_heap_graph) (Fin 0) vs es = Some (Fin (5 / 2))"
proof (intro exI conjI)
  let ?cfg = "weighted_config stale_heap_graph" and ?p = "\<lparr>p_edges = [edge_doc ''R'' 3], p_vertices = [vertex_doc ''S'', vertex_doc ''R'']\<rparr>"
  let ?vs = "map vertex_doc [''S'', ''C'', ''X'', ''R'']" and ?es = "[edge_doc ''C'' 1, edge_doc ''X'' 1, edge_doc ''R'' (1 / 2)]"
  show "dijkstraSearch ?cfg [] (vertex_doc ''S'') (vertex_doc ''R'')
      = ([(vertex_doc ''S'', \<lparr>p_edges = [], p_vertices = [vertex_doc ''S'']\<rparr>), (vertex_doc ''R'', ?p)], None)"
    by (simp add: run_simps stale_heap_graph_def)
  show "path_cost ?cfg (Fin 0) (p_vertices ?p) (p_edges ?p) = Some (Fin 3)" by code_simp
  show "path_cost ?cfg (Fin 0) ?vs ?es = Some (Fin (5 / 2))" by code_simp
  have "joins_id ?cfg (vertex_doc v) (edge_doc w x) (vertex_doc w)" if "(w, x) \<in> set (the (map_of stale_heap_graph v))" "v \<in> {''S'', ''C'', ''X''}" for v w x
    using that unfolding joins_id_def
    by (intro exI [of _ "vertex_doc w"]) (auto simp: weighted_config_def vertex_doc_def attribute_def stale_heap_graph_def obj_get_def,
        simp add: edge_doc_def)
  then show "chain (joins_id ?cfg) ?vs ?es" by (simp add: stale_heap_graph_def)
qed simp_all

end
