(* ===== verification/Traversal_Paths.thy ===== *)
theory Traversal_Paths
  imports Traversal_Dijkstra
begin

text \<open>
  The strategies \<open>dijkstraSearchMulti\<close>, with a set of end vertices, and \<open>astarSearch\<close> of
  \<open>js/common/modules/org/arangodb/graph/traversal.js\<close>.
\<close>

subsection \<open>Several end vertices\<close>

text \<open>
  \<open>endVertex\<close> is an object whose keys are the ids still to be found. The visitor gets the node itself, and
  the loop does not ask whether the query was killed.
\<close>

record 'r multi_state =
  m_search :: "'r dk_state"
  m_targets :: "string list"

type_synonym 'r node_visitor = "'r \<Rightarrow> dk_node \<Rightarrow> tpath \<Rightarrow> 'r \<times> trav_exc option"

definition multi_step :: "'c path_config \<Rightarrow> 'r node_visitor \<Rightarrow> 'r multi_state \<Rightarrow> 'r multi_state \<times> trav_exc option" where
  "multi_step cfg visitor s =
     (let d = m_search s; (i, heap) = pop_id (dk_score (dk_nodes d)) (dk_heap d);
          d = d\<lparr>dk_heap := heap\<rparr>; current = node_at (dk_nodes d) i;
          key = js_string (attribute (n_vertex current) ''_id'');
          targets = (if key \<in> set (m_targets s) then remove1 key (m_targets s) else m_targets s);
          (result, exc) = (if key \<in> set (m_targets s) then visitor (dk_result d) current (buildPath (dk_nodes d) i)
                           else (dk_result d, None));
          d = d\<lparr>dk_result := result\<rparr>
      in if exc \<noteq> None then (\<lparr>m_search = d, m_targets = targets\<rparr>, exc)
         else if key \<in> set (m_targets s) \<and> targets = [] then (\<lparr>m_search = d\<lparr>dk_finished := True\<rparr>, m_targets = []\<rparr>, None)
         else let (d, exc) = dk_continue cfg i d in (\<lparr>m_search = d, m_targets = targets\<rparr>, exc))"

definition dijkstraSearchMulti :: "'c path_config \<Rightarrow> 'r node_visitor \<Rightarrow> 'r \<Rightarrow> jsval \<Rightarrow> string list \<Rightarrow> 'r \<times> trav_exc option" where
  "dijkstraSearchMulti cfg visitor result startVertex targets = (case node_id startVertex of
      Inl e \<Rightarrow> (result, Some e)
    | Inr i \<Rightarrow>
        (let (s, exc) = search_loop (cfg_maxIterations cfg) (\<lambda>n. False) (\<lambda>s. dk_alive (m_search s)) (multi_step cfg visitor) 0
               \<lparr>m_search = dk_start result startVertex i, m_targets = targets\<rparr>
         in (dk_result (m_search s), exc)))"

definition recordingNodes :: "(dk_node \<times> tpath) list node_visitor" where
  "recordingNodes result node path = (result @ [(node, path)], None)"

definition node_key :: "dk_node \<Rightarrow> string" where
  "node_key n = js_string (attribute (n_vertex n) ''_id'')"

definition multi_inv :: "'c path_config \<Rightarrow> jsval \<Rightarrow> string \<Rightarrow> string list \<Rightarrow> (dk_node \<times> tpath) list multi_state \<Rightarrow> bool" where
  "multi_inv cfg start sid targets s \<longleftrightarrow>
     (\<exists>order. dk_ok cfg start sid order (dk_nodes (m_search s)) (dk_heap (m_search s)))
     \<and> list_all (\<lambda>(n, path). good_route cfg start n path) (dk_result (m_search s))
     \<and> mset (map (node_key \<circ> fst) (dk_result (m_search s)) @ m_targets s) = mset targets"

lemma dk_continue_ok:
  assumes ok: "dk_ok cfg start sid order (dk_nodes s) heap" and i: "i \<in> set heap" and heap: "set (dk_heap s) \<subseteq> set heap"
  shows "(\<exists>order'. dk_ok cfg start sid order' (dk_nodes (fst (dk_continue cfg i s))) (dk_heap (fst (dk_continue cfg i s))))
    \<and> dk_result (fst (dk_continue cfg i s)) = dk_result s"
  using dk_expand_ok [OF ok i heap] dk_ok_heap [OF ok heap] by (auto simp: dk_continue_def Let_def)

lemma multi_inv_step:
  assumes inv: "multi_inv cfg start sid targets s" and alive: "dk_alive (m_search s)"
  shows "multi_inv cfg start sid targets (fst (multi_step cfg recordingNodes s))"
proof -
  let ?d = "m_search s"
  obtain order where ok: "dk_ok cfg start sid order (dk_nodes ?d) (dk_heap ?d)"
    and res: "list_all (\<lambda>(n, path). good_route cfg start n path) (dk_result ?d)"
    and tg: "mset (map (node_key \<circ> fst) (dk_result ?d) @ m_targets s) = mset targets"
    using inv by (auto simp: multi_inv_def)
  obtain i heap where pop: "pop_id (dk_score (dk_nodes ?d)) (dk_heap ?d) = (i, heap)" by fastforce
  have set: "set (dk_heap ?d) = insert i (set heap)" using set_pop_id [OF _ pop] alive by (simp add: dk_alive_def)
  let ?cur = "node_at (dk_nodes ?d) i"
  have route: "good_route cfg start ?cur (buildPath (dk_nodes ?d) i)"
    by (rule buildPath_route [OF ok]) (simp add: set)
  have ok': "dk_ok cfg start sid order (dk_nodes ?d) heap" by (rule dk_ok_heap [OF ok]) (use set in auto)
  have c: "(\<exists>order'. dk_ok cfg start sid order' (dk_nodes (fst (dk_continue cfg i (?d\<lparr>dk_heap := heap, dk_result := r\<rparr>))))
        (dk_heap (fst (dk_continue cfg i (?d\<lparr>dk_heap := heap, dk_result := r\<rparr>)))))
      \<and> dk_result (fst (dk_continue cfg i (?d\<lparr>dk_heap := heap, dk_result := r\<rparr>))) = r" for r
    using dk_continue_ok [of cfg start sid order "?d\<lparr>dk_heap := heap, dk_result := r\<rparr>" "dk_heap ?d" i] set ok by auto
  show ?thesis
  proof (cases "node_key ?cur \<in> set (m_targets s)")
    case True
    have "mset (map (node_key \<circ> fst) (dk_result ?d @ [(?cur, buildPath (dk_nodes ?d) i)]) @ remove1 (node_key ?cur) (m_targets s)) = mset targets"
      using tg True by simp
    moreover have "mset (m_targets s) = add_mset (node_key ?cur) (mset (remove1 (node_key ?cur) (m_targets s)))"
      using True by simp
    then have "remove1 (node_key ?cur) (m_targets s) = [] \<Longrightarrow> mset (m_targets s) = {#node_key ?cur#}"
      by (metis mset.simps(1))
    ultimately show ?thesis
      using tg True ok' res route c [of "dk_result ?d @ [(?cur, buildPath (dk_nodes ?d) i)]"]
      by (auto simp: multi_step_def pop node_key_def [symmetric] recordingNodes_def multi_inv_def Let_def split: prod.splits)
  next
    case False
    then show ?thesis using tg ok' res c [of "dk_result ?d"]
      by (auto simp: multi_step_def pop node_key_def [symmetric] multi_inv_def Let_def split: prod.splits)
  qed
qed

text \<open>
  The search for several end vertices visits each of them at most once and nothing else, always with a
  path of the graph from the start vertex, and the distance of the node it hands to the visitor is the
  sum of the weights along that path.
\<close>

theorem multi_visits_targets:
  assumes "distinct targets"
    and result: "fst (dijkstraSearchMulti cfg recordingNodes [] start targets) = visits"
  shows "distinct (map (node_key \<circ> fst) visits) \<and> set (map (node_key \<circ> fst) visits) \<subseteq> set targets
    \<and> (\<forall>(n, path) \<in> set visits. chain (joins_id cfg) (p_vertices path) (p_edges path)
         \<and> hd (p_vertices path) = start \<and> last (p_vertices path) = n_vertex n
         \<and> path_cost cfg (Fin 0) (p_vertices path) (p_edges path) = Some (dk_dist n))"
proof (cases "node_id start")
  case (Inl e)
  then show ?thesis using result by (auto simp: dijkstraSearchMulti_def)
next
  case (Inr sid)
  let ?s = "\<lparr>m_search = dk_start [] start sid, m_targets = targets\<rparr>"
  have "dk_ok cfg start sid [] [(sid, (fresh_node start)\<lparr>dk_dist := Fin 0\<rparr>)] (dk_heap (dk_start [] start sid))"
    using Inr by (auto simp: dk_ok_def fresh_node_def dk_start_def set_push_id Let_def)
  then have "multi_inv cfg start sid targets ?s"
    by (auto simp: multi_inv_def dk_start_def Let_def)
  then have "multi_inv cfg start sid targets (fst (search_loop (cfg_maxIterations cfg) (\<lambda>n. False) (\<lambda>s. dk_alive (m_search s)) (multi_step cfg recordingNodes) 0 ?s))"
    by (rule search_loop_invariant [rotated]) (rule multi_inv_step)
  then obtain rest where r: "list_all (\<lambda>(n, path). good_route cfg start n path) visits"
    "mset (map (node_key \<circ> fst) visits @ rest) = mset targets"
    using result Inr by (auto simp: dijkstraSearchMulti_def multi_inv_def split: prod.splits)
  then have "distinct (map (node_key \<circ> fst) visits @ rest)" "set (map (node_key \<circ> fst) visits @ rest) = set targets"
    using assms(1) mset_eq_imp_distinct_iff mset_eq_setD by blast+
  then show ?thesis using r(1) by (auto simp: list_all_iff good_route_def)
qed

theorem multi_visits_targets_witness:
  "distinct (map (node_key \<circ> fst)
     (fst (dijkstraSearchMulti (weighted_config [(''S'', [(''R'', 3)])])
        recordingNodes [] (vertex_doc ''S'') [''R'', ''S''])))"
  by (rule multi_visits_targets [THEN conjunct1, OF _ refl]) simp

subsection \<open>A*\<close>

record as_node = search_node +
  as_f :: jsnum
  as_g :: jsnum
  as_h :: jsnum
  as_closed :: bool

type_synonym as_nodes = "(string \<times> as_node) list"

definition fresh_as_node :: "jsval \<Rightarrow> as_node" where
  "fresh_as_node vertex = \<lparr>n_vertex = vertex, n_parent = None, n_visited = False,
     as_f = Fin 0, as_g = Fin 0, as_h = Fin 0, as_closed = False\<rparr>"

definition as_score :: "as_nodes \<Rightarrow> string \<Rightarrow> jsnum" where
  "as_score nodes i = as_f (node_at nodes i)"

definition heuristic :: "'r path_config \<Rightarrow> jsnum \<Rightarrow> jsval \<Rightarrow> jsval \<Rightarrow> jsval \<Rightarrow> trav_exc + jsnum" where
  "heuristic cfg h neighbor endVertex edge = (case cfg_distance cfg of
      Some distance \<Rightarrow> if \<not> js_truthy (JNum h) then distance neighbor endVertex edge else Inr h
    | None \<Rightarrow> Inr h)"

fun as_relax :: "'r path_config \<Rightarrow> jsval \<Rightarrow> string \<Rightarrow> connection list \<Rightarrow> as_nodes \<Rightarrow> string list \<Rightarrow> (as_nodes \<times> string list) \<times> trav_exc option" where
  "as_relax cfg endVertex current [] nodes heap = ((nodes, heap), None)"
| "as_relax cfg endVertex current (c # cs) nodes heap =
     (case node_id (c_vertex c) of
        Inl e \<Rightarrow> ((nodes, heap), Some e)
      | Inr i \<Rightarrow>
          (let nodes = make_node fresh_as_node nodes (c_vertex c) i; neighbor = node_at nodes i
           in if as_closed neighbor then as_relax cfg endVertex current cs nodes heap
              else let gScore = num_add (as_g (node_at nodes current)) (Fin 1); beenVisited = n_visited neighbor
                   in if \<not> beenVisited \<or> num_lt gScore (as_g neighbor)
                      then case heuristic cfg (Fin 1) (n_vertex neighbor) endVertex (c_edge c) of
                          Inl e \<Rightarrow> ((AList.update i (neighbor\<lparr>n_visited := True, n_parent := Some (current, c_edge c), as_h := Fin 1\<rparr>) nodes, heap), Some e)
                        | Inr h \<Rightarrow>
                            (let nodes = AList.update i (neighbor\<lparr>n_visited := True, n_parent := Some (current, c_edge c),
                                   as_h := h, as_g := gScore, as_f := num_add gScore h\<rparr>) nodes;
                                 heap = (if \<not> beenVisited then push_id (as_score nodes) i heap else rescore_id (as_score nodes) i heap)
                             in as_relax cfg endVertex current cs nodes heap)
                      else as_relax cfg endVertex current cs nodes heap))"

record 'r as_state =
  as_nodes :: as_nodes
  as_heap :: "string list"
  as_result :: 'r
  as_finished :: bool

definition as_visits :: "'r path_config \<Rightarrow> as_nodes \<Rightarrow> string \<Rightarrow> (jsval \<times> tpath) list" where
  "as_visits cfg nodes i =
     (let vertices = vertexList (length nodes) nodes i
      in map (\<lambda>v. (n_vertex (node_at nodes v), buildPath nodes v)) (if cfg_order cfg \<noteq> PRE_ORDER then rev vertices else vertices))"

definition as_step :: "'r path_config \<Rightarrow> jsval \<Rightarrow> 'r as_state \<Rightarrow> 'r as_state \<times> trav_exc option" where
  "as_step cfg endVertex s =
     (let (i, heap) = pop_id (as_score (as_nodes s)) (as_heap s);
          s = s\<lparr>as_heap := heap\<rparr>; current = node_at (as_nodes s) i
      in if js_eq (attribute (n_vertex current) ''_id'') (attribute endVertex ''_id'')
         then let (result, exc) = visit_nodes (\<lambda>r v p. cfg_visitor cfg r v p []) (as_result s) (as_visits cfg (as_nodes s) i)
              in (s\<lparr>as_result := result, as_finished := True\<rparr>, exc)
         else let nodes = AList.update i (current\<lparr>as_closed := True\<rparr>) (as_nodes s);
                  s = s\<lparr>as_nodes := nodes\<rparr>
              in case cfg_expander cfg (n_vertex current) (buildPath nodes i) of
                   Inl e \<Rightarrow> (s, Some e)
                 | Inr conns \<Rightarrow>
                     (let ((nodes, heap), exc) = as_relax cfg endVertex i conns nodes heap
                      in (s\<lparr>as_nodes := nodes, as_heap := heap\<rparr>, exc)))"

definition as_alive :: "'r as_state \<Rightarrow> bool" where
  "as_alive s \<longleftrightarrow> \<not> as_finished s \<and> as_heap s \<noteq> []"

definition astarSearch :: "'r path_config \<Rightarrow> 'r \<Rightarrow> jsval \<Rightarrow> jsval \<Rightarrow> 'r \<times> trav_exc option" where
  "astarSearch cfg result startVertex endVertex = (case node_id startVertex of
      Inl e \<Rightarrow> (result, Some e)
    | Inr i \<Rightarrow>
        (let nodes = [(i, fresh_as_node startVertex)];
             (s, exc) = search_loop (cfg_maxIterations cfg) (cfg_killed cfg) as_alive (as_step cfg endVertex) 0
               \<lparr>as_nodes = nodes, as_heap = push_id (as_score nodes) i [], as_result = result, as_finished = False\<rparr>
         in (as_result s, exc)))"

text \<open>
  C22: The A* search never uses the distance of its configuration: it sets the estimate of a node to 1
  and asks for the distance only if the estimate is falsy. Configurations that differ in nothing but
  their distance give the same visits and the same exception.
\<close>

theorem astar_ignores_distance:
  "astarSearch (cfg\<lparr>cfg_distance := distance\<rparr>) result start end_vertex = astarSearch (cfg\<lparr>cfg_distance := None\<rparr>) result start end_vertex"
proof -
  let ?a = "cfg\<lparr>cfg_distance := distance\<rparr>" and ?b = "cfg\<lparr>cfg_distance := None\<rparr>"
  have h: "heuristic c (Fin 1) v w e = Inr (Fin 1)" for c :: "'a path_config" and v w e
    by (simp add: heuristic_def split: option.split)
  have r: "as_relax ?a w i cs nodes heap = as_relax ?b w i cs nodes heap" for w i cs nodes heap
    by (induction cs arbitrary: nodes heap) (simp_all add: h Let_def split: sum.split)
  have "as_step ?a end_vertex = as_step ?b end_vertex"
    by (rule ext) (simp add: as_step_def as_visits_def r Let_def split: prod.split sum.split)
  then show ?thesis by (simp add: astarSearch_def Let_def split: sum.split)
qed

end
