(* ===== verification/Traverser.thy ===== *)
theory Traverser
  imports Traversal_DFS Traversal_BFS Traversal_Paths
begin

text \<open>
  The constructor \<open>ArangoTraverser\<close> and its method \<open>traverse\<close> of
  \<open>js/common/modules/org/arangodb/graph/traversal.js\<close>: defaults, validation of the configuration, the
  filter put together from depths and user filters, and the choice of the strategy.
\<close>

subsection \<open>Validation\<close>

text \<open>\<open>toLowerCase\<close> as far as the names below can tell, and \<open>replace(/-/, "")\<close>, which takes out one dash.\<close>

definition ascii_lower :: "char \<Rightarrow> char" where
  "ascii_lower c = (let n = of_char c :: nat in if 65 \<le> n \<and> n \<le> 90 then char_of (n + 32) else c)"

definition remove_dash :: "string \<Rightarrow> string" where
  "remove_dash s = remove1 CHR ''-'' s"

definition bad_parameter :: "string \<Rightarrow> trav_exc" where
  "bad_parameter message = Raised (ArangoError 10 message)"

text \<open>
  \<open>code\<close> gives the value of a constant in the code. An inherited property of the map, such as
  \<open>constructor\<close>, is not modelled.
\<close>

definition validate :: "jsval \<Rightarrow> (string \<times> 'v) list \<Rightarrow> ('v \<Rightarrow> jsval) \<Rightarrow> string \<Rightarrow> trav_exc + 'v" where
  "validate value names code param =
     (let value = (if value = JNull \<or> value = JUndef then JStr (fst (hd names)) else value);
          value = (case value of JStr s \<Rightarrow> JStr (remove_dash (map ascii_lower s)) | v \<Rightarrow> v);
          named = (case value of JStr s \<Rightarrow> map_of names s | _ \<Rightarrow> None)
      in case named of
           Some v \<Rightarrow> Inr v
         | None \<Rightarrow> (case List.find (\<lambda>(k, v). js_eq (code v) value) names of
             Some (k, v) \<Rightarrow> Inr v
           | None \<Rightarrow> Inl (bad_parameter (''invalid value for '' @ param))))"

fun uniqueness_code :: "uniqueness \<Rightarrow> jsval" where
  "uniqueness_code UNIQUE_NONE = JNum (Fin 0)"
| "uniqueness_code UNIQUE_PATH = JNum (Fin 1)"
| "uniqueness_code UNIQUE_GLOBAL = JNum (Fin 2)"

fun strategy_code :: "strategy \<Rightarrow> jsval" where
  "strategy_code BREADTH_FIRST = JNum (Fin 0)"
| "strategy_code DEPTH_FIRST = JNum (Fin 1)"
| "strategy_code ASTAR_SEARCH = JNum (Fin 2)"
| "strategy_code DIJKSTRA_SEARCH = JNum (Fin 3)"
| "strategy_code DIJKSTRA_SEARCH_MULTI = JNum (Fin 4)"

fun order_code :: "visit_order \<Rightarrow> jsval" where
  "order_code PRE_ORDER = JNum (Fin 0)"
| "order_code POST_ORDER = JNum (Fin 1)"
| "order_code PRE_ORDER_EXPANDER = JNum (Fin 2)"

fun item_order_code :: "item_order \<Rightarrow> jsval" where
  "item_order_code FORWARD = JNum (Fin 0)"
| "item_order_code BACKWARD = JNum (Fin 1)"

definition vertex_uniqueness_names :: "(string \<times> uniqueness) list" where
  "vertex_uniqueness_names = [(''none'', UNIQUE_NONE), (''global'', UNIQUE_GLOBAL), (''path'', UNIQUE_PATH)]"

definition edge_uniqueness_names :: "(string \<times> uniqueness) list" where
  "edge_uniqueness_names = [(''path'', UNIQUE_PATH), (''none'', UNIQUE_NONE), (''global'', UNIQUE_GLOBAL)]"

definition strategy_names :: "(string \<times> strategy) list" where
  "strategy_names = [(''depthfirst'', DEPTH_FIRST), (''breadthfirst'', BREADTH_FIRST), (''astar'', ASTAR_SEARCH),
     (''dijkstra'', DIJKSTRA_SEARCH), (''dijkstramulti'', DIJKSTRA_SEARCH_MULTI)]"

definition order_names :: "(string \<times> visit_order) list" where
  "order_names = [(''preorder'', PRE_ORDER), (''postorder'', POST_ORDER), (''preorderexpander'', PRE_ORDER_EXPANDER)]"

definition item_order_names :: "(string \<times> item_order) list" where
  "item_order_names = [(''forward'', FORWARD), (''backward'', BACKWARD)]"

subsection \<open>The constructor\<close>

text \<open>
  The configuration of the caller. A member the constructor replaces is a JavaScript value, \<open>JUndef\<close> where
  it is missing; \<open>raw_base\<close> has the members it leaves as they are. A filter is anything else, a function, or
  an array whose members may be no functions (\<open>None\<close>), and a visitor that is no function is \<open>None\<close>.
  \<open>raw_datasource\<close> is \<open>None\<close> for a primitive value; a missing data source becomes \<open>null\<close>, which the test by
  \<open>typeof\<close> lets pass, and is not modelled.
\<close>

type_synonym user_filter = "jsval \<Rightarrow> tpath \<Rightarrow> trav_exc + jsval"

datatype filter_option = NoFilter | OneFilter user_filter | FilterArray "user_filter option list"

datatype 'r expander_option = ExpanderFunction "jsval \<Rightarrow> tpath \<Rightarrow> trav_exc + connection list" | ExpanderValue jsval

record 'r raw_config =
  raw_base :: "'r path_config"
  raw_order :: jsval
  raw_itemOrder :: jsval
  raw_strategy :: jsval
  raw_uniqueness :: jsval
  raw_visitor :: "('r \<Rightarrow> jsval \<Rightarrow> tpath \<Rightarrow> connection list \<Rightarrow> 'r \<times> trav_exc option) option"
  raw_filter :: filter_option
  raw_expander :: "'r expander_option"
  raw_datasource :: "datasource option"
  raw_maxIterations :: "int option"
  raw_minDepth :: "jsnum option"
  raw_maxDepth :: "jsnum option"
  raw_buildVertices :: "bool option"

definition default_to :: "jsval \<Rightarrow> jsval \<Rightarrow> jsval" where
  "default_to d v = (if v = JUndef then d else v)"

definition default_uniqueness :: jsval where
  "default_uniqueness = JObj [(''vertices'', JNum (Fin 0)), (''edges'', JNum (Fin 1))]"

text \<open>\<open>config.uniqueness && config.uniqueness.vertices\<close>\<close>

definition uniqueness_member :: "jsval \<Rightarrow> string \<Rightarrow> jsval" where
  "uniqueness_member u name = (if js_truthy u then attribute u name else u)"

fun user_filters :: "filter_option \<Rightarrow> trav_exc + user_filter list" where
  "user_filters NoFilter = Inr []"
| "user_filters (OneFilter f) = Inr [f]"
| "user_filters (FilterArray fs) = (if None \<in> set fs then Inl (bad_parameter ''invalid filter function'') else Inr (map the fs))"

definition expander_names :: "'r config \<Rightarrow> (string \<times> (jsval \<Rightarrow> tpath \<Rightarrow> trav_exc + connection list)) list" where
  "expander_names cfg = [(''outbound'', outboundExpander cfg), (''inbound'', inboundExpander cfg), (''any'', anyExpander cfg)]"

definition then_do :: "trav_exc + 'a \<Rightarrow> ('a \<Rightarrow> trav_exc + 'b) \<Rightarrow> trav_exc + 'b" where
  "then_do r f = (case r of Inl e \<Rightarrow> Inl e | Inr x \<Rightarrow> f x)"

text \<open>The configuration with the validated members, up to its filter, and the complete one.\<close>

definition validated_config :: "'r raw_config \<Rightarrow> uniqueness \<Rightarrow> uniqueness \<Rightarrow> strategy \<Rightarrow> visit_order \<Rightarrow> item_order \<Rightarrow>
    ('r \<Rightarrow> jsval \<Rightarrow> tpath \<Rightarrow> connection list \<Rightarrow> 'r \<times> trav_exc option) \<Rightarrow> 'r path_config" where
  "validated_config c uv ue st ord io visitor =
     (raw_base c)\<lparr>cfg_vertexUniqueness := uv, cfg_edgeUniqueness := ue, cfg_strategy := st, cfg_order := ord,
        cfg_itemOrder := io, cfg_visitor := visitor,
        cfg_maxIterations := (case raw_maxIterations c of None \<Rightarrow> 10000000 | Some n \<Rightarrow> n),
        cfg_minDepth := (case raw_minDepth c of None \<Rightarrow> Fin 0 | Some d \<Rightarrow> d),
        cfg_maxDepth := (case raw_maxDepth c of None \<Rightarrow> Fin 256 | Some d \<Rightarrow> d),
        cfg_buildVertices := (case raw_buildVertices c of None \<Rightarrow> True | Some b \<Rightarrow> b)\<rparr>"

definition finish_config :: "'r raw_config \<Rightarrow> 'r path_config \<Rightarrow> user_filter list \<Rightarrow> trav_exc + 'r path_config" where
  "finish_config c cfg fs =
     (let cfg = cfg\<lparr>cfg_filter := traverser_filter (config.truncate cfg) fs\<rparr>;
          cfg = (case raw_datasource c of None \<Rightarrow> cfg | Some ds \<Rightarrow> cfg\<lparr>cfg_datasource := ds\<rparr>)
      in then_do (case raw_expander c of
             ExpanderFunction f \<Rightarrow> Inr f
           | ExpanderValue v \<Rightarrow> validate v (expander_names (config.truncate cfg)) (\<lambda>_. JUndef) ''expander'') (\<lambda>expander.
         if raw_datasource c = None then Inl (bad_parameter ''invalid datasource'')
         else Inr (cfg\<lparr>cfg_expander := expander\<rparr>)))"

text \<open>\<open>None\<close> is a configuration that is no object.\<close>

definition ArangoTraverser :: "'r raw_config option \<Rightarrow> trav_exc + 'r path_config" where
  "ArangoTraverser raw = (case raw of
      None \<Rightarrow> Inl (bad_parameter ''bad parameter'')
    | Some c \<Rightarrow>
        (let u = default_to default_uniqueness (raw_uniqueness c)
         in then_do (validate (uniqueness_member u ''vertices'') vertex_uniqueness_names uniqueness_code ''uniqueness.vertices'') (\<lambda>uv.
            then_do (validate (uniqueness_member u ''edges'') edge_uniqueness_names uniqueness_code ''uniqueness.edges'') (\<lambda>ue.
            then_do (validate (default_to (JNum (Fin 1)) (raw_strategy c)) strategy_names strategy_code ''strategy'') (\<lambda>st.
            then_do (validate (default_to (JNum (Fin 0)) (raw_order c)) order_names order_code ''order'') (\<lambda>ord.
            then_do (validate (default_to (JNum (Fin 0)) (raw_itemOrder c)) item_order_names item_order_code ''itemOrder'') (\<lambda>io.
            then_do (case raw_visitor c of None \<Rightarrow> Inl (bad_parameter ''invalid visitor function'') | Some f \<Rightarrow> Inr f) (\<lambda>visitor.
            then_do (user_filters (raw_filter c)) (\<lambda>fs.
            finish_config c (validated_config c uv ue st ord io visitor) fs)))))))))"

subsection \<open>Traversing\<close>

definition requiresEndVertex :: "strategy \<Rightarrow> bool" where
  "requiresEndVertex st \<longleftrightarrow> st = ASTAR_SEARCH \<or> st = DIJKSTRA_SEARCH \<or> st = DIJKSTRA_SEARCH_MULTI"

fun is_object :: "jsval \<Rightarrow> bool" where
  "is_object (JObj ob) = True"
| "is_object (JArr xs) = True"
| "is_object _ = False"

text \<open>The strategy for several end vertices hands nodes to its visitor, and reads the ids from the keys.\<close>

definition run_strategy :: "'r path_config \<Rightarrow> 'r node_visitor \<Rightarrow> 'r \<Rightarrow> jsval \<Rightarrow> jsval \<Rightarrow> 'r \<times> trav_exc option" where
  "run_strategy cfg node_visitor result startVertex endVertex = (case cfg_strategy cfg of
      ASTAR_SEARCH \<Rightarrow> astarSearch cfg result startVertex endVertex
    | DIJKSTRA_SEARCH \<Rightarrow> dijkstraSearch cfg result startVertex endVertex
    | DIJKSTRA_SEARCH_MULTI \<Rightarrow> dijkstraSearchMulti cfg node_visitor result startVertex
        (case endVertex of JObj ob \<Rightarrow> object_keys ob | _ \<Rightarrow> [])
    | BREADTH_FIRST \<Rightarrow> breadthFirstSearch (config.truncate cfg) result startVertex
    | DEPTH_FIRST \<Rightarrow> depthFirstSearch (config.truncate cfg) result startVertex)"

definition traverse :: "'r path_config \<Rightarrow> 'r node_visitor \<Rightarrow> 'r \<Rightarrow> jsval \<Rightarrow> jsval \<Rightarrow> 'r \<times> trav_exc option" where
  "traverse cfg node_visitor result startVertex endVertex =
     (if \<not> is_object startVertex
      then (result, Some (bad_parameter ''bad parameter: invalid startVertex specified for traversal''))
      else if requiresEndVertex (cfg_strategy cfg) \<and> \<not> is_object endVertex
      then (result, Some (bad_parameter ''bad parameter: invalid endVertex specified for traversal''))
      else let (result, exc) = run_strategy cfg node_visitor result startVertex endVertex
           in (result, if exc = Some IntentionallyAborted then None else exc))"

subsection \<open>Properties of the traverser\<close>

definition normal_name :: "string \<Rightarrow> string" where
  "normal_name s = remove_dash (map ascii_lower s)"

text \<open>What the tables of names have in common.\<close>

definition name_table :: "(string \<times> 'v) list \<Rightarrow> ('v \<Rightarrow> jsval) \<Rightarrow> bool" where
  "name_table names code \<longleftrightarrow> names \<noteq> [] \<and> distinct (map fst names) \<and> (\<forall>(k, v) \<in> set names. normal_name k = k)
     \<and> (\<forall>(k, v) \<in> set names. \<exists>n. code v = JNum n \<and> num_eq n n)
     \<and> (\<forall>(k, v) \<in> set names. \<forall>(l, w) \<in> set names. js_eq (code v) (code w) \<longrightarrow> v = w)"

lemma name_tables:
  "name_table vertex_uniqueness_names uniqueness_code" "name_table edge_uniqueness_names uniqueness_code"
  "name_table strategy_names strategy_code" "name_table order_names order_code" "name_table item_order_names item_order_code"
  by (simp_all add: name_table_def vertex_uniqueness_names_def edge_uniqueness_names_def strategy_names_def
      order_names_def item_order_names_def normal_name_def remove_dash_def ascii_lower_def)

lemma validate_string: "name_table names code \<Longrightarrow>
  validate (JStr s) names code param = (case map_of names (normal_name s) of
     Some v \<Rightarrow> Inr v | None \<Rightarrow> Inl (bad_parameter (''invalid value for '' @ param)))"
proof -
  assume t: "name_table names code"
  have "List.find (\<lambda>(k, v). js_eq (code v) (JStr x)) names = None" for x
    using t by (fastforce simp: find_None_iff name_table_def)
  then show ?thesis by (simp add: validate_def Let_def normal_name_def split: option.split)
qed

text \<open>
  The constructor takes a name of a strategy in any case and with one dash anywhere, the constant it stands
  for, and \<open>null\<close> for the first one, and raises a bad parameter for every other string. The same holds
  for the other enumerations.
\<close>

theorem validate_names:
  assumes "name_table names code"
  shows "(validate (JStr s) names code param = Inr v \<longleftrightarrow> (normal_name s, v) \<in> set names)
    \<and> ((k, v) \<in> set names \<longrightarrow> validate (code v) names code param = Inr v)
    \<and> validate JNull names code param = Inr (snd (hd names))
    \<and> (validate value names code param = Inl e \<longrightarrow> e = bad_parameter (''invalid value for '' @ param))"
proof (intro conjI impI)
  show "validate (JStr s) names code param = Inr v \<longleftrightarrow> (normal_name s, v) \<in> set names"
  proof -
    have "validate (JStr s) names code param = Inr v \<longleftrightarrow> map_of names (normal_name s) = Some v"
      by (simp add: validate_string [OF assms] split: option.split)
    also have "\<dots> \<longleftrightarrow> (normal_name s, v) \<in> set names"
      by (rule map_of_eq_Some_iff) (use assms in \<open>simp add: name_table_def\<close>)
    finally show ?thesis .
  qed
  show "validate (code v) names code param = Inr v" if kv: "(k, v) \<in> set names"
  proof -
    obtain n where n: "code v = JNum n" "num_eq n n" using assms kv by (fastforce simp: name_table_def)
    have "List.find (\<lambda>(k, w). js_eq (code w) (code v)) names \<noteq> None"
      using kv n by (simp add: find_None_iff, intro exI [of _ k] exI [of _ v]) simp
    then obtain l w where w: "List.find (\<lambda>(k, w). js_eq (code w) (code v)) names = Some (l, w)" by auto
    then have "(l, w) \<in> set names" "js_eq (code w) (code v)" by (auto simp: find_Some_iff) (metis nth_mem)
    then have "w = v" using assms kv unfolding name_table_def by blast
    then show ?thesis using w n by (simp add: validate_def)
  qed
  show "validate JNull names code param = Inr (snd (hd names))"
  proof -
    obtain k v rest where names: "names = (k, v) # rest" using assms by (cases names) (auto simp: name_table_def)
    then have "normal_name k = k" using assms by (simp add: name_table_def)
    then show ?thesis by (simp add: names validate_def Let_def normal_name_def)
  qed
  show "e = bad_parameter (''invalid value for '' @ param)" if "validate value names code param = Inl e"
    using that by (auto simp: validate_def Let_def split: option.splits jsval.splits if_splits)
qed

theorem validate_names_witness:
  "validate (JStr ''Breadth-First'') strategy_names strategy_code ''strategy'' = Inr BREADTH_FIRST"
proof -
  have "normal_name ''Breadth-First'' = ''breadthfirst''" by code_simp
  then show ?thesis
    using validate_names [OF name_tables(3), of "''Breadth-First''" "''strategy''" BREADTH_FIRST] by (simp add: strategy_names_def)
qed

text \<open>A traverser for a breadth-first search of everything, as a caller configures it.\<close>

definition everything_breadth_first :: "recording raw_config \<Rightarrow> (jsval \<Rightarrow> connection list) \<Rightarrow> datasource \<Rightarrow> bool" where
  "everything_breadth_first raw succ ds \<longleftrightarrow>
     raw_uniqueness raw = JObj [(''vertices'', JStr ''global''), (''edges'', JStr ''none'')]
     \<and> raw_strategy raw = JStr ''breadthfirst'' \<and> raw_order raw = JStr ''preorder'' \<and> raw_itemOrder raw = JUndef
     \<and> raw_visitor raw = Some recordingVisitor \<and> raw_filter raw = NoFilter
     \<and> raw_minDepth raw = None \<and> raw_maxDepth raw = Some (Fin 0) \<and> raw_maxIterations raw = None
     \<and> raw_expander raw = ExpanderFunction (\<lambda>v path. Inr (succ v)) \<and> raw_datasource raw = Some ds
     \<and> cfg_killed (raw_base raw) = (\<lambda>n. False)
     \<and> (\<forall>v w. js_string (getVertexId ds v) = js_string (getVertexId ds w) \<longrightarrow> succ v = succ w)"

lemma everything_configured:
  assumes "everything_breadth_first raw succ ds"
  obtains cfg where "ArangoTraverser (Some raw) = Inr cfg" "exhaustive (config.truncate cfg) succ"
    "cfg_order cfg = PRE_ORDER" "cfg_strategy cfg = BREADTH_FIRST" "cfg_killed cfg = (\<lambda>n. False)"
    "cfg_maxIterations cfg = 10000000" "cfg_datasource cfg = ds"
proof -
  have v: "validate (JStr ''global'') vertex_uniqueness_names uniqueness_code ''uniqueness.vertices'' = Inr UNIQUE_GLOBAL"
    "validate (JStr ''none'') edge_uniqueness_names uniqueness_code ''uniqueness.edges'' = Inr UNIQUE_NONE"
    "validate (JStr ''breadthfirst'') strategy_names strategy_code ''strategy'' = Inr BREADTH_FIRST"
    "validate (JStr ''preorder'') order_names order_code ''order'' = Inr PRE_ORDER"
    "validate (JNum (Fin 0)) item_order_names item_order_code ''itemOrder'' = Inr FORWARD"
    by code_simp+
  have u: "uniqueness_member (JObj [(''vertices'', JStr ''global''), (''edges'', JStr ''none'')]) ''vertices'' = JStr ''global''"
    "uniqueness_member (JObj [(''vertices'', JStr ''global''), (''edges'', JStr ''none'')]) ''edges'' = JStr ''none''"
    by code_simp+
  have e: "raw_uniqueness raw = JObj [(''vertices'', JStr ''global''), (''edges'', JStr ''none'')]"
    "raw_strategy raw = JStr ''breadthfirst''" "raw_order raw = JStr ''preorder''" "raw_itemOrder raw = JUndef"
    "raw_visitor raw = Some recordingVisitor" "raw_filter raw = NoFilter" "raw_minDepth raw = None"
    "raw_maxDepth raw = Some (Fin 0)" "raw_maxIterations raw = None"
    "raw_expander raw = ExpanderFunction (\<lambda>v path. Inr (succ v))" "raw_datasource raw = Some ds"
    "cfg_killed (raw_base raw) = (\<lambda>n. False)"
    and key: "\<forall>v w. js_string (getVertexId ds v) = js_string (getVertexId ds w) \<longrightarrow> succ v = succ w"
    using assms unfolding everything_breadth_first_def by blast+
  let ?c0 = "(raw_base raw)\<lparr>cfg_vertexUniqueness := UNIQUE_GLOBAL, cfg_edgeUniqueness := UNIQUE_NONE, cfg_strategy := BREADTH_FIRST,
    cfg_order := PRE_ORDER, cfg_itemOrder := FORWARD, cfg_visitor := recordingVisitor, cfg_maxIterations := 10000000,
    cfg_minDepth := Fin 0, cfg_maxDepth := Fin 0, cfg_buildVertices := (case raw_buildVertices raw of None \<Rightarrow> True | Some b \<Rightarrow> b)\<rparr>"
  let ?cfg = "?c0\<lparr>cfg_filter := visitAllFilter, cfg_datasource := ds, cfg_expander := \<lambda>v path. Inr (succ v)\<rparr>"
  have f: "traverser_filter (config.truncate ?c0) [] = visitAllFilter"
    by (simp add: traverser_filter_def config.truncate_def)
  have "ArangoTraverser (Some raw) = finish_config raw (validated_config raw UNIQUE_GLOBAL UNIQUE_NONE BREADTH_FIRST PRE_ORDER FORWARD recordingVisitor) []"
    by (simp add: ArangoTraverser_def default_to_def e u v then_do_def)
  also have "\<dots> = finish_config raw ?c0 []" by (simp add: validated_config_def e)
  also have "\<dots> = Inr ?cfg" unfolding finish_config_def f by (simp add: e then_do_def)
  finally have "ArangoTraverser (Some raw) = Inr ?cfg" .
  moreover have sel: "cfg_visitor (config.truncate ?cfg) = recordingVisitor" "cfg_vertexUniqueness (config.truncate ?cfg) = UNIQUE_GLOBAL"
    "cfg_edgeUniqueness (config.truncate ?cfg) = UNIQUE_NONE" "cfg_filter (config.truncate ?cfg) = visitAllFilter"
    "cfg_expander (config.truncate ?cfg) = (\<lambda>v path. Inr (succ v))" "cfg_datasource (config.truncate ?cfg) = ds"
    by (simp_all add: config.truncate_def)
  have "exhaustive (config.truncate ?cfg) succ"
    unfolding exhaustive_def vertex_key_def sel by (intro conjI refl key)
  ultimately show thesis by (rule that) (simp_all add: e(12))
qed

text \<open>
  C23: What a caller gets who configures a breadth-first traverser with global uniqueness of the vertices
  and no depth limit: \<open>traverse\<close> returns without an exception and has visited the vertices that can be
  reached from the start, each once and on a path over as few connections as possible, as long as
  these are few enough for the default of \<open>maxIterations\<close>.
\<close>

theorem traverser_breadth_first:
  assumes "everything_breadth_first raw succ ds" "is_object start"
    "\<forall>v. reachable succ start v \<longrightarrow> js_string (getVertexId ds v) \<in> (\<lambda>v. js_string (getVertexId ds v)) ` set vs"
    "3 * (\<Sum>v\<leftarrow>vs. length (succ v)) + 3 \<le> 10000000"
  shows "\<exists>cfg visits. ArangoTraverser (Some raw) = Inr cfg \<and> traverse cfg node_visitor [] start end_vertex = (visits, None)
    \<and> {js_string (getVertexId ds v) |v. v \<in> fst ` set visits} = {js_string (getVertexId ds v) |v. reachable succ start v}
    \<and> distinct (map (\<lambda>(v, path). js_string (getVertexId ds v)) visits)
    \<and> (\<forall>(v, path) \<in> set visits. walk succ start (length (p_edges path)) v
         \<and> (\<forall>n w. walk succ start n w \<and> js_string (getVertexId ds w) = js_string (getVertexId ds v)
              \<longrightarrow> length (p_edges path) \<le> n))"
proof -
  obtain cfg where cfg: "ArangoTraverser (Some raw) = Inr cfg" "exhaustive (config.truncate cfg) succ"
    "cfg_order cfg = PRE_ORDER" "cfg_strategy cfg = BREADTH_FIRST" "cfg_killed cfg = (\<lambda>n. False)"
    "cfg_maxIterations cfg = 10000000" "cfg_datasource cfg = ds"
    using assms(1) by (rule everything_configured)
  let ?c = "config.truncate cfg"
  have key: "vertex_key ?c = (\<lambda>v. js_string (getVertexId ds v))"
    by (simp add: vertex_key_def config.truncate_def cfg(7) fun_eq_iff)
  have "\<exists>visits. breadthFirstSearch ?c [] start = (visits, None)
    \<and> vertex_key ?c ` fst ` set visits = vertex_key ?c ` {v. reachable succ start v}
    \<and> distinct (map (vertex_key ?c \<circ> fst) visits)
    \<and> (\<forall>(v, path) \<in> set visits. walk succ start (length (p_edges path)) v
         \<and> (\<forall>n w. walk succ start n w \<and> vertex_key ?c w = vertex_key ?c v \<longrightarrow> length (p_edges path) \<le> n))"
    by (rule bfs_exhaustive_total [OF cfg(2), where vs = vs])
      (use assms(3,4) cfg(3,5,6) in \<open>simp_all add: key, simp_all add: config.truncate_def\<close>)
  then obtain visits where v: "breadthFirstSearch ?c [] start = (visits, None)"
    "vertex_key ?c ` fst ` set visits = vertex_key ?c ` {v. reachable succ start v}"
    "distinct (map (vertex_key ?c \<circ> fst) visits)"
    and least: "\<forall>(v, path) \<in> set visits. walk succ start (length (p_edges path)) v
         \<and> (\<forall>n w. walk succ start n w \<and> vertex_key ?c w = vertex_key ?c v \<longrightarrow> length (p_edges path) \<le> n)"
    by (elim exE conjE) (rule that)
  have "traverse cfg node_visitor [] start end_vertex = (visits, None)"
    using assms(2) by (simp add: traverse_def requiresEndVertex_def run_strategy_def cfg(4) v(1))
  moreover have "{js_string (getVertexId ds v) |v. v \<in> fst ` set visits} = {js_string (getVertexId ds v) |v. reachable succ start v}"
    using v(2) unfolding key by (simp add: setcompr_eq_image)
  moreover have "distinct (map (\<lambda>(v, path). js_string (getVertexId ds v)) visits)"
    using v(3) unfolding key by (simp add: comp_def split_def)
  moreover have "\<forall>(v, path) \<in> set visits. walk succ start (length (p_edges path)) v
      \<and> (\<forall>n w. walk succ start n w \<and> js_string (getVertexId ds w) = js_string (getVertexId ds v)
           \<longrightarrow> length (p_edges path) \<le> n)"
    using least unfolding key by (simp add: case_prod_beta)
  ultimately show ?thesis using cfg(1) by (intro exI conjI)
qed

definition two_documents :: "(string \<times> (string \<times> rat) list) list" where
  "two_documents = [(''S'', [(''T'', 1)]), (''T'', [(''S'', 1)])]"

definition everything_config :: "recording raw_config" where
  "everything_config = \<lparr>raw_base = weighted_config [], raw_order = JStr ''preorder'', raw_itemOrder = JUndef,
     raw_strategy = JStr ''breadthfirst'', raw_uniqueness = JObj [(''vertices'', JStr ''global''), (''edges'', JStr ''none'')],
     raw_visitor = Some recordingVisitor, raw_filter = NoFilter,
     raw_expander = ExpanderFunction (\<lambda>v path. Inr (weighted_graph two_documents v)),
     raw_datasource = Some (cfg_datasource (weighted_config [])), raw_maxIterations = None,
     raw_minDepth = None, raw_maxDepth = Some (Fin 0), raw_buildVertices = None\<rparr>"

lemma two_documents_reachable:
  "reachable (weighted_graph two_documents) (JObj [(''_id'', JStr ''S'')]) v
    \<Longrightarrow> v = JObj [(''_id'', JStr ''S'')] \<or> v = JObj [(''_id'', JStr ''T'')]"
  by (induction rule: reachable.induct) (auto simp: two_documents_def vertex_doc_def)

lemma two_documents_key:
  assumes "js_string (attribute v ''_id'') = js_string (attribute w ''_id'')"
  shows "weighted_graph two_documents v = weighted_graph two_documents w"
proof -
  have "weighted_graph two_documents u = (case map_of two_documents (js_string (attribute u ''_id'')) of
      None \<Rightarrow> [] | Some es \<Rightarrow> map (\<lambda>(to, w). \<lparr>c_edge = edge_doc to w, c_vertex = vertex_doc to\<rparr>) es)" for u
    by (cases u) (simp_all add: attribute_def two_documents_def split: if_splits)
  then show ?thesis by (simp add: assms)
qed

theorem traverser_breadth_first_witness:
  defines "ds \<equiv> cfg_datasource (weighted_config [])" and "succ \<equiv> weighted_graph two_documents" and "start \<equiv> JObj [(''_id'', JStr ''S'')]"
  shows "\<exists>cfg visits. ArangoTraverser (Some everything_config) = Inr cfg \<and> traverse cfg (\<lambda>r v p. (r, None)) [] start JUndef = (visits, None)
    \<and> {js_string (getVertexId ds v) |v. v \<in> fst ` set visits} = {js_string (getVertexId ds v) |v. reachable succ start v}
    \<and> distinct (map (\<lambda>(v, path). js_string (getVertexId ds v)) visits)
    \<and> (\<forall>(v, path) \<in> set visits. walk succ start (length (p_edges path)) v
         \<and> (\<forall>n w. walk succ start n w \<and> js_string (getVertexId ds w) = js_string (getVertexId ds v)
              \<longrightarrow> length (p_edges path) \<le> n))"
proof -
  have key: "\<forall>v w. js_string (getVertexId ds v) = js_string (getVertexId ds w) \<longrightarrow> succ v = succ w"
  proof (intro allI impI)
    fix v w assume "js_string (getVertexId ds v) = js_string (getVertexId ds w)"
    then have "js_string (attribute v ''_id'') = js_string (attribute w ''_id'')" by (simp add: ds_def weighted_config_def)
    then show "succ v = succ w" unfolding succ_def by (rule two_documents_key)
  qed
  have never: "cfg_killed (weighted_config []) = (\<lambda>n. False)" by (simp add: weighted_config_def)
  have c: "everything_breadth_first everything_config succ ds"
    unfolding everything_breadth_first_def everything_config_def raw_config.simps
    by (intro conjI refl key never) (simp_all add: succ_def ds_def)
  have r: "\<forall>v. reachable succ start v \<longrightarrow> js_string (getVertexId ds v) \<in> (\<lambda>v. js_string (getVertexId ds v)) `
      set [JObj [(''_id'', JStr ''S'')], JObj [(''_id'', JStr ''T'')]]"
    using two_documents_reachable by (auto simp: succ_def start_def)
  have n: "3 * (\<Sum>v\<leftarrow>[JObj [(''_id'', JStr ''S'')], JObj [(''_id'', JStr ''T'')]]. length (succ v)) + 3 \<le> (10000000::nat)"
    by (simp add: succ_def two_documents_def)
  show ?thesis by (rule traverser_breadth_first [OF c _ r]) (use n in \<open>simp_all add: start_def\<close>)
qed

end
