(* ===== verification/Foxx_Queues.thy ===== *)
theory Foxx_Queues
  imports JS_Value
begin

text \<open>
  The job queues of Foxx: \<open>js/server/modules/org/arangodb/foxx/queues.js\<close> with the manager and the worker
  below \<open>foxx/queues\<close>, and \<open>exponentialBackOff\<close> of \<open>js/common/bootstrap/module-internal.js\<close>. The state is
  the two system collections, the objects of the module and the registered tasks. An event is one
  call of the interface, one run of the manager or the end of one run of a worker; the events
  interleave in any order. Parameters are the clock, \<open>Math.random\<close>, the outcome of a job's \<open>execute\<close>, and the
  evaluation \<open>E\<close> of the source text of a back-off function. Keys are legal document keys, and
  the key of a new job, which the database chooses, was not used before.
\<close>

subsection \<open>State\<close>

datatype back_off = NoBackOff | BackOffNumber jsnum | BackOffSource string | BackOffFun string "nat \<Rightarrow> string + jsnum"

record job =
  j_key :: string
  j_status :: string
  j_queue :: string
  j_type :: string
  j_failures :: "string list"
  j_data :: jsval
  j_created :: jsnum
  j_modified :: jsnum
  j_maxFailures :: jsval
  j_backOff :: back_off
  j_delayUntil :: jsnum
  j_onSuccess :: "string option"
  j_onFailure :: "string option"

text \<open>A job type; its \<open>execute\<close> is represented by the outcomes of its calls.\<close>

record job_type =
  t_maxFailures :: jsval
  t_backOff :: back_off
  t_validate :: "(jsval \<Rightarrow> string + jsval) option"
  t_preprocess :: "(jsval \<Rightarrow> string + jsval) option"

record server =
  s_queues :: "(string \<times> int) list"
  s_jobs :: "job list"
  s_queueMap :: "string set"
  s_jobTypes :: "(string \<times> job_type) list"
  s_tasks :: "job list"

datatype queue_exc = QueueError string | DocumentNotFound

definition has_job :: "string \<Rightarrow> server \<Rightarrow> bool" where
  "has_job k s \<longleftrightarrow> k \<in> j_key ` set (s_jobs s)"

text \<open>\<open>db._jobs.update(key, patch)\<close>, which raises an error for a missing document.\<close>

definition update_job :: "string \<Rightarrow> (job \<Rightarrow> job) \<Rightarrow> server \<Rightarrow> server \<times> queue_exc option" where
  "update_job k patch s =
     (if has_job k s then (s\<lparr>s_jobs := map (\<lambda>j. if j_key j = k then patch j else j) (s_jobs s)\<rparr>, None)
      else (s, Some DocumentNotFound))"

subsection \<open>Delay of a retry\<close>

definition exponentialBackOff :: "jsnum \<Rightarrow> nat \<Rightarrow> jsnum \<Rightarrow> jsnum" where
  "exponentialBackOff random n i =
     (if num_eq i (Fin 0) then Fin 0
      else if n = 0 then Fin 0
      else if n = 1 then (if num_lt random (Fin (1 / 2)) then Fin 0 else i)
      else num_mul (math_floor (num_mul random (num_add (Fin (of_nat n)) (Fin 1)))) i)"

definition usable_interval :: "jsnum \<Rightarrow> bool" where
  "usable_interval i \<longleftrightarrow> num_le (Fin 0) i \<and> num_lt i PInf"

text \<open>An exception of a back-off function is logged, and the next choice is tried.\<close>

definition number_back_off :: "jsnum \<Rightarrow> nat \<Rightarrow> back_off \<Rightarrow> jsnum option" where
  "number_back_off random n b = (case b of
      BackOffNumber i \<Rightarrow> if usable_interval i then Some (exponentialBackOff random n i) else None
    | _ \<Rightarrow> None)"

definition called_back_off :: "(string \<Rightarrow> nat \<Rightarrow> string + jsnum) \<Rightarrow> nat \<Rightarrow> back_off \<Rightarrow> jsnum option" where
  "called_back_off E n b = (case b of
      BackOffSource src \<Rightarrow> (case E src n of Inl e \<Rightarrow> None | Inr d \<Rightarrow> Some d)
    | BackOffFun src f \<Rightarrow> (case f n of Inl e \<Rightarrow> None | Inr d \<Rightarrow> Some d)
    | _ \<Rightarrow> None)"

definition getBackOffDelay :: "(string \<Rightarrow> nat \<Rightarrow> string + jsnum) \<Rightarrow> jsnum \<Rightarrow> job \<Rightarrow> job_type \<Rightarrow> jsnum" where
  "getBackOffDelay E random job cfg =
     (let n = length (j_failures job) - 1;
          own = (case j_backOff job of BackOffFun src f \<Rightarrow> None
                 | b \<Rightarrow> (case called_back_off E n b of Some d \<Rightarrow> Some d | None \<Rightarrow> number_back_off random n b))
      in case own of Some d \<Rightarrow> d
         | None \<Rightarrow> (case called_back_off E n (t_backOff cfg) of Some d \<Rightarrow> d
           | None \<Rightarrow> (case number_back_off random n (t_backOff cfg) of Some d \<Rightarrow> d
             | None \<Rightarrow> exponentialBackOff random n (Fin 1000))))"

subsection \<open>Worker\<close>

definition max_failures :: "jsval \<Rightarrow> jsval \<Rightarrow> jsval" where
  "max_failures own configured =
     (let m = (case own of
          JNum n \<Rightarrow> if num_lt n (Fin 0) then JNum PInf else JNum n
        | _ \<Rightarrow> if js_lt configured (JNum (Fin 0)) then JNum PInf else configured)
      in if js_truthy m then m else JNum (Fin 0))"

text \<open>The call of a callback: source text, id, data, result and failures.\<close>

type_synonym callback = "string \<times> string \<times> jsval \<times> jsval \<times> string list"

definition callback_of :: "string option \<Rightarrow> job \<Rightarrow> jsval \<Rightarrow> callback option" where
  "callback_of source job result =
     (case source of Some (c # src) \<Rightarrow> Some (c # src, ''_jobs/'' @ j_key job, j_data job, result, j_failures job) | _ \<Rightarrow> None)"

text \<open>\<open>now\<close> is the time at which the worker starts, \<open>finished\<close> the time of the update of a successful job.\<close>

definition work :: "(string \<Rightarrow> nat \<Rightarrow> string + jsnum) \<Rightarrow> jsnum \<Rightarrow> jsnum \<Rightarrow> jsnum \<Rightarrow> string + jsval \<Rightarrow> job \<Rightarrow> server \<Rightarrow>
    server \<times> callback option \<times> queue_exc option" where
  "work E now finished random outcome job s = (case map_of (s_jobTypes s) (j_type job) of
      None \<Rightarrow> (let (s, exc) = update_job (j_key job) (\<lambda>j. j\<lparr>j_status := ''pending''\<rparr>) s in (s, None, exc))
    | Some cfg \<Rightarrow> (case outcome of
        Inr result \<Rightarrow>
          (let (s, exc) = update_job (j_key job) (\<lambda>j. j\<lparr>j_modified := finished, j_status := ''complete''\<rparr>) s
           in (s, if exc = None then callback_of (j_onSuccess job) job result else None, exc))
      | Inl err \<Rightarrow>
          (let job = job\<lparr>j_failures := j_failures job @ [err]\<rparr>
           in if js_lt (max_failures (j_maxFailures job) (t_maxFailures cfg)) (JNum (Fin (of_nat (length (j_failures job)))))
              then let (s, exc) = update_job (j_key job)
                         (\<lambda>j. j\<lparr>j_modified := now, j_failures := j_failures job, j_status := ''failed''\<rparr>) s
                   in (s, if exc = None then callback_of (j_onFailure job) job JUndef else None, exc)
              else let (s, exc) = update_job (j_key job)
                         (\<lambda>j. j\<lparr>j_modified := now, j_delayUntil := num_add now (getBackOffDelay E random job cfg),
                                j_failures := j_failures job, j_status := ''pending''\<rparr>) s
                   in (s, None, exc))))"

subsection \<open>Manager\<close>

definition in_progress :: "string \<Rightarrow> job \<Rightarrow> bool" where
  "in_progress q j \<longleftrightarrow> j_queue j = q \<and> j_status j = ''progress''"

definition numBusy :: "string \<Rightarrow> server \<Rightarrow> nat" where
  "numBusy q s = length (filter (in_progress q) (s_jobs s))"

definition due :: "jsnum \<Rightarrow> string \<Rightarrow> job \<Rightarrow> bool" where
  "due now q j \<longleftrightarrow> j_queue j = q \<and> j_status j = ''pending'' \<and> num_le (j_delayUntil j) now"

definition start_job :: "server \<Rightarrow> job \<Rightarrow> server" where
  "start_job s doc =
     (let s = fst (update_job (j_key doc) (\<lambda>j. j\<lparr>j_status := ''progress''\<rparr>) s)
      in s\<lparr>s_tasks := s_tasks s @ [doc\<lparr>j_status := ''progress''\<rparr>]\<rparr>)"

definition jobs_to_start :: "jsnum \<Rightarrow> string \<Rightarrow> int \<Rightarrow> server \<Rightarrow> job list" where
  "jobs_to_start now q maxWorkers s =
     (if int (numBusy q s) \<ge> maxWorkers then []
      else take (nat (maxWorkers - int (numBusy q s))) (sort_key j_delayUntil (filter (due now q) (s_jobs s))))"

definition manage_queue :: "jsnum \<Rightarrow> server \<Rightarrow> string \<times> int \<Rightarrow> server" where
  "manage_queue now s queue =
     (case queue of (q, maxWorkers) \<Rightarrow> foldl start_job s (jobs_to_start now q maxWorkers s))"

definition manage :: "jsnum \<Rightarrow> server \<Rightarrow> server" where
  "manage now s = foldl (manage_queue now) s (s_queues s)"

text \<open>At the start of the server: the tasks of the last run are gone, and so are the objects of the module.\<close>

definition run :: "server \<Rightarrow> server" where
  "run s = s\<lparr>s_jobs := map (\<lambda>j. if j_status j = ''progress'' then j\<lparr>j_status := ''pending''\<rparr> else j) (s_jobs s)\<rparr>"

subsection \<open>Interface of the module\<close>

definition queues_get :: "string \<Rightarrow> server \<Rightarrow> server \<times> queue_exc option" where
  "queues_get key s =
     (if key \<in> s_queueMap s then (s, None)
      else if map_of (s_queues s) key = None then (s, Some (QueueError (''Queue does not exist: '' @ key)))
      else (s\<lparr>s_queueMap := insert key (s_queueMap s)\<rparr>, None))"

definition queues_create :: "string \<Rightarrow> int option \<Rightarrow> server \<Rightarrow> server" where
  "queues_create key maxWorkers s =
     (let given = (case maxWorkers of Some m \<Rightarrow> m | None \<Rightarrow> 0);
          s = (if map_of (s_queues s) key = None
               then s\<lparr>s_queues := s_queues s @ [(key, if given \<noteq> 0 then given else 1)]\<rparr>
               else if given \<noteq> 0 then s\<lparr>s_queues := AList.update key given (s_queues s)\<rparr>
               else s)
      in s\<lparr>s_queueMap := insert key (s_queueMap s)\<rparr>)"

definition queues_delete :: "string \<Rightarrow> server \<Rightarrow> server \<times> bool" where
  "queues_delete key s =
     (if map_of (s_queues s) key \<noteq> None then (s\<lparr>s_queues := AList.delete key (s_queues s)\<rparr>, True) else (s, False))"

datatype schema_option = NoSchema | Schema "jsval \<Rightarrow> string + jsval" | BadSchema

record type_options =
  o_execute :: bool
  o_schema :: schema_option
  o_preprocess :: "(jsval \<Rightarrow> string + jsval) option"
  o_typeMaxFailures :: "jsval option"
  o_typeBackOff :: back_off

definition registerJobType :: "string \<Rightarrow> type_options \<Rightarrow> server \<Rightarrow> server \<times> queue_exc option" where
  "registerJobType type opts s =
     (if \<not> o_execute opts then (s, Some (QueueError ''Must provide a function to execute!''))
      else case o_schema opts of
        BadSchema \<Rightarrow> (s, Some (QueueError ''Schema must be a joi schema!''))
      | sch \<Rightarrow> (s\<lparr>s_jobTypes := AList.update type
           \<lparr>t_maxFailures = (case o_typeMaxFailures opts of None \<Rightarrow> JNum (Fin 0) | Some m \<Rightarrow> m),
            t_backOff = o_typeBackOff opts,
            t_validate = (case sch of Schema f \<Rightarrow> Some f | _ \<Rightarrow> None), t_preprocess = o_preprocess opts\<rparr> (s_jobTypes s)\<rparr>, None))"

definition getJobs :: "string option \<Rightarrow> string option \<Rightarrow> string option \<Rightarrow> server \<Rightarrow> string list" where
  "getJobs queue status type s =
     map (\<lambda>j. ''_jobs/'' @ j_key j) (sort_key j_delayUntil
       (filter (\<lambda>j. queue \<in> {None, Some (j_queue j)} \<and> status \<in> {None, Some (j_status j)}
          \<and> type \<in> {None, Some (j_type j)}) (s_jobs s)))"

record push_options =
  o_allowUnknown :: bool
  o_maxFailures :: jsval
  o_backOff :: back_off
  o_delayUntil :: "jsnum option"
  o_success :: "string option"
  o_failure :: "string option"

text \<open>The data that is stored: validated by the schema of the type and preprocessed.\<close>

definition push_data :: "string \<Rightarrow> jsval \<Rightarrow> bool \<Rightarrow> server \<Rightarrow> queue_exc + jsval" where
  "push_data name data allowUnknown s = (case map_of (s_jobTypes s) name of
      Some type \<Rightarrow>
        (case (case t_validate type of None \<Rightarrow> Inr data | Some f \<Rightarrow> f data) of
           Inl e \<Rightarrow> Inl (QueueError e)
         | Inr d \<Rightarrow> (case (case t_preprocess type of None \<Rightarrow> Inr d | Some f \<Rightarrow> f d) of
             Inl e \<Rightarrow> Inl (QueueError e) | Inr d \<Rightarrow> Inr d))
    | None \<Rightarrow> if allowUnknown then Inr data else Inl (QueueError (''Unknown job type: '' @ name)))"

definition new_job :: "string \<Rightarrow> string \<Rightarrow> string \<Rightarrow> jsval \<Rightarrow> push_options \<Rightarrow> jsnum \<Rightarrow> job" where
  "new_job key queue name data opts now =
     \<lparr>j_key = key, j_status = ''pending'', j_queue = queue, j_type = name, j_failures = [], j_data = data,
      j_created = now, j_modified = now,
      j_maxFailures = (if o_maxFailures opts = JNum PInf then JNum (Fin (- 1)) else o_maxFailures opts),
      j_backOff = (case o_backOff opts of BackOffFun src f \<Rightarrow> BackOffSource src | b \<Rightarrow> b),
      j_delayUntil = (case o_delayUntil opts of None \<Rightarrow> now | Some d \<Rightarrow> if js_truthy (JNum d) then d else now),
      j_onSuccess = o_success opts, j_onFailure = o_failure opts\<rparr>"

definition push :: "string \<Rightarrow> string \<Rightarrow> jsval \<Rightarrow> jsval \<Rightarrow> push_options \<Rightarrow> jsnum \<Rightarrow> server \<Rightarrow> server \<times> queue_exc option" where
  "push key queue name data opts now s = (case name of
      JStr n \<Rightarrow> (case push_data n data (o_allowUnknown opts) s of
          Inl e \<Rightarrow> (s, Some e)
        | Inr d \<Rightarrow> (s\<lparr>s_jobs := s_jobs s @ [new_job key queue n d opts now]\<rparr>, None))
    | _ \<Rightarrow> (s, Some (QueueError ''Must pass a job type!'')))"

definition abort :: "string \<Rightarrow> jsnum \<Rightarrow> server \<Rightarrow> server \<times> queue_exc option" where
  "abort key now s = (case List.find (\<lambda>j. j_key j = key) (s_jobs s) of
      None \<Rightarrow> (s, Some DocumentNotFound)
    | Some job \<Rightarrow>
        if j_status job \<noteq> ''completed''
        then update_job key (\<lambda>j. j\<lparr>j_status := ''failed'', j_modified := now, j_failures := j_failures job @ [''Job aborted.'']\<rparr>) s
        else (s, None))"

definition reset :: "string \<Rightarrow> server \<Rightarrow> server \<times> queue_exc option" where
  "reset key s = update_job key (\<lambda>j. j\<lparr>j_status := ''pending''\<rparr>) s"

definition delete_job :: "string \<Rightarrow> server \<Rightarrow> server \<times> bool" where
  "delete_job key s =
     (if has_job key s then (s\<lparr>s_jobs := filter (\<lambda>j. j_key j \<noteq> key) (s_jobs s)\<rparr>, True) else (s, False))"

subsection \<open>Events\<close>

datatype event =
    GetQueue string
  | CreateQueue string "int option"
  | DeleteQueue string
  | RegisterType string type_options
  | Push string string jsval jsval push_options jsnum
  | Abort string jsnum
  | Reset string
  | DeleteJob string
  | Manage jsnum
  | Work nat jsnum jsnum jsnum "string + jsval"
  | Restart

text \<open>The worker's task is the \<open>i\<close>-th of those that run.\<close>

definition finish_task :: "nat \<Rightarrow> server \<Rightarrow> server" where
  "finish_task i s = s\<lparr>s_tasks := take i (s_tasks s) @ drop (Suc i) (s_tasks s)\<rparr>"

fun handle :: "(string \<Rightarrow> nat \<Rightarrow> string + jsnum) \<Rightarrow> event \<Rightarrow> server \<Rightarrow> server" where
  "handle E (GetQueue key) s = fst (queues_get key s)"
| "handle E (CreateQueue key m) s = queues_create key m s"
| "handle E (DeleteQueue key) s = fst (queues_delete key s)"
| "handle E (RegisterType type opts) s = fst (registerJobType type opts s)"
| "handle E (Push key queue name data opts now) s = fst (push key queue name data opts now s)"
| "handle E (Abort key now) s = fst (abort key now s)"
| "handle E (Reset key) s = fst (reset key s)"
| "handle E (DeleteJob key) s = fst (delete_job key s)"
| "handle E (Manage now) s = manage now s"
| "handle E (Work i now finished random outcome) s =
     fst (work E now finished random outcome (s_tasks s ! i) (finish_task i s))"
| "handle E Restart s = queues_create ''default'' None (run (s\<lparr>s_tasks := [], s_jobTypes := [], s_queueMap := {}\<rparr>))"

definition initial :: server where
  "initial = queues_create ''default'' None \<lparr>s_queues = [], s_jobs = [], s_queueMap = {}, s_jobTypes = [], s_tasks = []\<rparr>"

text \<open>What the database and the task scheduler guarantee of an event.\<close>

fun possible :: "server \<Rightarrow> event \<Rightarrow> bool" where
  "possible s (Push key queue name data opts now) \<longleftrightarrow> key \<notin> j_key ` (set (s_jobs s) \<union> set (s_tasks s))"
| "possible s (Work i now finished random outcome) \<longleftrightarrow> i < length (s_tasks s)"
| "possible s _ \<longleftrightarrow> True"

text \<open>The states of a server whose users keep to \<open>allowed\<close>.\<close>

inductive queue_reach :: "(string \<Rightarrow> nat \<Rightarrow> string + jsnum) \<Rightarrow> (server \<Rightarrow> event \<Rightarrow> bool) \<Rightarrow> server \<Rightarrow> bool" for E allowed where
  reach_initial: "queue_reach E allowed initial"
| reach_step: "queue_reach E allowed s \<Longrightarrow> possible s e \<Longrightarrow> allowed s e \<Longrightarrow> queue_reach E allowed (handle E e s)"

subsection \<open>What an event changes\<close>

lemma update_job_jobs: "s_jobs (fst (update_job k f s)) = map (\<lambda>j. if j_key j = k then f j else j) (s_jobs s)"
proof (cases "has_job k s")
  case False
  then have "map (\<lambda>j. if j_key j = k then f j else j) (s_jobs s) = map id (s_jobs s)"
    by (intro map_cong) (auto simp: has_job_def)
  then show ?thesis using False by (simp add: update_job_def)
qed (simp add: update_job_def)

lemma update_job_rest [simp]:
  "s_queues (fst (update_job k f s)) = s_queues s" "s_queueMap (fst (update_job k f s)) = s_queueMap s"
  "s_jobTypes (fst (update_job k f s)) = s_jobTypes s" "s_tasks (fst (update_job k f s)) = s_tasks s"
  by (simp_all add: update_job_def)

lemma start_job_simps [simp]:
  "s_jobs (start_job s d) = map (\<lambda>j. if j_key j = j_key d then j\<lparr>j_status := ''progress''\<rparr> else j) (s_jobs s)"
  "s_tasks (start_job s d) = s_tasks s @ [d\<lparr>j_status := ''progress''\<rparr>]"
  "s_queues (start_job s d) = s_queues s"
  by (simp_all add: start_job_def update_job_jobs Let_def)

text \<open>A run of the worker changes one job, which it leaves in no progress, and no queue or task.\<close>

lemma work_effect:
  obtains f where "s_jobs (fst (work E now finished random outcome t s)) = map (\<lambda>j. if j_key j = j_key t then f j else j) (s_jobs s)"
    and "s_queues (fst (work E now finished random outcome t s)) = s_queues s"
    and "s_tasks (fst (work E now finished random outcome t s)) = s_tasks s"
    and "\<And>j. j_key (f j) = j_key j \<and> j_maxFailures (f j) = j_maxFailures j \<and> j_queue (f j) = j_queue j
      \<and> j_status (f j) \<noteq> ''progress''
      \<and> (j_failures (f j) = j_failures j
         \<or> (\<exists>err cfg. j_failures (f j) = j_failures t @ [err]
            \<and> (j_status (f j) = ''pending'' \<longrightarrow> \<not> js_lt (max_failures (j_maxFailures t) cfg) (JNum (Fin (of_nat (Suc (length (j_failures t)))))))))"
proof (cases "map_of (s_jobTypes s) (j_type t)")
  case None
  show ?thesis
    by (rule that [of "\<lambda>j. j\<lparr>j_status := ''pending''\<rparr>"]) (use None in \<open>simp_all add: work_def update_job_jobs case_prod_beta Let_def\<close>)
next
  case (Some cfg)
  show ?thesis
  proof (cases outcome)
    case (Inr result)
    show ?thesis
      by (rule that [of "\<lambda>j. j\<lparr>j_modified := finished, j_status := ''complete''\<rparr>"])
        (use Some Inr in \<open>simp_all add: work_def update_job_jobs case_prod_beta Let_def\<close>)
  next
    case (Inl err)
    let ?t = "t\<lparr>j_failures := j_failures t @ [err]\<rparr>"
    show ?thesis
    proof (cases "js_lt (max_failures (j_maxFailures t) (t_maxFailures cfg)) (JNum (Fin (of_nat (Suc (length (j_failures t))))))")
      case True
      show ?thesis
        by (rule that [of "\<lambda>j. j\<lparr>j_modified := now, j_failures := j_failures t @ [err], j_status := ''failed''\<rparr>"])
          (use Some Inl True in \<open>simp_all add: work_def update_job_jobs case_prod_beta Let_def\<close>)
    next
      case False
      show ?thesis
        by (rule that [of "\<lambda>j. j\<lparr>j_modified := now, j_delayUntil := num_add now (getBackOffDelay E random ?t cfg),
              j_failures := j_failures t @ [err], j_status := ''pending''\<rparr>"])
          (use Some Inl False in \<open>auto simp: work_def update_job_jobs case_prod_beta Let_def\<close>)
    qed
  qed
qed

definition unique_keys :: "server \<Rightarrow> bool" where
  "unique_keys s \<longleftrightarrow> distinct (map j_key (s_jobs s)) \<and> distinct (map fst (s_queues s))"

lemma map_key_update: "(\<And>j. j_key (f j) = j_key j) \<Longrightarrow>
  map j_key (map (\<lambda>j. if j_key j = k then f j else j) xs) = map j_key xs"
  by simp

lemma filter_update_le:
  "(\<And>j. P (f j) \<Longrightarrow> P j) \<Longrightarrow> length (filter P (map (\<lambda>j. if j_key j = k then f j else j) xs)) \<le> length (filter P xs)"
  by (induction xs) auto

lemma filter_update_one:
  assumes "distinct (map j_key xs)" "d \<in> set xs" "\<not> P d" "P (f d)"
  shows "length (filter P (map (\<lambda>j. if j_key j = j_key d then f j else j) xs)) = Suc (length (filter P xs))"
  using assms
proof (induction xs)
  case (Cons x xs)
  show ?case
  proof (cases "x = d")
    case True
    then have "map (\<lambda>j. if j_key j = j_key d then f j else j) xs = xs"
      using Cons.prems(1) by (intro map_idI) (force simp: image_iff)
    then show ?thesis using True Cons.prems by simp
  next
    case False
    then have "j_key x \<noteq> j_key d" using Cons.prems(1,2) by force
    then show ?thesis using False Cons by simp
  qed
qed simp

lemma filter_update_same:
  assumes "distinct (map j_key xs)" "d \<in> set xs" "\<not> P d" "\<not> P (f d)"
  shows "filter P (map (\<lambda>j. if j_key j = j_key d then f j else j) xs) = filter P xs"
  using assms
proof (induction xs)
  case (Cons x xs)
  show ?case
  proof (cases "x = d")
    case True
    then have "map (\<lambda>j. if j_key j = j_key d then f j else j) xs = xs"
      using Cons.prems(1) by (intro map_idI) (force simp: image_iff)
    then show ?thesis using True Cons.prems by simp
  next
    case False
    then have "j_key x \<noteq> j_key d" using Cons.prems(1,2) by force
    then show ?thesis using False Cons by simp
  qed
qed simp

text \<open>Jobs that can be started together: they wait in the queue, and no key occurs twice.\<close>

definition startable :: "string \<Rightarrow> server \<Rightarrow> job list \<Rightarrow> bool" where
  "startable q s docs \<longleftrightarrow> distinct (map j_key (s_jobs s)) \<and> distinct (map j_key docs)
     \<and> (\<forall>d \<in> set docs. d \<in> set (s_jobs s) \<and> j_queue d = q \<and> j_status d = ''pending'')"

lemma startable_Cons:
  assumes "startable q s (d # docs)" shows "startable q (start_job s d) docs"
proof -
  have "j_key d \<notin> j_key ` set docs" using assms by (simp add: startable_def)
  then have "\<forall>e \<in> set docs. j_key e \<noteq> j_key d" by (metis imageI)
  then have "\<forall>e \<in> set docs. e \<in> set (s_jobs (start_job s d))"
    using assms by (force simp: startable_def)
  then show ?thesis using assms by (simp add: startable_def comp_def if_distrib cong: if_cong)
qed

lemma start_jobs_busy:
  "startable q s docs \<Longrightarrow> numBusy q (foldl start_job s docs) = numBusy q s + length docs
    \<and> (\<forall>q'. q' \<noteq> q \<longrightarrow> numBusy q' (foldl start_job s docs) = numBusy q' s
        \<and> (\<forall>now. filter (due now q') (s_jobs (foldl start_job s docs)) = filter (due now q') (s_jobs s)))
    \<and> s_queues (foldl start_job s docs) = s_queues s
    \<and> map j_key (s_jobs (foldl start_job s docs)) = map j_key (s_jobs s)"
proof (induction docs arbitrary: s)
  case (Cons d docs)
  have d: "distinct (map j_key (s_jobs s))" "d \<in> set (s_jobs s)" "j_queue d = q" "j_status d = ''pending''"
    using Cons.prems by (auto simp: startable_def)
  note ih = Cons.IH [OF startable_Cons [OF Cons.prems]]
  have "numBusy q (start_job s d) = Suc (numBusy q s)"
    unfolding numBusy_def start_job_simps by (rule filter_update_one [OF d(1,2)]) (simp_all add: in_progress_def d)
  moreover have "numBusy q' (start_job s d) = numBusy q' s" if "q' \<noteq> q" for q'
    unfolding numBusy_def start_job_simps using that
    by (subst filter_update_same [OF d(1,2)]) (simp_all add: in_progress_def d)
  moreover have "filter (due now q') (s_jobs (start_job s d)) = filter (due now q') (s_jobs s)" if "q' \<noteq> q" for q' now
    unfolding start_job_simps using that by (subst filter_update_same [OF d(1,2)]) (simp_all add: due_def d)
  moreover have "map j_key (s_jobs (start_job s d)) = map j_key (s_jobs s)" by simp
  ultimately show ?case using ih by simp
qed simp

lemma jobs_to_start_startable: "unique_keys s \<Longrightarrow> startable q s (jobs_to_start now q m s)"
  by (auto simp: startable_def unique_keys_def jobs_to_start_def due_def distinct_map take_map [symmetric]
      intro: inj_on_subset dest!: in_set_takeD)

lemma manage_queue_busy:
  assumes "unique_keys s"
  shows "numBusy q (manage_queue now s (q, m)) = numBusy q s + length (jobs_to_start now q m s)"
    and "q' \<noteq> q \<Longrightarrow> numBusy q' (manage_queue now s (q, m)) = numBusy q' s"
    and "q' \<noteq> q \<Longrightarrow> filter (due now q') (s_jobs (manage_queue now s (q, m))) = filter (due now q') (s_jobs s)"
    and "s_queues (manage_queue now s (q, m)) = s_queues s"
    and "unique_keys (manage_queue now s (q, m))"
  using start_jobs_busy [OF jobs_to_start_startable [OF assms]] assms
  by (simp_all add: manage_queue_def unique_keys_def)

lemma manage_invariant:
  assumes "I s" "\<And>s q m. I s \<Longrightarrow> (q, m) \<in> set (s_queues s) \<Longrightarrow> I (manage_queue now s (q, m))"
    and "\<And>s q m. I s \<Longrightarrow> s_queues (manage_queue now s (q, m)) = s_queues s"
  shows "I (manage now s) \<and> s_queues (manage now s) = s_queues s"
proof -
  have "I (foldl (manage_queue now) s qs) \<and> s_queues (foldl (manage_queue now) s qs) = s_queues s"
    if "set qs \<subseteq> set (s_queues s)" "I s" for qs s
    using that
  proof (induction qs arbitrary: s)
    case (Cons a qs)
    obtain q m where a: "a = (q, m)" by fastforce
    have "I (manage_queue now s a)" "s_queues (manage_queue now s a) = s_queues s"
      using Cons.prems assms(2,3) by (auto simp: a)
    then show ?case using Cons by (metis foldl_Cons insert_subset list.simps(15))
  qed simp
  then show ?thesis using assms(1) by (simp add: manage_def)
qed

end
