(* ===== verification/Foxx_Invariants.thy ===== *)
theory Foxx_Invariants
  imports Foxx_Queues
begin

text \<open>
  What holds of the job queues however their events interleave: the limits of the queues, exclusive runs of
  a job and the number of its failures; and the runs in which the interface breaks them.
\<close>

subsection \<open>Invariants\<close>

text \<open>A property that every event of a well-behaved user keeps holds of all states.\<close>

locale safe_machine =
  fixes E :: "string \<Rightarrow> nat \<Rightarrow> string + jsnum" and allowed :: "server \<Rightarrow> event \<Rightarrow> bool" and I :: "server \<Rightarrow> bool"
  assumes safe_initial: "I initial"
    and safe_step: "I s \<Longrightarrow> possible s e \<Longrightarrow> allowed s e \<Longrightarrow> I (handle E e s)"
begin

lemma reach_safe: "queue_reach E allowed s \<Longrightarrow> I s"
  by (induction rule: queue_reach.induct) (auto intro: safe_initial safe_step)

end

text \<open>
  Nobody sets the limit of a queue below the number of its running jobs. \<open>create\<close> without a limit, or with
  \<open>0\<close>, sets the limit of a new queue to \<open>1\<close> and leaves that of an existing queue alone.
\<close>

fun keeps_limits :: "server \<Rightarrow> event \<Rightarrow> bool" where
  "keeps_limits s (CreateQueue key m) \<longleftrightarrow>
     (case m of
        Some w \<Rightarrow> if w \<noteq> 0 then int (numBusy key s) \<le> w else map_of (s_queues s) key = None \<longrightarrow> numBusy key s \<le> 1
      | None \<Rightarrow> map_of (s_queues s) key = None \<longrightarrow> numBusy key s \<le> 1)"
| "keeps_limits s _ \<longleftrightarrow> True"

definition within_limits :: "server \<Rightarrow> bool" where
  "within_limits s \<longleftrightarrow> unique_keys s \<and> (\<forall>(q, m) \<in> set (s_queues s). int (numBusy q s) \<le> max m 0)"

lemma finish_task_fields [simp]: "s_jobs (finish_task i s) = s_jobs s" "s_queues (finish_task i s) = s_queues s"
  "s_jobTypes (finish_task i s) = s_jobTypes s"
  by (simp_all add: finish_task_def)

lemma update_job_unique [simp]:
  "(\<And>j. j_key (f j) = j_key j) \<Longrightarrow> unique_keys (fst (update_job k f s)) = unique_keys s"
  by (simp add: unique_keys_def update_job_jobs comp_def if_distrib cong: if_cong)

lemma unique_keys_jobs:
  "map j_key (s_jobs s') = map j_key (s_jobs s) \<Longrightarrow> s_queues s' = s_queues s \<Longrightarrow> unique_keys s \<Longrightarrow> unique_keys s'"
  by (simp add: unique_keys_def)

lemma abort_cases:
  "fst (abort key now s) = s \<or>
   (\<exists>fs. fst (abort key now s) = fst (update_job key (\<lambda>j. j\<lparr>j_status := ''failed'', j_modified := now, j_failures := fs\<rparr>) s))"
  by (auto simp: abort_def split: option.split)

lemma push_cases:
  "fst (push key queue name data opts now s) = s \<or>
   (\<exists>n d. fst (push key queue name data opts now s) = s\<lparr>s_jobs := s_jobs s @ [new_job key queue n d opts now]\<rparr>)"
  by (auto simp: push_def split: sum.split jsval.split)

lemma register_fields [simp]:
  "s_jobs (fst (registerJobType t o0 s)) = s_jobs s" "s_tasks (fst (registerJobType t o0 s)) = s_tasks s"
  "s_queues (fst (registerJobType t o0 s)) = s_queues s"
  by (auto simp: registerJobType_def split: schema_option.splits)

lemma create_fields [simp]:
  "s_jobs (queues_create key m s) = s_jobs s" "s_tasks (queues_create key m s) = s_tasks s"
  by (simp_all add: queues_create_def Let_def)

lemma create_unique: "unique_keys s \<Longrightarrow> unique_keys (queues_create key m s)"
  by (auto simp: unique_keys_def queues_create_def Let_def distinct_update map_of_eq_None_iff)

lemma handle_unique:
  assumes "unique_keys s" "possible s e" shows "unique_keys (handle E e s)"
proof (cases e)
  case (Push key queue name data opts now)
  show ?thesis
    using push_cases [of key queue name data opts now s] assms by (auto simp: Push unique_keys_def new_job_def)
next
  case (Abort key now)
  show ?thesis using abort_cases [of key now s] assms by (auto simp: Abort)
next
  case (DeleteJob key)
  show ?thesis using assms by (auto simp: DeleteJob delete_job_def unique_keys_def distinct_map_filter)
next
  case (Work i now finished random outcome)
  obtain f where "s_jobs (fst (work E now finished random outcome (s_tasks s ! i) (finish_task i s)))
      = map (\<lambda>j. if j_key j = j_key (s_tasks s ! i) then f j else j) (s_jobs (finish_task i s))"
    "s_queues (fst (work E now finished random outcome (s_tasks s ! i) (finish_task i s))) = s_queues (finish_task i s)"
    "\<And>j. j_key (f j) = j_key j"
    by (rule work_effect [of E now finished random outcome "s_tasks s ! i" "finish_task i s"]) blast
  then show ?thesis
    using assms by (simp add: Work unique_keys_def comp_def if_distrib cong: if_cong)
next
  case (Manage now)
  show ?thesis
    using manage_invariant [of unique_keys s now] manage_queue_busy assms by (simp add: Manage)
next
  case Restart
  show ?thesis
    using assms by (simp add: Restart, intro create_unique) (simp add: unique_keys_def run_def comp_def if_distrib cong: if_cong)
next
  case (DeleteQueue key)
  show ?thesis using assms by (auto simp: DeleteQueue queues_delete_def unique_keys_def distinct_delete)
next
  case (GetQueue key)
  show ?thesis using assms by (simp add: GetQueue queues_get_def unique_keys_def)
next
  case (RegisterType t o0)
  show ?thesis using assms by (simp add: RegisterType unique_keys_def)
next
  case (CreateQueue key m)
  show ?thesis using assms by (simp add: CreateQueue create_unique)
next
  case (Reset key)
  show ?thesis using assms by (simp add: Reset reset_def)
qed

subsubsection \<open>Limits of the queues\<close>

lemma numBusy_update_le:
  "(\<And>j. j_status (f j) \<noteq> ''progress'') \<Longrightarrow> s_jobs s' = map (\<lambda>j. if j_key j = k then f j else j) (s_jobs s)
    \<Longrightarrow> numBusy q s' \<le> numBusy q s"
  unfolding numBusy_def by (simp only:) (rule filter_update_le, simp add: in_progress_def)

lemma filter_both_le: "length (filter (\<lambda>x. Q x \<and> P x) xs) \<le> length (filter P xs)"
  by (induction xs) auto

lemma numBusy_jobs: "s_jobs s' = s_jobs s \<Longrightarrow> numBusy q s' = numBusy q s"
  by (simp add: numBusy_def)

text \<open>Events other than those of the manager and \<open>create\<close> start no job and change no limit.\<close>

lemma handle_busy_le:
  assumes "\<And>now. e \<noteq> Manage now"
  shows "numBusy q (handle E e s) \<le> numBusy q s"
proof (cases e)
  case (Push key queue name data opts now)
  show ?thesis
    using push_cases [of key queue name data opts now s] by (auto simp: Push numBusy_def in_progress_def new_job_def)
next
  case (Abort key now)
  show ?thesis
    using abort_cases [of key now s]
  proof (elim disjE exE)
    fix fs assume "fst (abort key now s) = fst (update_job key (\<lambda>j. j\<lparr>j_status := ''failed'', j_modified := now, j_failures := fs\<rparr>) s)"
    then show ?thesis by (simp add: Abort) (rule numBusy_update_le [OF _ update_job_jobs], simp)
  qed (simp add: Abort)
next
  case (Reset key)
  show ?thesis by (simp add: Reset reset_def) (rule numBusy_update_le [OF _ update_job_jobs], simp)
next
  case (DeleteJob key)
  show ?thesis by (simp add: DeleteJob delete_job_def numBusy_def filter_both_le)
next
  case (Work i now finished random outcome)
  obtain f where f: "s_jobs (fst (work E now finished random outcome (s_tasks s ! i) (finish_task i s)))
      = map (\<lambda>j. if j_key j = j_key (s_tasks s ! i) then f j else j) (s_jobs (finish_task i s))"
    "\<And>j. j_status (f j) \<noteq> ''progress''"
    by (rule work_effect [of E now finished random outcome "s_tasks s ! i" "finish_task i s"]) blast
  show ?thesis by (simp add: Work) (rule numBusy_update_le [where f = f and k = "j_key (s_tasks s ! i)", OF f(2)], simp add: f(1))
next
  case Restart
  show ?thesis by (simp add: Restart numBusy_def run_def in_progress_def filter_map comp_def)
qed (use assms in \<open>simp_all add: numBusy_def queues_get_def queues_delete_def\<close>)

lemma handle_queues:
  assumes "\<And>now. e \<noteq> Manage now"
  shows "s_queues (handle E e s) = s_queues s \<or> (\<exists>key. e = DeleteQueue key) \<or> (\<exists>key m. e = CreateQueue key m) \<or> e = Restart"
proof (cases e)
  case (Work i now finished random outcome)
  show ?thesis
    by (rule work_effect [of E now finished random outcome "s_tasks s ! i" "finish_task i s"]) (simp add: Work)
next
  case (Push key queue name data opts now)
  show ?thesis using push_cases [of key queue name data opts now s] by (auto simp: Push)
next
  case (Abort key now)
  show ?thesis using abort_cases [of key now s] by (auto simp: Abort)
qed (use assms in \<open>simp_all add: queues_get_def reset_def delete_job_def\<close>)

lemma manage_queue_limits:
  assumes "within_limits s" "(q, m) \<in> set (s_queues s)"
  shows "within_limits (manage_queue now s (q, m))"
proof -
  have u: "unique_keys s" using assms(1) by (simp add: within_limits_def)
  note busy = manage_queue_busy [OF u]
  have "length (jobs_to_start now q m s) \<le> nat (m - int (numBusy q s))"
    by (simp add: jobs_to_start_def)
  then have "int (numBusy q (manage_queue now s (q, m))) \<le> max m (int (numBusy q s))" by (simp add: busy(1))
  moreover have "n = m" if "(q, n) \<in> set (s_queues s)" for n
    using that assms(2) u by (metis unique_keys_def eq_key_imp_eq_value)
  ultimately have "int (numBusy r (manage_queue now s (q, m))) \<le> max n 0" if "(r, n) \<in> set (s_queues s)" for r n
    using that assms(1) busy(2) [of r q now m] by (cases "r = q") (force simp: within_limits_def)+
  then show ?thesis using busy(4,5) by (auto simp: within_limits_def)
qed

lemma in_set_update: "(a, b) \<in> set (AList.update k v al) \<Longrightarrow> (a = k \<and> b = v) \<or> (a, b) \<in> set al"
  by (induction al) (auto split: if_splits)

lemma create_limits:
  assumes "within_limits s" "keeps_limits s (CreateQueue key m)"
  shows "within_limits (queues_create key m s)"
proof -
  have "unique_keys (queues_create key m s)" using assms(1) by (simp add: within_limits_def create_unique)
  moreover have "int (numBusy q s) \<le> max n 0" if "(q, n) \<in> set (s_queues (queues_create key m s))" for q n
    using that assms
    by (cases m) (auto simp: within_limits_def queues_create_def Let_def split: if_splits dest!: in_set_update)
  ultimately show ?thesis by (auto simp: within_limits_def numBusy_def)
qed

interpretation limits: safe_machine E keeps_limits within_limits for E
proof
  show "within_limits initial"
    by (simp add: within_limits_def initial_def queues_create_def unique_keys_def numBusy_def Let_def)
next
  fix s e assume *: "within_limits s" "possible s e" "keeps_limits s e"
  show "within_limits (handle E e s)"
  proof (cases "\<exists>now. e = Manage now")
    case True
    then obtain now where now: "e = Manage now" ..
    have "within_limits (manage now s)"
      by (rule manage_invariant [where I = within_limits, THEN conjunct1, OF *(1)])
        (rule manage_queue_limits, assumption+, simp add: within_limits_def manage_queue_busy(4))
    then show ?thesis by (simp add: now)
  next
    case False
    then have busy: "int (numBusy q (handle E e s)) \<le> int (numBusy q s)" for q
      by (simp add: handle_busy_le)
    have u: "unique_keys (handle E e s)" using * by (simp add: within_limits_def handle_unique)
    have keep: "within_limits (handle E e s)" if sub: "set (s_queues (handle E e s)) \<subseteq> set (s_queues s)"
    proof -
      have "int (numBusy q (handle E e s)) \<le> max m 0" if m: "(q, m) \<in> set (s_queues (handle E e s))" for q m
      proof -
        have "(q, m) \<in> set (s_queues s)" using m sub by blast
        then have "int (numBusy q s) \<le> max m 0" using *(1) by (auto simp: within_limits_def)
        then show ?thesis using busy [of q] by linarith
      qed
      then show ?thesis using u by (simp add: within_limits_def case_prod_beta)
    qed
    consider "s_queues (handle E e s) = s_queues s" | key where "e = DeleteQueue key" | key m where "e = CreateQueue key m" | "e = Restart"
      using handle_queues [of e E s] False by blast
    then show ?thesis
    proof cases
      case 1
      then show ?thesis by (simp add: keep)
    next
      case 2
      then show ?thesis
        by (intro keep) (auto simp: queues_delete_def AList.delete_eq)
    next
      case 3
      then show ?thesis using create_limits *(1,3) by simp
    next
      case 4
      have idle: "numBusy q (run (s\<lparr>s_tasks := [], s_jobTypes := [], s_queueMap := {}\<rparr>)) = 0" for q
        by (simp add: numBusy_def run_def in_progress_def filter_map comp_def filter_False)
      have "unique_keys (run (s\<lparr>s_tasks := [], s_jobTypes := [], s_queueMap := {}\<rparr>))"
        using *(1) by (simp add: within_limits_def unique_keys_def run_def comp_def if_distrib cong: if_cong)
      then have "within_limits (run (s\<lparr>s_tasks := [], s_jobTypes := [], s_queueMap := {}\<rparr>))"
        using idle by (auto simp: within_limits_def)
      then show ?thesis using 4 idle by (simp add: create_limits)
    qed
  qed
qed

subsubsection \<open>Exclusive runs\<close>

text \<open>Nobody aborts or resets a job.\<close>

fun no_interference :: "server \<Rightarrow> event \<Rightarrow> bool" where
  "no_interference s (Abort key now) \<longleftrightarrow> False"
| "no_interference s (Reset key) \<longleftrightarrow> False"
| "no_interference s _ \<longleftrightarrow> True"

definition exclusive :: "server \<Rightarrow> bool" where
  "exclusive s \<longleftrightarrow> unique_keys s \<and> distinct (map j_key (s_tasks s))
     \<and> (\<forall>j \<in> set (s_jobs s). (j_status j = ''progress'') = (j_key j \<in> j_key ` set (s_tasks s)))"

lemma ball_update: "(\<forall>j \<in> set (map (\<lambda>j. if j_key j = k then f j else j) xs). P j) \<longleftrightarrow> (\<forall>j \<in> set xs. P (if j_key j = k then f j else j))"
  by (induction xs) simp_all

lemma unique_job: "unique_keys s \<Longrightarrow> i \<in> set (s_jobs s) \<Longrightarrow> j \<in> set (s_jobs s) \<Longrightarrow> j_key i = j_key j \<Longrightarrow> i = j"
  by (auto simp: unique_keys_def distinct_map dest: inj_onD)

lemma start_job_unique: "unique_keys s \<Longrightarrow> unique_keys (start_job s d)"
  by (simp add: unique_keys_def comp_def if_distrib cong: if_cong)

lemma start_job_exclusive:
  assumes "exclusive s" "d \<in> set (s_jobs s)" "j_status d = ''pending''"
  shows "exclusive (start_job s d)"
proof -
  have "j_key d \<notin> j_key ` set (s_tasks s)" using assms by (auto simp: exclusive_def)
  then have "distinct (map j_key (s_tasks (start_job s d)))" using assms(1) by (simp add: exclusive_def)
  moreover have "unique_keys (start_job s d)" using assms(1) start_job_unique by (simp add: exclusive_def)
  moreover have "\<forall>j \<in> set (s_jobs (start_job s d)). (j_status j = ''progress'') = (j_key j \<in> j_key ` set (s_tasks (start_job s d)))"
    using assms(1) unfolding exclusive_def start_job_simps ball_update by simp
  ultimately show ?thesis by (simp add: exclusive_def)
qed

lemma start_jobs_invariant:
  assumes "\<And>s d. I s \<Longrightarrow> d \<in> set (s_jobs s) \<Longrightarrow> j_status d = ''pending'' \<Longrightarrow> I (start_job s d)"
  shows "startable q s docs \<Longrightarrow> I s \<Longrightarrow> I (foldl start_job s docs)"
proof (induction docs arbitrary: s)
  case (Cons d docs)
  then have "I (start_job s d)" by (intro assms) (auto simp: startable_def)
  then show ?case using Cons.IH startable_Cons [OF Cons.prems(1)] by simp
qed simp

lemma manage_keeps:
  assumes "\<And>s d. I s \<Longrightarrow> d \<in> set (s_jobs s) \<Longrightarrow> j_status d = ''pending'' \<Longrightarrow> I (start_job s d)"
    and "\<And>s. I s \<Longrightarrow> unique_keys s" "I s"
  shows "I (manage now s)"
proof (rule manage_invariant [where I = I, THEN conjunct1, OF assms(3)])
  show "I (manage_queue now s (q, m))" if "I s" for s q m
  proof -
    have "startable q s (jobs_to_start now q m s)" using assms(2) [OF that] by (rule jobs_to_start_startable)
    then have "I (foldl start_job s (jobs_to_start now q m s))"
      by (rule start_jobs_invariant [where I = I, rotated]) (fact that, rule assms(1))
    then show ?thesis by (simp add: manage_queue_def)
  qed
qed (simp add: manage_queue_busy(4) assms(2))

lemma remove_nth_distinct:
  assumes "i < length xs" "distinct (map f xs)"
  shows "distinct (map f (take i xs @ drop (Suc i) xs))" "f (xs ! i) \<notin> f ` set (take i xs @ drop (Suc i) xs)"
proof -
  have "distinct (map f (take i xs @ xs ! i # drop (Suc i) xs))" by (metis assms id_take_nth_drop)
  then show "distinct (map f (take i xs @ drop (Suc i) xs))" "f (xs ! i) \<notin> f ` set (take i xs @ drop (Suc i) xs)" by auto
qed

lemma set_remove_nth: "i < length xs \<Longrightarrow> set xs = insert (xs ! i) (set (take i xs @ drop (Suc i) xs))"
  using arg_cong [OF id_take_nth_drop [of i xs], of set] by simp

lemma finish_task_keys:
  assumes "i < length (s_tasks s)" "distinct (map j_key (s_tasks s))"
  shows "distinct (map j_key (s_tasks (finish_task i s)))"
    "j_key ` set (s_tasks (finish_task i s)) = j_key ` set (s_tasks s) - {j_key (s_tasks s ! i)}"
    "set (s_tasks (finish_task i s)) \<subseteq> set (s_tasks s)"
proof -
  have t: "s_tasks (finish_task i s) = take i (s_tasks s) @ drop (Suc i) (s_tasks s)" by (simp add: finish_task_def)
  note all = set_remove_nth [OF assms(1), folded t]
  show "distinct (map j_key (s_tasks (finish_task i s)))" unfolding t by (rule remove_nth_distinct [OF assms])
  have "j_key (s_tasks s ! i) \<notin> j_key ` set (s_tasks (finish_task i s))" unfolding t by (rule remove_nth_distinct [OF assms])
  then show "j_key ` set (s_tasks (finish_task i s)) = j_key ` set (s_tasks s) - {j_key (s_tasks s ! i)}"
    unfolding all by simp
  show "set (s_tasks (finish_task i s)) \<subseteq> set (s_tasks s)" unfolding all by (rule subset_insertI)
qed

lemma push_exclusive:
  "exclusive s \<Longrightarrow> possible s (Push key queue name data opts now) \<Longrightarrow> exclusive (fst (push key queue name data opts now s))"
  using push_cases [of key queue name data opts now s] by (auto simp: exclusive_def unique_keys_def new_job_def)

lemma exclusive_step:
  assumes "exclusive s" "possible s e" "no_interference s e" shows "exclusive (handle E e s)"
proof (cases e)
  case (Manage now)
  show ?thesis
    unfolding Manage handle.simps
    by (rule manage_keeps [where I = exclusive, OF start_job_exclusive _ assms(1)]) (simp_all add: exclusive_def)
next
  case (Work i now finished random outcome)
  obtain f where f: "s_jobs (fst (work E now finished random outcome (s_tasks s ! i) (finish_task i s)))
      = map (\<lambda>j. if j_key j = j_key (s_tasks s ! i) then f j else j) (s_jobs (finish_task i s))"
    "s_tasks (fst (work E now finished random outcome (s_tasks s ! i) (finish_task i s))) = s_tasks (finish_task i s)"
    "\<And>j. j_key (f j) = j_key j \<and> j_status (f j) \<noteq> ''progress''"
    by (rule work_effect [of E now finished random outcome "s_tasks s ! i" "finish_task i s"]) blast
  have "unique_keys (handle E e s)" using assms by (simp add: exclusive_def handle_unique)
  moreover have "s_jobs (finish_task i s) = s_jobs s" by (simp add: finish_task_def)
  ultimately show ?thesis
    using assms f finish_task_keys [of i s] by (auto simp: Work exclusive_def)
next
  case (Push key queue name data opts now)
  show ?thesis using push_exclusive assms by (simp add: Push)
next
  case (DeleteJob key)
  show ?thesis using assms handle_unique [of s e] by (auto simp: DeleteJob exclusive_def delete_job_def)
next
  case Restart
  have "unique_keys (handle E e s)" using assms by (simp add: exclusive_def handle_unique)
  then show ?thesis by (auto simp: Restart exclusive_def run_def)
next
  case (DeleteQueue key)
  show ?thesis using assms handle_unique [of s e E] by (auto simp: DeleteQueue exclusive_def queues_delete_def)
qed (use assms handle_unique [of s e E] in \<open>auto simp: exclusive_def queues_get_def\<close>)

lemma exclusive_initial: "exclusive initial"
  by (simp add: exclusive_def unique_keys_def initial_def queues_create_def Let_def)

interpretation keys: safe_machine E allowed unique_keys for E allowed
  by unfold_locales (simp_all add: handle_unique, simp add: unique_keys_def initial_def queues_create_def Let_def)

interpretation runs: safe_machine E no_interference exclusive for E
  by unfold_locales (rule exclusive_initial, rule exclusive_step)

subsubsection \<open>Number of failures\<close>

definition retry_ok :: "job \<Rightarrow> bool" where
  "retry_ok j \<longleftrightarrow> (case j_maxFailures j of
      JNum (Fin n) \<Rightarrow> 0 \<le> n \<longrightarrow> of_nat (length (j_failures j)) \<le> n + 1
        \<and> (j_status j \<in> {''pending'', ''progress''} \<longrightarrow> of_nat (length (j_failures j)) \<le> n)
    | _ \<Rightarrow> True)"

definition retries_bounded :: "server \<Rightarrow> bool" where
  "retries_bounded s \<longleftrightarrow> exclusive s \<and> (\<forall>j \<in> set (s_jobs s). retry_ok j)
     \<and> (\<forall>t \<in> set (s_tasks s). retry_ok t \<and> j_status t = ''progress''
         \<and> (\<forall>j \<in> set (s_jobs s). j_key j = j_key t \<longrightarrow> j_maxFailures j = j_maxFailures t))"

lemma max_failures_own: "0 \<le> n \<Longrightarrow> max_failures (JNum (Fin n)) c = JNum (Fin n)"
  by (simp add: max_failures_def Let_def)

lemma retry_ok_status:
  "retry_ok j \<Longrightarrow> j_status j \<in> {''pending'', ''progress''} \<Longrightarrow> retry_ok (j\<lparr>j_status := st\<rparr>)"
  by (auto simp: retry_ok_def split: jsval.splits jsnum.splits)

lemma start_job_bounded:
  assumes "retries_bounded s" "d \<in> set (s_jobs s)" "j_status d = ''pending''"
  shows "retries_bounded (start_job s d)"
proof -
  have "exclusive (start_job s d)" using assms start_job_exclusive by (simp add: retries_bounded_def)
  moreover have "retry_ok (d\<lparr>j_status := ''progress''\<rparr>)"
    using assms by (intro retry_ok_status) (auto simp: retries_bounded_def)
  moreover have same: "\<forall>j \<in> set (s_jobs s). j_key j = j_key d \<longrightarrow> j = d"
    using assms unique_job [of s _ d] by (auto simp: retries_bounded_def exclusive_def)
  moreover have "\<forall>j \<in> set (s_jobs s). j_key j = j_key d \<longrightarrow> j_maxFailures j = j_maxFailures d"
    using same by blast
  ultimately show ?thesis using assms(1) unfolding retries_bounded_def start_job_simps ball_update by auto
qed

lemma work_retry_ok:
  assumes "retry_ok t" "j_status t = ''progress''" "retry_ok j" "j_status j = ''progress''" "j_maxFailures j = j_maxFailures t"
    and "j_maxFailures (f j) = j_maxFailures j \<and> j_status (f j) \<noteq> ''progress''
      \<and> (j_failures (f j) = j_failures j
         \<or> (\<exists>err cfg. j_failures (f j) = j_failures t @ [err]
            \<and> (j_status (f j) = ''pending'' \<longrightarrow> \<not> js_lt (max_failures (j_maxFailures t) cfg) (JNum (Fin (of_nat (Suc (length (j_failures t)))))))))"
  shows "retry_ok (f j)"
proof (cases "\<exists>n. j_maxFailures t = JNum (Fin n) \<and> 0 \<le> n")
  case True
  then obtain n where n: "j_maxFailures t = JNum (Fin n)" "0 \<le> n" by blast
  have j: "j_maxFailures (f j) = JNum (Fin n)" "of_nat (length (j_failures j)) \<le> n" "of_nat (length (j_failures t)) \<le> n"
    using assms n by (simp_all add: retry_ok_def)
  consider "j_failures (f j) = j_failures j"
    | err cfg where "j_failures (f j) = j_failures t @ [err]"
      "j_status (f j) = ''pending'' \<longrightarrow> \<not> js_lt (max_failures (j_maxFailures t) cfg) (JNum (Fin (of_nat (Suc (length (j_failures t))))))"
    using assms(6) by blast
  then show ?thesis
    using j assms(6) n by cases (auto simp: retry_ok_def max_failures_own not_less)
next
  case False
  then show ?thesis using assms(5,6) by (auto simp: retry_ok_def split: jsval.splits jsnum.splits)
qed

lemma bounded_step:
  assumes "retries_bounded s" "possible s e" "no_interference s e" shows "retries_bounded (handle E e s)"
proof -
  have ex: "exclusive (handle E e s)" using assms exclusive_step by (simp add: retries_bounded_def)
  show ?thesis
  proof (cases e)
    case (Manage now)
    show ?thesis
      unfolding Manage handle.simps
      by (rule manage_keeps [where I = retries_bounded, OF start_job_bounded _ assms(1)])
        (simp_all add: retries_bounded_def exclusive_def)
  next
    case (Work i now finished random outcome)
    define t where "t = s_tasks s ! i"
    have t: "t \<in> set (s_tasks s)" using assms(2) by (simp add: Work t_def)
    obtain f where f: "s_jobs (fst (work E now finished random outcome t (finish_task i s)))
        = map (\<lambda>j. if j_key j = j_key t then f j else j) (s_jobs (finish_task i s))"
      "s_tasks (fst (work E now finished random outcome t (finish_task i s))) = s_tasks (finish_task i s)"
      "\<And>j. j_key (f j) = j_key j \<and> j_maxFailures (f j) = j_maxFailures j \<and> j_queue (f j) = j_queue j
        \<and> j_status (f j) \<noteq> ''progress''
        \<and> (j_failures (f j) = j_failures j
         \<or> (\<exists>err cfg. j_failures (f j) = j_failures t @ [err]
            \<and> (j_status (f j) = ''pending'' \<longrightarrow> \<not> js_lt (max_failures (j_maxFailures t) cfg) (JNum (Fin (of_nat (Suc (length (j_failures t)))))))))"
      by (rule work_effect [of E now finished random outcome t "finish_task i s"]) blast
    have "retry_ok (f j)" if "j \<in> set (s_jobs s)" "j_key j = j_key t" for j
      by (rule work_retry_ok [of t]) (use that t assms(1) f(3) [of j] in \<open>auto simp: retries_bounded_def exclusive_def\<close>)
    moreover have "s_jobs (finish_task i s) = s_jobs s" by (simp add: finish_task_def)
    moreover have "set (s_tasks (finish_task i s)) \<subseteq> set (s_tasks s)"
      using assms(2) assms(1) finish_task_keys(3) by (auto simp: Work retries_bounded_def exclusive_def)
    ultimately show ?thesis
      using ex assms(1) f(1,2) f(3) by (auto simp: Work retries_bounded_def t_def [symmetric])
  next
    case (Push key queue name data opts now)
    show ?thesis
      using push_cases [of key queue name data opts now s]
    proof (elim disjE exE)
      fix n d assume s': "fst (push key queue name data opts now s) = s\<lparr>s_jobs := s_jobs s @ [new_job key queue n d opts now]\<rparr>"
      have "\<forall>t \<in> set (s_tasks s). key \<noteq> j_key t" using assms(2) by (auto simp: Push)
      moreover have "j_key (new_job key queue n d opts now) = key" by (simp add: new_job_def)
      moreover have "retry_ok (new_job key queue n d opts now)"
        by (auto simp: retry_ok_def new_job_def split: jsval.split jsnum.split)
      ultimately show ?thesis using ex assms(1) by (simp add: Push s' retries_bounded_def)
    qed (use assms(1) in \<open>simp add: Push\<close>)
  next
    case (DeleteJob key)
    show ?thesis using ex assms(1) by (auto simp: DeleteJob retries_bounded_def delete_job_def)
  next
    case Restart
    show ?thesis using ex assms(1) retry_ok_status by (auto simp: Restart retries_bounded_def run_def)
  next
    case (DeleteQueue key)
    show ?thesis using ex assms(1) by (auto simp: DeleteQueue retries_bounded_def queues_delete_def)
  qed (use ex assms in \<open>auto simp: retries_bounded_def queues_get_def\<close>)
qed

lemma bounded_initial: "retries_bounded initial"
  using exclusive_initial by (simp add: retries_bounded_def initial_def queues_create_def Let_def)

interpretation retries: safe_machine E no_interference retries_bounded for E
  by unfold_locales (rule bounded_initial, rule bounded_step)

subsubsection \<open>The manager serves its queues\<close>

definition served :: "jsnum \<Rightarrow> string \<times> int \<Rightarrow> server \<Rightarrow> bool" where
  "served now queue s \<longleftrightarrow> snd queue \<le> int (numBusy (fst queue) s) \<or> filter (due now (fst queue)) (s_jobs s) = []"

lemma start_jobs_jobs:
  "s_jobs (foldl start_job s docs) =
    map (\<lambda>j. if j_key j \<in> j_key ` set docs then j\<lparr>j_status := ''progress''\<rparr> else j) (s_jobs s)"
  by (induction docs arbitrary: s) (auto simp: comp_def)

lemma manage_queue_served:
  assumes "unique_keys s" shows "served now (q, m) (manage_queue now s (q, m))"
proof (cases "m \<le> int (numBusy q s) \<or> nat (m - int (numBusy q s)) \<le> length (filter (due now q) (s_jobs s))")
  case True
  then have "m \<le> int (numBusy q s + length (jobs_to_start now q m s))" by (auto simp: jobs_to_start_def)
  then show ?thesis by (simp add: served_def manage_queue_busy(1) [OF assms])
next
  case False
  then have "jobs_to_start now q m s = sort_key j_delayUntil (filter (due now q) (s_jobs s))"
    by (simp add: jobs_to_start_def)
  then have "set (jobs_to_start now q m s) = {j \<in> set (s_jobs s). due now q j}" by simp
  then have "\<not> due now q j" if "j \<in> set (s_jobs (manage_queue now s (q, m)))" for j
    using that by (auto simp: manage_queue_def start_jobs_jobs due_def split: if_splits)
  then show ?thesis by (simp add: served_def filter_empty_conv)
qed

lemma manage_queues_served:
  "unique_keys s \<Longrightarrow> distinct (map fst qs) \<Longrightarrow> set qs' \<inter> set qs = {} \<Longrightarrow> distinct (map fst (qs' @ qs)) \<Longrightarrow>
    \<forall>x \<in> set qs'. served now x s \<Longrightarrow> \<forall>x \<in> set (qs' @ qs). served now x (foldl (manage_queue now) s qs)"
proof (induction qs arbitrary: s qs')
  case (Cons a qs)
  obtain q m where a: "a = (q, m)" by fastforce
  have "served now x (manage_queue now s a)" if "x \<in> set qs'" for x
  proof -
    have "fst x \<noteq> q" using that Cons.prems(4) by (force simp: a)
    then show ?thesis
      using that Cons.prems(1,5) by (simp add: a served_def manage_queue_busy(2,3) [OF Cons.prems(1)])
  qed
  moreover have "a \<notin> set qs" using Cons.prems(2) by (force simp: a)
  ultimately have "\<forall>x \<in> set ((qs' @ [a]) @ qs). served now x (foldl (manage_queue now) (manage_queue now s a) qs)"
    using Cons.prems manage_queue_busy(5) [OF Cons.prems(1)] manage_queue_served [OF Cons.prems(1)]
    by (intro Cons.IH) (auto simp: a)
  then show ?case by simp
qed simp

text \<open>
  C27: A run of the manager leaves no work undone: for every queue either as many jobs are in progress as it has
  workers, or no job that was due still waits; and a job that it starts was due no later than one that it
  leaves waiting.
\<close>

theorem manage_serves:
  assumes "queue_reach E allowed s" "(q, m) \<in> set (s_queues s)"
  shows "(m \<le> int (numBusy q (manage now s)) \<or> filter (due now q) (s_jobs (manage now s)) = [])
    \<and> (\<forall>d \<in> set (jobs_to_start now q m s). due now q d
         \<and> (\<forall>j \<in> set (s_jobs s). due now q j \<and> j \<notin> set (jobs_to_start now q m s) \<longrightarrow> j_delayUntil d \<le> j_delayUntil j))"
proof -
  have u: "unique_keys s" by (rule keys.reach_safe [OF assms(1)])
  have "served now (q, m) (manage now s)"
    using manage_queues_served [OF u, of "s_queues s" "[]" now] u assms(2) by (simp add: manage_def unique_keys_def)
  moreover have "j_delayUntil d \<le> j_delayUntil j"
    if "d \<in> set (jobs_to_start now q m s)" "j \<in> set (s_jobs s)" "due now q j" "j \<notin> set (jobs_to_start now q m s)" for d j
  proof -
    define xs n where "xs = sort_key j_delayUntil (filter (due now q) (s_jobs s))" and "n = nat (m - int (numBusy q s))"
    have d: "jobs_to_start now q m s = take n xs" using that(1) by (auto simp: jobs_to_start_def xs_def n_def split: if_splits)
    have "j \<in> set xs" using that(2,3) by (simp add: xs_def)
    then have "j \<in> set (drop n xs)" using that(4) unfolding d by (metis Un_iff append_take_drop_id set_append)
    moreover have "sorted (map j_delayUntil (take n xs @ drop n xs))" by (simp add: xs_def)
    ultimately show ?thesis using that(1) unfolding d by (simp only: map_append sorted_append) auto
  qed
  ultimately show ?thesis
    by (auto simp: served_def jobs_to_start_def dest!: in_set_takeD split: if_splits)
qed

subsection \<open>Properties of the queues\<close>

text \<open>
  C24: Whatever calls of the interface, runs of the manager and workers interleave, no queue has more jobs in
  progress than its workers, as long as nobody lowers that limit below the number of its running jobs.
\<close>

theorem queue_limits:
  assumes "queue_reach E keeps_limits s" "(q, m) \<in> set (s_queues s)"
  shows "int (numBusy q s) \<le> max m 0"
  using limits.reach_safe [OF assms(1)] assms(2) by (auto simp: within_limits_def)

text \<open>
  C25: Without \<open>abort\<close> and \<open>reset\<close> no job runs twice at the same time, and the jobs in progress are those that run.
\<close>

theorem jobs_run_once:
  assumes "queue_reach E no_interference s"
  shows "distinct (map j_key (s_tasks s))
    \<and> (\<forall>j \<in> set (s_jobs s). (j_status j = ''progress'') = (j_key j \<in> j_key ` set (s_tasks s)))"
  using runs.reach_safe [OF assms] by (simp add: exclusive_def)

text \<open>
  C26: Without \<open>abort\<close> and \<open>reset\<close> a job with a limit of its own fails at most once more often than the limit
  says, and one that waits or runs has not failed more often than that.
\<close>

theorem failures_bounded:
  assumes "queue_reach E no_interference s" "j \<in> set (s_jobs s)" "j_maxFailures j = JNum (Fin n)" "0 \<le> n"
  shows "of_nat (length (j_failures j)) \<le> n + 1
    \<and> (j_status j \<in> {''pending'', ''progress''} \<longrightarrow> of_nat (length (j_failures j)) \<le> n)"
proof -
  have "retry_ok j" using retries.reach_safe [OF assms(1)] assms(2) by (simp add: retries_bounded_def)
  then show ?thesis using assms(3,4) by (simp add: retry_ok_def)
qed

text \<open>
  C28: \<open>abort\<close> asks for the status \<open>completed\<close>, which no job ever has: it marks a complete job as failed.
\<close>

theorem abort_fails_complete:
  assumes "queue_reach E allowed s" "j \<in> set (s_jobs s)" "j_status j = ''complete''"
  shows "\<exists>j' \<in> set (s_jobs (fst (abort (j_key j) now s))). j_key j' = j_key j \<and> j_status j' = ''failed''
    \<and> j_failures j' = j_failures j @ [''Job aborted.'']"
proof -
  obtain i where i: "List.find (\<lambda>i. j_key i = j_key j) (s_jobs s) = Some i"
    using assms(2) by (cases "List.find (\<lambda>i. j_key i = j_key j) (s_jobs s)") (auto simp: find_None_iff)
  then have "i \<in> set (s_jobs s)" "j_key i = j_key j" by (auto simp: find_Some_iff)
  then have "i = j" using unique_job [OF keys.reach_safe [OF assms(1)]] assms(2) by blast
  define g :: "job \<Rightarrow> job" where "g i = (if j_key i = j_key j
      then i\<lparr>j_status := ''failed'', j_modified := now, j_failures := j_failures j @ [''Job aborted.'']\<rparr> else i)" for i
  have jobs: "s_jobs (fst (abort (j_key j) now s)) = map g (s_jobs s)"
    using i \<open>i = j\<close> assms(3) by (simp add: abort_def update_job_jobs g_def)
  have "g j \<in> set (s_jobs (fst (abort (j_key j) now s)))" unfolding jobs set_map using assms(2) by (rule imageI)
  then show ?thesis by (rule rev_bexI) (simp add: g_def)
qed

definition echo_type :: type_options where
  "echo_type = \<lparr>o_execute = True, o_schema = NoSchema, o_preprocess = None, o_typeMaxFailures = None, o_typeBackOff = NoBackOff\<rparr>"

definition plain_push :: push_options where
  "plain_push = \<lparr>o_allowUnknown = False, o_maxFailures = JNum (Fin 1), o_backOff = NoBackOff, o_delayUntil = None,
     o_success = None, o_failure = None\<rparr>"

text \<open>A server on which one job of the type \<open>echo\<close> runs.\<close>

definition one_running :: "event list" where
  "one_running = [RegisterType ''echo'' echo_type, Push ''1'' ''default'' (JStr ''echo'') JNull plain_push (Fin 10), Manage (Fin 20)]"

definition after :: "event list \<Rightarrow> server" where
  "after es = foldl (\<lambda>s e. handle (\<lambda>src n. Inl []) e s) initial es"

lemmas queue_run_simps = after_def one_running_def initial_def echo_type_def plain_push_def queues_create_def registerJobType_def
  push_def push_data_def new_job_def manage_def manage_queue_def jobs_to_start_def numBusy_def in_progress_def due_def
  start_job_def update_job_def has_job_def work_def finish_task_def abort_def reset_def callback_of_def max_failures_def
  queues_delete_def delete_job_def run_def getBackOffDelay_def exponentialBackOff_def number_back_off_def called_back_off_def

text \<open>A run of the manager leaves the running tasks alone and adds one for every job that it chooses.\<close>

lemma start_jobs_tasks:
  "s_tasks (foldl start_job s docs) = s_tasks s @ map (\<lambda>d. d\<lparr>j_status := ''progress''\<rparr>) docs"
  by (induction docs arbitrary: s) simp_all

lemma manage_queues_start:
  "unique_keys s \<Longrightarrow> distinct (map fst qs) \<Longrightarrow>
    \<exists>ts. s_tasks (foldl (manage_queue now) s qs) = s_tasks s @ ts
      \<and> (\<forall>q m. (q, m) \<in> set qs \<longrightarrow> j_key ` set (jobs_to_start now q m s) \<subseteq> j_key ` set ts)"
proof (induction qs arbitrary: s)
  case (Cons a qs)
  obtain q m where a: "a = (q, m)" by fastforce
  let ?s = "manage_queue now s (q, m)"
  obtain ts where ts: "s_tasks (foldl (manage_queue now) ?s qs) = s_tasks ?s @ ts"
    "\<And>r n. (r, n) \<in> set qs \<Longrightarrow> j_key ` set (jobs_to_start now r n ?s) \<subseteq> j_key ` set ts"
    using Cons.IH [OF manage_queue_busy(5) [OF Cons.prems(1), of now q m]] Cons.prems(2) by fastforce
  have same: "jobs_to_start now r n ?s = jobs_to_start now r n s" if "(r, n) \<in> set qs" for r n
  proof -
    have "r \<noteq> q" using that Cons.prems(2) by (force simp: a)
    then show ?thesis by (simp add: jobs_to_start_def manage_queue_busy(2,3) [OF Cons.prems(1)])
  qed
  let ?new = "map (\<lambda>d. d\<lparr>j_status := ''progress''\<rparr>) (jobs_to_start now q m s)"
  have "s_tasks (foldl (manage_queue now) s (a # qs)) = s_tasks s @ ?new @ ts"
    by (simp add: a ts(1)) (simp add: manage_queue_def start_jobs_tasks)
  moreover have "j_key ` set (jobs_to_start now r n s) \<subseteq> j_key ` set (?new @ ts)" if "(r, n) \<in> set (a # qs)" for r n
    using that ts(2) [of r n] same [of r n] by (auto simp: a image_Un image_image)
  ultimately show ?case by blast
qed simp

text \<open>
  C29: A job that is aborted while it runs is complete when its worker ends without an exception; a job that is
  reset while it runs is started a second time beside the first run, by the next run of the manager at
  which it is due and its queue has workers for all the jobs that are due.
\<close>

theorem running_job_not_protected:
  assumes "queue_reach E allowed s" "i < length (s_tasks s)" "j \<in> set (s_jobs s)" "j_key j = j_key (s_tasks s ! i)"
  shows "(map_of (s_jobTypes s) (j_type (s_tasks s ! i)) \<noteq> None \<longrightarrow>
      (\<exists>j' \<in> set (s_jobs (handle E (Work i now finished random (Inr result)) (handle E (Abort (j_key j) aborted) s))).
         j_key j' = j_key j \<and> j_status j' = ''complete''))
    \<and> ((j_queue j, m) \<in> set (s_queues s) \<and> num_le (j_delayUntil j) now
        \<and> int (numBusy (j_queue j) (handle E (Reset (j_key j)) s))
          + int (length (filter (due now (j_queue j)) (s_jobs (handle E (Reset (j_key j)) s)))) \<le> m \<longrightarrow>
      2 \<le> count_list (map j_key (s_tasks (handle E (Manage now) (handle E (Reset (j_key j)) s)))) (j_key j))"
proof (intro conjI impI)
  let ?a = "handle E (Abort (j_key j) aborted) s" and ?t = "s_tasks s ! i"
  assume "map_of (s_jobTypes s) (j_type ?t) \<noteq> None"
  then obtain cfg where cfg: "map_of (s_jobTypes s) (j_type ?t) = Some cfg" by blast
  have a: "s_tasks ?a = s_tasks s" "s_jobTypes ?a = s_jobTypes s" "map j_key (s_jobs ?a) = map j_key (s_jobs s)"
    using abort_cases [of "j_key j" aborted s] by (auto simp: update_job_jobs)
  have "j_key j \<in> set (map j_key (s_jobs ?a))" unfolding a(3) using assms(3) by simp
  then obtain k where k: "k \<in> set (s_jobs ?a)" "j_key k = j_key j" by auto
  have worked: "s_jobs (fst (work E now finished random (Inr result) t s')) =
      map (\<lambda>k. if j_key k = j_key t then k\<lparr>j_modified := finished, j_status := ''complete''\<rparr> else k) (s_jobs s')"
    if "map_of (s_jobTypes s') (j_type t) = Some cfg" for t s'
    using that by (simp add: work_def update_job_jobs case_prod_beta Let_def)
  have "s_jobs (handle E (Work i now finished random (Inr result)) ?a) =
      map (\<lambda>k. if j_key k = j_key j then k\<lparr>j_modified := finished, j_status := ''complete''\<rparr> else k) (s_jobs ?a)"
    using worked [of "finish_task i ?a" "s_tasks s ! i"] cfg a(1,2)
    by (simp only: handle.simps(10) assms(4) finish_task_fields)
  then have "k\<lparr>j_modified := finished, j_status := ''complete''\<rparr>
      \<in> set (s_jobs (handle E (Work i now finished random (Inr result)) ?a))"
    using k by (force simp: image_iff)
  then show "\<exists>j' \<in> set (s_jobs (handle E (Work i now finished random (Inr result)) ?a)).
      j_key j' = j_key j \<and> j_status j' = ''complete''"
    by (rule rev_bexI) (simp add: k(2))
next
  let ?r = "handle E (Reset (j_key j)) s" and ?q = "j_queue j" and ?d = "j\<lparr>j_status := ''pending''\<rparr>"
  assume *: "(?q, m) \<in> set (s_queues s) \<and> num_le (j_delayUntil j) now
    \<and> int (numBusy ?q ?r) + int (length (filter (due now ?q) (s_jobs ?r))) \<le> m"
  have u: "unique_keys ?r" using keys.reach_safe [OF assms(1)] by (simp add: reset_def)
  have r: "s_tasks ?r = s_tasks s" "s_queues ?r = s_queues s" by (simp_all add: reset_def)
  have "?d \<in> set (s_jobs ?r)" using assms(3) by (force simp: reset_def update_job_jobs)
  moreover have "due now ?q ?d" using * by (simp add: due_def)
  ultimately have d: "?d \<in> set (filter (due now ?q) (s_jobs ?r))" by simp
  then have "0 < length (filter (due now ?q) (s_jobs ?r))" by (rule length_pos_if_in_set)
  then have "\<not> m \<le> int (numBusy ?q ?r)" "length (filter (due now ?q) (s_jobs ?r)) \<le> nat (m - int (numBusy ?q ?r))"
    using * by linarith+
  then have "jobs_to_start now ?q m ?r = sort_key j_delayUntil (filter (due now ?q) (s_jobs ?r))"
    unfolding jobs_to_start_def by simp
  then have "j_key j \<in> j_key ` set (jobs_to_start now ?q m ?r)" using d by (force simp: image_iff)
  moreover obtain ts where ts: "s_tasks (manage now ?r) = s_tasks s @ ts"
    "\<forall>q m. (q, m) \<in> set (s_queues s) \<longrightarrow> j_key ` set (jobs_to_start now q m ?r) \<subseteq> j_key ` set ts"
    using manage_queues_start [OF u, of "s_queues s" now] u r by (auto simp: manage_def unique_keys_def)
  ultimately have "j_key j \<in> j_key ` set ts" using * by blast
  then have "count_list (map j_key ts) (j_key j) \<noteq> 0" by (simp add: count_list_0_iff)
  moreover have "j_key j \<in> j_key ` set (s_tasks s)" using assms(2,4) by auto
  then have "count_list (map j_key (s_tasks s)) (j_key j) \<noteq> 0" by (simp add: count_list_0_iff)
  ultimately show "2 \<le> count_list (map j_key (s_tasks (handle E (Manage now) ?r))) (j_key j)"
    unfolding handle.simps(9) ts(1) by simp
qed

text \<open>
  \<open>get\<close> answers from its own map of queues: it returns the object of a queue that was deleted instead of
  the error for a queue that does not exist.
\<close>

theorem deleted_queue_still_used:
  "snd (queues_get key (fst (queues_delete key (queues_create key m s)))) = None
    \<and> map_of (s_queues (fst (queues_delete key (queues_create key m s)))) key = None"
proof -
  have "map_of (s_queues (fst (queues_delete key t))) key = None" for t
    by (simp add: queues_delete_def delete_conv')
  moreover have "key \<in> s_queueMap (fst (queues_delete key (queues_create key m s)))"
    by (simp add: queues_delete_def queues_create_def Let_def)
  ultimately show ?thesis by (simp add: queues_get_def)
qed

theorem queue_limits_witness:
  "int (numBusy ''default'' (after one_running)) \<le> max 1 0"
proof -
  let ?s = "after one_running"
  have "queue_reach (\<lambda>src n. Inl []) keeps_limits ?s"
    unfolding after_def one_running_def foldl.simps
    by (intro reach_step reach_initial) (simp_all add: queue_run_simps)
  moreover have "(''default'', 1) \<in> set (s_queues ?s)" by (simp add: queue_run_simps)
  ultimately show ?thesis by (rule queue_limits)
qed

lemma one_running_reached: "queue_reach (\<lambda>src n. Inl []) no_interference (after one_running)"
  unfolding after_def one_running_def foldl.simps
  by (intro reach_step reach_initial) (simp_all add: queue_run_simps)

theorem running_job_not_protected_witness:
  "(\<exists>j \<in> set (s_jobs (after (one_running @ [Abort ''1'' (Fin 30), Work 0 (Fin 20) (Fin 40) (Fin 0) (Inr JNull)]))).
      j_key j = ''1'' \<and> j_status j = ''complete'')
    \<and> 2 \<le> count_list (map j_key (s_tasks (after (one_running @ [Reset ''1'', Manage (Fin 30)])))) ''1''"
proof -
  let ?s = "after one_running" and ?E = "\<lambda>src n. Inl []"
  let ?j = "hd (s_jobs ?s)"
  have j: "0 < length (s_tasks ?s)" "?j \<in> set (s_jobs ?s)" "j_key ?j = j_key (s_tasks ?s ! 0)"
    by (simp_all add: queue_run_simps)
  have key: "j_key ?j = ''1''" "map_of (s_jobTypes ?s) (j_type (s_tasks ?s ! 0)) \<noteq> None"
    "(j_queue ?j, 1) \<in> set (s_queues ?s)" "num_le (j_delayUntil ?j) (Fin 30)"
    by (simp_all add: queue_run_simps)
  have room: "int (numBusy (j_queue ?j) (handle ?E (Reset (j_key ?j)) ?s))
      + int (length (filter (due (Fin 30) (j_queue ?j)) (s_jobs (handle ?E (Reset (j_key ?j)) ?s)))) \<le> 1"
    by (simp add: queue_run_simps)
  have "after (one_running @ [e, e']) = handle ?E e' (handle ?E e ?s)" for e e' by (simp add: after_def)
  then show ?thesis
    using running_job_not_protected [OF one_running_reached j, where m = 1] key room by metis
qed

theorem jobs_run_once_witness:
  "distinct (map j_key (s_tasks (after one_running)))"
  using jobs_run_once [OF one_running_reached] by simp

theorem manage_serves_witness:
  "1 \<le> int (numBusy ''default'' (manage (Fin 30) (after one_running)))
    \<or> filter (due (Fin 30) ''default'') (s_jobs (manage (Fin 30) (after one_running))) = []"
proof -
  have "(''default'', 1) \<in> set (s_queues (after one_running))" by (simp add: queue_run_simps)
  then show ?thesis using manage_serves [OF one_running_reached] by blast
qed

lemma one_running_job: "s_jobs (after one_running) = [(new_job ''1'' ''default'' ''echo'' JNull plain_push (Fin 10))\<lparr>j_status := ''progress''\<rparr>]"
  by (simp add: queue_run_simps)

theorem failures_bounded_witness:
  "of_nat (length (j_failures (hd (s_jobs (after one_running))))) \<le> (1 :: rat)"
  using failures_bounded [OF one_running_reached, of "hd (s_jobs (after one_running))" 1]
  by (simp add: one_running_job) (simp add: new_job_def plain_push_def)

theorem abort_fails_complete_witness:
  "\<exists>j' \<in> set (s_jobs (fst (abort ''1'' (Fin 50) (after (one_running @ [Work 0 (Fin 20) (Fin 40) (Fin 0) (Inr JNull)]))))).
     j_key j' = ''1'' \<and> j_status j' = ''failed''"
proof -
  let ?s = "after (one_running @ [Work 0 (Fin 20) (Fin 40) (Fin 0) (Inr JNull)])"
  let ?j = "hd (s_jobs ?s)"
  have s: "?s = handle (\<lambda>src n. Inl []) (Work 0 (Fin 20) (Fin 40) (Fin 0) (Inr JNull)) (after one_running)"
    by (simp add: after_def)
  have "queue_reach (\<lambda>src n. Inl []) no_interference ?s"
    unfolding s by (rule reach_step [OF one_running_reached]) (simp_all add: queue_run_simps)
  moreover have "?j \<in> set (s_jobs ?s)" "j_status ?j = ''complete''" "j_key ?j = ''1''" by (simp_all add: queue_run_simps)
  ultimately show ?thesis using abort_fails_complete [of _ _ ?s ?j "Fin 50"] by force
qed

end
