(* ===== verification/JS_RegExp.thy ===== *)
theory JS_RegExp
  imports JS_Value
begin

text \<open>
  Regular expressions of JavaScript as far as \<open>RegExp.prototype.test\<close> needs them: the source text is cut into
  tokens, the tokens are built into an expression, and the expression gives for every position of a string the
  ends of its matches. Back references and the escapes with \<open>x\<close>, \<open>u\<close>, \<open>c\<close> and digits other than zero are
  outside of the model; \<open>None\<close> is a syntax error or one of these. A quantifier and its lazy form have the same matches.
\<close>

subsection \<open>Expressions and their matches\<close>

datatype rx =
    RxEmpty
  | RxSet bool "(char \<times> char) list"
  | RxBegin
  | RxEnd
  | RxBoundary bool
  | RxSeq rx rx
  | RxAlt rx rx
  | RxRepeat rx nat "nat option"
  | RxLook bool rx

definition in_ranges :: "(char \<times> char) list \<Rightarrow> char \<Rightarrow> bool" where
  "in_ranges ranges c \<longleftrightarrow> (\<exists>(a, b) \<in> set ranges. (of_char a :: nat) \<le> of_char c \<and> (of_char c :: nat) \<le> of_char b)"

definition word_ranges :: "(char \<times> char) list" where
  "word_ranges = [(CHR ''0'', CHR ''9''), (CHR ''A'', CHR ''Z''), (CHR ''_'', CHR ''_''), (CHR ''a'', CHR ''z'')]"

definition space_ranges :: "(char \<times> char) list" where
  "space_ranges = [(CHR 9, CHR 13), (CHR 32, CHR 32), (CHR 160, CHR 160)]"

definition word_position :: "string \<Rightarrow> nat \<Rightarrow> bool" where
  "word_position s i \<longleftrightarrow> i < length s \<and> in_ranges word_ranges (s ! i)"

text \<open>All positions that \<open>n\<close> or fewer steps of \<open>f\<close> reach.\<close>

fun within_steps :: "(nat \<Rightarrow> nat list) \<Rightarrow> nat \<Rightarrow> nat list \<Rightarrow> nat list" where
  "within_steps f 0 ps = ps"
| "within_steps f (Suc n) ps = remdups (ps @ within_steps f n (remdups (concat (map f ps))))"

fun after_steps :: "(nat \<Rightarrow> nat list) \<Rightarrow> nat \<Rightarrow> nat list \<Rightarrow> nat list" where
  "after_steps f 0 ps = ps"
| "after_steps f (Suc n) ps = after_steps f n (remdups (concat (map f ps)))"

text \<open>
  The ends of the matches of an expression that start at a position. A repetition without a bound needs no more
  steps than there are characters, because a step that matches the empty string leads nowhere.
\<close>

fun rx_ends :: "string \<Rightarrow> rx \<Rightarrow> nat \<Rightarrow> nat list" where
  "rx_ends s RxEmpty i = [i]"
| "rx_ends s (RxSet negated ranges) i = (if i < length s \<and> in_ranges ranges (s ! i) \<noteq> negated then [Suc i] else [])"
| "rx_ends s RxBegin i = (if i = 0 then [i] else [])"
| "rx_ends s RxEnd i = (if i = length s then [i] else [])"
| "rx_ends s (RxBoundary negated) i =
     (if (word_position s i = (0 < i \<and> word_position s (i - 1))) = negated then [i] else [])"
| "rx_ends s (RxSeq a b) i = concat (map (rx_ends s b) (rx_ends s a i))"
| "rx_ends s (RxAlt a b) i = rx_ends s a i @ rx_ends s b i"
| "rx_ends s (RxRepeat r m n) i =
     within_steps (rx_ends s r) (case n of None \<Rightarrow> length s | Some n \<Rightarrow> n - m) (after_steps (rx_ends s r) m [i])"
| "rx_ends s (RxLook negated r) i = (if (rx_ends s r i = []) = negated then [i] else [])"

definition rx_test :: "rx \<Rightarrow> string \<Rightarrow> bool" where
  "rx_test r s \<longleftrightarrow> (\<exists>i \<in> set [0..<Suc (length s)]. rx_ends s r i \<noteq> [])"

subsection \<open>Tokens\<close>

datatype class_item = One char | Many "(char \<times> char) list" | Dash

datatype rx_token =
    TokAtom rx
  | TokAssert rx
  | TokOpen "bool option"
  | TokClose
  | TokBar
  | TokRepeat nat "nat option"

text \<open>The ranges that are left out by sorted ranges without overlap.\<close>

definition other_chars :: "(char \<times> char) list \<Rightarrow> (char \<times> char) list" where
  "other_chars ranges = map (\<lambda>n. (char_of n, char_of n)) (filter (\<lambda>n. \<not> in_ranges ranges (char_of n)) [0..<256])"

definition escape_ranges :: "char \<Rightarrow> (char \<times> char) list option" where
  "escape_ranges c =
     (if c = CHR ''d'' then Some [(CHR ''0'', CHR ''9'')]
      else if c = CHR ''D'' then Some (other_chars [(CHR ''0'', CHR ''9'')])
      else if c = CHR ''w'' then Some word_ranges
      else if c = CHR ''W'' then Some (other_chars word_ranges)
      else if c = CHR ''s'' then Some space_ranges
      else if c = CHR ''S'' then Some (other_chars space_ranges)
      else None)"

definition escape_single :: "char \<Rightarrow> char option" where
  "escape_single c =
     (if c = CHR ''t'' then Some (CHR 9)
      else if c = CHR ''n'' then Some (CHR 10)
      else if c = CHR ''v'' then Some (CHR 11)
      else if c = CHR ''f'' then Some (CHR 12)
      else if c = CHR ''r'' then Some (CHR 13)
      else if c = CHR ''0'' then Some (CHR 0x00)
      else if c \<in> {CHR ''x'', CHR ''u'', CHR ''c''} \<or> is_digit c then None
      else Some c)"

definition class_escape :: "char \<Rightarrow> class_item option" where
  "class_escape c = (case escape_ranges c of
      Some ranges \<Rightarrow> Some (Many ranges)
    | None \<Rightarrow> if c = CHR ''b'' then Some (One (CHR 8)) else map_option One (escape_single c))"

text \<open>The items up to the closing bracket, and the text behind it.\<close>

fun class_items :: "string \<Rightarrow> (class_item list \<times> string) option" where
  "class_items [] = None"
| "class_items (c # cs) =
     (if c = CHR '']'' then Some ([], cs)
      else if c = CHR 92 then
        (case cs of
           [] \<Rightarrow> None
         | d # ds \<Rightarrow> (case (class_escape d, class_items ds) of
               (Some item, Some (items, rest)) \<Rightarrow> Some (item # items, rest)
             | _ \<Rightarrow> None))
      else (case class_items cs of
          None \<Rightarrow> None
        | Some (items, rest) \<Rightarrow> Some ((if c = CHR ''-'' then Dash else One c) # items, rest)))"

definition end_point :: "class_item \<Rightarrow> char option" where
  "end_point item = (case item of One c \<Rightarrow> Some c | Dash \<Rightarrow> Some (CHR ''-'') | Many _ \<Rightarrow> None)"

definition item_ranges :: "class_item \<Rightarrow> (char \<times> char) list" where
  "item_ranges item = (case item of One c \<Rightarrow> [(c, c)] | Dash \<Rightarrow> [(CHR ''-'', CHR ''-'')] | Many ranges \<Rightarrow> ranges)"

fun items_ranges :: "class_item list \<Rightarrow> (char \<times> char) list option" where
  "items_ranges (a # Dash # b # items) =
     (case (end_point a, end_point b) of
        (Some x, Some y) \<Rightarrow>
          if (of_char y :: nat) < of_char x then None else map_option (Cons (x, y)) (items_ranges items)
      | _ \<Rightarrow> map_option (\<lambda>rest. item_ranges a @ (CHR ''-'', CHR ''-'') # item_ranges b @ rest) (items_ranges items))"
| "items_ranges (a # items) = map_option ((@) (item_ranges a)) (items_ranges items)"
| "items_ranges [] = Some []"

text \<open>A class behind its opening bracket.\<close>

definition read_class :: "string \<Rightarrow> (rx_token \<times> string) option" where
  "read_class cs =
     (let negated = (case cs of c # _ \<Rightarrow> c = CHR ''^'' | [] \<Rightarrow> False)
      in case class_items (if negated then tl cs else cs) of
           None \<Rightarrow> None
         | Some (items, rest) \<Rightarrow> (case items_ranges items of
               None \<Rightarrow> None
             | Some ranges \<Rightarrow> Some (TokAtom (RxSet negated ranges), rest)))"

definition read_escape :: "string \<Rightarrow> (rx_token \<times> string) option" where
  "read_escape cs = (case cs of
      [] \<Rightarrow> None
    | c # rest \<Rightarrow>
        if c = CHR ''b'' then Some (TokAssert (RxBoundary False), rest)
        else if c = CHR ''B'' then Some (TokAssert (RxBoundary True), rest)
        else (case escape_ranges c of
            Some ranges \<Rightarrow> Some (TokAtom (RxSet False ranges), rest)
          | None \<Rightarrow> map_option (\<lambda>d. (TokAtom (RxSet False [(d, d)]), rest)) (escape_single c)))"

definition read_group :: "string \<Rightarrow> (rx_token \<times> string) option" where
  "read_group cs =
     (if take 2 cs = ''?:'' then Some (TokOpen None, drop 2 cs)
      else if take 2 cs = ''?='' then Some (TokOpen (Some False), drop 2 cs)
      else if take 2 cs = ''?!'' then Some (TokOpen (Some True), drop 2 cs)
      else if take 1 cs = ''?'' then None
      else Some (TokOpen None, cs))"

definition number_of :: "string \<Rightarrow> nat" where
  "number_of ds = nat (digits_value ds)"

text \<open>The quantifier in braces, behind the opening brace; other text is no quantifier.\<close>

definition read_bounds :: "string \<Rightarrow> ((nat \<times> nat option) \<times> string) option" where
  "read_bounds cs =
     (let low = takeWhile is_digit cs; rest = dropWhile is_digit cs
      in if low = [] then None
         else case rest of
             [] \<Rightarrow> None
           | c # more \<Rightarrow>
               if c = CHR ''}'' then Some ((number_of low, Some (number_of low)), more)
               else if c = CHR '','' then
                 (let high = takeWhile is_digit more
                  in case dropWhile is_digit more of
                       [] \<Rightarrow> None
                     | d # final \<Rightarrow> if d = CHR ''}''
                         then Some ((number_of low, if high = [] then None else Some (number_of high)), final) else None)
               else None)"

definition drop_lazy :: "string \<Rightarrow> string" where
  "drop_lazy cs = (if take 1 cs = ''?'' then tl cs else cs)"

definition read_token :: "char \<Rightarrow> string \<Rightarrow> (rx_token \<times> string) option" where
  "read_token c cs =
     (if c = CHR ''|'' then Some (TokBar, cs)
      else if c = CHR ''('' then read_group cs
      else if c = CHR '')'' then Some (TokClose, cs)
      else if c = CHR ''^'' then Some (TokAssert RxBegin, cs)
      else if c = CHR ''$'' then Some (TokAssert RxEnd, cs)
      else if c = CHR ''.'' then Some (TokAtom (RxSet True [(CHR 10, CHR 10), (CHR 13, CHR 13)]), cs)
      else if c = CHR ''['' then read_class cs
      else if c = CHR 92 then read_escape cs
      else if c = CHR ''*'' then Some (TokRepeat 0 None, drop_lazy cs)
      else if c = CHR ''+'' then Some (TokRepeat 1 None, drop_lazy cs)
      else if c = CHR ''?'' then Some (TokRepeat 0 (Some 1), drop_lazy cs)
      else if c = CHR ''{'' then
        (case read_bounds cs of
           Some ((m, n), rest) \<Rightarrow> Some (TokRepeat m n, drop_lazy rest)
         | None \<Rightarrow> Some (TokAtom (RxSet False [(c, c)]), cs))
      else Some (TokAtom (RxSet False [(c, c)]), cs))"

lemma class_items_length: "class_items cs = Some (items, rest) \<Longrightarrow> length rest < length cs"
proof (induction cs arbitrary: items rest rule: class_items.induct)
  case (2 c cs)
  then show ?case by (auto split: if_splits list.splits option.splits prod.splits) fastforce
qed simp

lemma dropWhile_tail_length: "dropWhile P xs = y # ys \<Longrightarrow> length ys < length xs"
  by (metis length_Cons length_dropWhile_le less_eq_Suc_le)

lemma read_bounds_length: "read_bounds cs = Some (b, rest) \<Longrightarrow> length rest \<le> length cs"
  unfolding read_bounds_def Let_def
  by (auto split: if_splits list.splits dest!: dropWhile_tail_length)

lemma drop_lazy_length: "length (drop_lazy cs) \<le> length cs"
  by (simp add: drop_lazy_def)

lemma read_token_length:
  assumes "read_token c cs = Some (t, rest)" shows "length rest \<le> length cs"
proof -
  have "length rest \<le> length cs" if "read_class cs = Some (t, rest)"
    using that class_items_length [of cs] class_items_length [of "tl cs"]
    unfolding read_class_def Let_def by (auto split: if_splits option.splits prod.splits list.splits)
  moreover have "length rest \<le> length cs" if "read_escape cs = Some (t, rest)"
    using that by (auto simp: read_escape_def split: list.splits if_splits option.splits)
  moreover have "length rest \<le> length cs" if "read_group cs = Some (t, rest)"
    using that by (auto simp: read_group_def split: if_splits)
  moreover have "length (drop_lazy more) \<le> length cs" if "read_bounds cs = Some (b, more)" for b more
    using read_bounds_length [OF that] drop_lazy_length [of more] by simp
  ultimately show ?thesis
    using assms drop_lazy_length [of cs]
    unfolding read_token_def by (auto split: if_splits option.splits prod.splits)
qed

function rx_tokens :: "string \<Rightarrow> rx_token list option" where
  "rx_tokens [] = Some []"
| "rx_tokens (c # cs) = (case read_token c cs of
      None \<Rightarrow> None
    | Some (t, rest) \<Rightarrow> map_option (Cons t) (rx_tokens rest))"
  by pat_completeness auto
termination
  by (relation "measure length") (auto simp: less_Suc_eq_le dest: read_token_length)

subsection \<open>Building the expression\<close>

text \<open>
  What is read of a group: how it looks ahead, its finished alternatives, and the terms of the
  current one with a flag that allows a quantifier, all in reverse.
\<close>

type_synonym rx_frame = "bool option \<times> rx list \<times> (rx \<times> bool) list"

definition terms_rx :: "(rx \<times> bool) list \<Rightarrow> rx" where
  "terms_rx terms = foldl (\<lambda>r t. RxSeq (fst t) r) RxEmpty terms"

definition frame_rx :: "rx_frame \<Rightarrow> rx" where
  "frame_rx frame = (case frame of (look, alts, terms) \<Rightarrow> foldl (\<lambda>r a. RxAlt a r) (terms_rx terms) alts)"

fun rx_build :: "rx_token list \<Rightarrow> rx_frame list \<Rightarrow> rx_frame \<Rightarrow> rx option" where
  "rx_build [] stack frame = (if stack = [] then Some (frame_rx frame) else None)"
| "rx_build (t # ts) stack (look, alts, terms) =
     (case t of
        TokAtom r \<Rightarrow> rx_build ts stack (look, alts, (r, True) # terms)
      | TokAssert r \<Rightarrow> rx_build ts stack (look, alts, (r, False) # terms)
      | TokBar \<Rightarrow> rx_build ts stack (look, terms_rx terms # alts, [])
      | TokOpen l \<Rightarrow> rx_build ts ((look, alts, terms) # stack) (l, [], [])
      | TokClose \<Rightarrow> (case stack of
            [] \<Rightarrow> None
          | (look', alts', terms') # outer \<Rightarrow>
              let r = frame_rx (look, alts, terms)
              in rx_build ts outer
                   (look', alts', ((case look of None \<Rightarrow> r | Some negated \<Rightarrow> RxLook negated r), True) # terms'))
      | TokRepeat m n \<Rightarrow> (case terms of
            (r, True) # before \<Rightarrow>
              if n \<noteq> None \<and> the n < m then None
              else rx_build ts stack (look, alts, (RxRepeat r m n, False) # before)
          | _ \<Rightarrow> None))"

text \<open>\<open>new RegExp(source)\<close>\<close>

definition new_RegExp :: "string \<Rightarrow> rx option" where
  "new_RegExp source = (case rx_tokens source of None \<Rightarrow> None | Some ts \<Rightarrow> rx_build ts [] (None, [], []))"

subsection \<open>Languages\<close>

text \<open>
  Without anchors and look-ahead an expression has a language, and its matches are the occurrences of the words of
  its language.
\<close>

definition conc :: "string set \<Rightarrow> string set \<Rightarrow> string set" where
  "conc A B = {v @ w | v w. v \<in> A \<and> w \<in> B}"

fun lang_pow :: "string set \<Rightarrow> nat \<Rightarrow> string set" where
  "lang_pow A 0 = {[]}"
| "lang_pow A (Suc n) = conc A (lang_pow A n)"

fun rx_lang :: "rx \<Rightarrow> string set" where
  "rx_lang RxEmpty = {[]}"
| "rx_lang (RxSet negated ranges) = {[c] | c. in_ranges ranges c \<noteq> negated}"
| "rx_lang (RxSeq a b) = conc (rx_lang a) (rx_lang b)"
| "rx_lang (RxAlt a b) = rx_lang a \<union> rx_lang b"
| "rx_lang (RxRepeat r m n) = (\<Union>k \<in> {k. m \<le> k \<and> (n = None \<or> k \<le> max m (the n))}. lang_pow (rx_lang r) k)"
| "rx_lang _ = {}"

fun without_anchors :: "rx \<Rightarrow> bool" where
  "without_anchors RxEmpty \<longleftrightarrow> True"
| "without_anchors (RxSet negated ranges) \<longleftrightarrow> True"
| "without_anchors (RxSeq a b) \<longleftrightarrow> without_anchors a \<and> without_anchors b"
| "without_anchors (RxAlt a b) \<longleftrightarrow> without_anchors a \<and> without_anchors b"
| "without_anchors (RxRepeat r m n) \<longleftrightarrow> without_anchors r"
| "without_anchors _ \<longleftrightarrow> False"

definition occurs :: "string \<Rightarrow> string \<Rightarrow> nat \<Rightarrow> bool" where
  "occurs w s i \<longleftrightarrow> (\<exists>ys zs. s = ys @ w @ zs \<and> length ys = i)"

lemma occurs_Nil [simp]: "occurs [] s i \<longleftrightarrow> i \<le> length s"
proof
  assume "i \<le> length s"
  then have "s = take i s @ [] @ drop i s \<and> length (take i s) = i" by simp
  then show "occurs [] s i" unfolding occurs_def by blast
qed (auto simp: occurs_def)

lemma occurs_length: "occurs w s i \<Longrightarrow> i + length w \<le> length s"
  by (auto simp: occurs_def)

lemma occurs_append: "occurs (v @ w) s i \<longleftrightarrow> occurs v s i \<and> occurs w s (i + length v)"
proof
  assume "occurs (v @ w) s i"
  then obtain ys zs where s: "s = ys @ v @ w @ zs" "length ys = i" by (auto simp: occurs_def)
  then have "s = (ys @ v) @ w @ zs \<and> length (ys @ v) = i + length v" by simp
  then show "occurs v s i \<and> occurs w s (i + length v)" using s unfolding occurs_def by blast
next
  assume "occurs v s i \<and> occurs w s (i + length v)"
  then obtain ys zs ys' zs' where s: "s = ys @ v @ zs" "length ys = i" "s = ys' @ w @ zs'" "length ys' = i + length v"
    unfolding occurs_def by blast
  then have "(ys @ v) @ zs = ys' @ w @ zs'" "length (ys @ v) = length ys'" by simp_all
  then have "ys @ v = ys' \<and> zs = w @ zs'" by (subst append_eq_append_conv [symmetric]) simp_all
  then have "s = ys @ (v @ w) @ zs'" using s by simp
  then show "occurs (v @ w) s i" using s unfolding occurs_def by blast
qed

lemma occurs_one: "occurs [c] s i \<longleftrightarrow> i < length s \<and> s ! i = c"
proof
  assume "i < length s \<and> s ! i = c"
  then have "s = take i s @ [c] @ drop (Suc i) s \<and> length (take i s) = i"
    using id_take_nth_drop [of i s] by simp
  then show "occurs [c] s i" unfolding occurs_def by blast
qed (auto simp: occurs_def)

lemma occurs_all: "occurs w s 0 \<and> length w = length s \<longleftrightarrow> w = s"
  by (auto simp: occurs_def)

definition steps :: "(nat \<Rightarrow> nat list) \<Rightarrow> (nat \<times> nat) set" where
  "steps f = {(p, q). q \<in> set (f p)}"

lemma steps_Suc: "(p, q) \<in> steps f ^^ Suc k \<longleftrightarrow> (\<exists>r \<in> set (f p). (r, q) \<in> steps f ^^ k)"
  by (auto simp: steps_def simp del: relpow.simps dest: relpow_Suc_D2 intro: relpow_Suc_I2)

lemma set_after_steps: "set (after_steps f n ps) = {q. \<exists>p \<in> set ps. (p, q) \<in> steps f ^^ n}"
proof (induction n arbitrary: ps)
  case (Suc n)
  then show ?case unfolding steps_Suc by auto
qed auto

lemma set_within_steps: "set (within_steps f n ps) = {q. \<exists>p \<in> set ps. \<exists>k \<le> n. (p, q) \<in> steps f ^^ k}"
proof (induction n arbitrary: ps)
  case (Suc n)
  have "(\<exists>k \<le> Suc n. (p, q) \<in> steps f ^^ k) \<longleftrightarrow> p = q \<or> (\<exists>r \<in> set (f p). \<exists>k \<le> n. (r, q) \<in> steps f ^^ k)" for p q
  proof -
    have "(\<exists>k \<le> Suc n. (p, q) \<in> steps f ^^ k) \<longleftrightarrow> (p, q) \<in> steps f ^^ 0 \<or> (\<exists>k \<le> n. (p, q) \<in> steps f ^^ Suc k)"
      by (metis Suc_le_mono bot_nat_0.extremum not0_implies_Suc)
    then show ?thesis unfolding steps_Suc by auto
  qed
  then show ?case using Suc by auto
qed auto

text \<open>Steps that do not go back can be had in as many as there are positions.\<close>

lemma steps_bounded:
  assumes "\<And>p q. q \<in> set (f p) \<Longrightarrow> p \<le> q"
  shows "(p, q) \<in> steps f ^^ k \<Longrightarrow> \<exists>j \<le> q - p. (p, q) \<in> steps f ^^ j"
proof (induction k arbitrary: p)
  case (Suc k)
  obtain r where r: "(p, r) \<in> steps f" "(r, q) \<in> steps f ^^ k" using relpow_Suc_D2 [OF Suc.prems] by blast
  obtain j where j: "j \<le> q - r" "(r, q) \<in> steps f ^^ j" using Suc.IH [OF r(2)] by blast
  have "r \<le> q" using r(2)
  proof (induction k arbitrary: r)
    case (Suc k)
    then obtain m where "(r, m) \<in> steps f" "(m, q) \<in> steps f ^^ k" using relpow_Suc_D2 by metis
    then show ?case using Suc.IH assms [of m r] by (fastforce simp: steps_def)
  qed simp
  show ?case
  proof (cases "r = p")
    case False
    then have "Suc j \<le> q - p" using j(1) \<open>r \<le> q\<close> assms [of r p] r(1) by (auto simp: steps_def)
    moreover have "(p, q) \<in> steps f ^^ Suc j" using relpow_Suc_I2 [OF r(1) j(2)] .
    ultimately show ?thesis by blast
  qed (use j in auto)
qed auto

lemma rx_ends_le: "e \<in> set (rx_ends s r i) \<Longrightarrow> i \<le> e"
proof (induction r arbitrary: i e)
  case (RxRepeat r m n)
  have le: "p \<le> q" if "(p, q) \<in> steps (rx_ends s r) ^^ k" for p q k
    using that
  proof (induction k arbitrary: p)
    case (Suc k)
    then obtain x where "(p, x) \<in> steps (rx_ends s r)" "(x, q) \<in> steps (rx_ends s r) ^^ k" using relpow_Suc_D2 by metis
    then show ?case using Suc.IH RxRepeat.IH [of x p] by (fastforce simp: steps_def)
  qed simp
  show ?case using RxRepeat.prems by (auto simp: set_within_steps set_after_steps dest!: le)
qed (fastforce split: if_splits)+

lemma steps_occur:
  assumes "\<And>p q. p \<le> length s \<Longrightarrow> q \<in> set (f p) \<longleftrightarrow> (\<exists>w \<in> A. occurs w s p \<and> q = p + length w)"
  shows "p \<le> length s \<Longrightarrow> (p, q) \<in> steps f ^^ k \<longleftrightarrow> (\<exists>w \<in> lang_pow A k. occurs w s p \<and> q = p + length w)"
proof (induction k arbitrary: p)
  case (Suc k)
  have "(p, q) \<in> steps f ^^ Suc k \<longleftrightarrow> (\<exists>r \<in> set (f p). (r, q) \<in> steps f ^^ k)"
    by (rule steps_Suc)
  also have "\<dots> \<longleftrightarrow> (\<exists>v \<in> A. occurs v s p \<and> (p + length v, q) \<in> steps f ^^ k)"
    unfolding assms [OF Suc.prems] Bex_def by blast
  also have "\<dots> \<longleftrightarrow> (\<exists>v \<in> A. occurs v s p \<and> (\<exists>w \<in> lang_pow A k. occurs w s (p + length v) \<and> q = p + length v + length w))"
    using Suc.IH occurs_length by blast
  also have "\<dots> \<longleftrightarrow> (\<exists>w \<in> lang_pow A (Suc k). occurs w s p \<and> q = p + length w)"
    by (fastforce simp: conc_def occurs_append add.assoc)
  finally show ?case .
qed auto

theorem rx_ends_lang:
  "without_anchors r \<Longrightarrow> i \<le> length s \<Longrightarrow> e \<in> set (rx_ends s r i) \<longleftrightarrow> (\<exists>w \<in> rx_lang r. occurs w s i \<and> e = i + length w)"
proof (induction r arbitrary: i e)
  case (RxSeq a b)
  have "e \<in> set (rx_ends s (RxSeq a b) i) \<longleftrightarrow> (\<exists>v \<in> rx_lang a. occurs v s i \<and> e \<in> set (rx_ends s b (i + length v)))"
    using RxSeq by auto
  also have "\<dots> \<longleftrightarrow> (\<exists>v \<in> rx_lang a. occurs v s i \<and> (\<exists>w \<in> rx_lang b. occurs w s (i + length v) \<and> e = i + length v + length w))"
    using RxSeq occurs_length [of _ s i] by (meson add_leD1 without_anchors.simps(3))
  also have "\<dots> \<longleftrightarrow> (\<exists>w \<in> rx_lang (RxSeq a b). occurs w s i \<and> e = i + length w)"
    by (fastforce simp: conc_def occurs_append add.assoc)
  finally show ?case .
next
  case (RxRepeat r m n)
  let ?f = "rx_ends s r" and ?N = "case n of None \<Rightarrow> length s | Some n \<Rightarrow> n - m"
  have f: "q \<in> set (?f p) \<longleftrightarrow> (\<exists>w \<in> rx_lang r. occurs w s p \<and> q = p + length w)" if "p \<le> length s" for p q
    using RxRepeat that by simp
  have "e \<in> set (rx_ends s (RxRepeat r m n) i) \<longleftrightarrow> (\<exists>p. (i, p) \<in> steps ?f ^^ m \<and> (\<exists>k \<le> ?N. (p, e) \<in> steps ?f ^^ k))"
    by (auto simp: set_within_steps set_after_steps)
  also have "\<dots> \<longleftrightarrow> (\<exists>k. (n = None \<or> k \<le> the n - m) \<and> (i, e) \<in> steps ?f ^^ (m + k))"
  proof
    assume "\<exists>p. (i, p) \<in> steps ?f ^^ m \<and> (\<exists>k \<le> ?N. (p, e) \<in> steps ?f ^^ k)"
    then obtain p k where "(i, p) \<in> steps ?f ^^ m" "k \<le> ?N" "(p, e) \<in> steps ?f ^^ k" by blast
    then have "(i, e) \<in> steps ?f ^^ (m + k)" "n = None \<or> k \<le> the n - m" by (auto simp: relpow_add split: option.splits)
    then show "\<exists>k. (n = None \<or> k \<le> the n - m) \<and> (i, e) \<in> steps ?f ^^ (m + k)" by blast
  next
    assume "\<exists>k. (n = None \<or> k \<le> the n - m) \<and> (i, e) \<in> steps ?f ^^ (m + k)"
    then obtain k p where k: "n = None \<or> k \<le> the n - m" "(i, p) \<in> steps ?f ^^ m" "(p, e) \<in> steps ?f ^^ k"
      by (auto simp: relpow_add)
    show "\<exists>p. (i, p) \<in> steps ?f ^^ m \<and> (\<exists>k \<le> ?N. (p, e) \<in> steps ?f ^^ k)"
    proof (cases n)
      case None
      have p: "p \<le> length s" using k(2) steps_occur [OF f] RxRepeat.prems(2) occurs_length by fastforce
      have "e \<le> length s" using k(3) steps_occur [OF f] p occurs_length by fastforce
      moreover obtain j where "j \<le> e - p" "(p, e) \<in> steps ?f ^^ j"
        using steps_bounded [of ?f, OF _ k(3)] rx_ends_le by blast
      ultimately have "\<exists>k \<le> length s. (p, e) \<in> steps ?f ^^ k" by (meson diff_le_self le_trans)
      then show ?thesis using k(2) None by auto
    qed (use k in auto)
  qed
  also have "\<dots> \<longleftrightarrow> (\<exists>k. (n = None \<or> k \<le> the n - m) \<and> (\<exists>w \<in> lang_pow (rx_lang r) (m + k). occurs w s i \<and> e = i + length w))"
    using steps_occur [OF f RxRepeat.prems(2)] by simp
  also have "\<dots> \<longleftrightarrow> (\<exists>w \<in> rx_lang (RxRepeat r m n). occurs w s i \<and> e = i + length w)"
  proof -
    have "(\<exists>k. (n = None \<or> k \<le> the n - m) \<and> P (m + k)) \<longleftrightarrow> (\<exists>k \<in> {k. m \<le> k \<and> (n = None \<or> k \<le> max m (the n))}. P k)" for P
    proof
      assume "\<exists>k. (n = None \<or> k \<le> the n - m) \<and> P (m + k)"
      then obtain k where "n = None \<or> k \<le> the n - m" "P (m + k)" by blast
      then show "\<exists>k \<in> {k. m \<le> k \<and> (n = None \<or> k \<le> max m (the n))}. P k" by (intro bexI [of _ "m + k"]) auto
    next
      assume "\<exists>k \<in> {k. m \<le> k \<and> (n = None \<or> k \<le> max m (the n))}. P k"
      then obtain k where "m \<le> k" "n = None \<or> k \<le> max m (the n)" "P k" by blast
      then show "\<exists>k. (n = None \<or> k \<le> the n - m) \<and> P (m + k)" by (intro exI [of _ "k - m"]) auto
    qed
    from this [of "\<lambda>k. \<exists>w \<in> lang_pow (rx_lang r) k. occurs w s i \<and> e = i + length w"]
    show ?thesis unfolding rx_lang.simps bex_UN .
  qed
  finally show ?case .
next
  case (RxSet negated ranges)
  then show ?case by (auto simp: occurs_one)
next
  case (RxAlt a b)
  then show ?case by (simp add: Bex_def) blast
qed simp_all

text \<open>An expression between anchors accepts the words of its language.\<close>

corollary anchored_test:
  assumes "without_anchors r"
  shows "rx_test (RxSeq RxBegin (RxSeq r RxEnd)) s \<longleftrightarrow> s \<in> rx_lang r"
proof -
  have "rx_ends s (RxSeq RxBegin (RxSeq r RxEnd)) i \<noteq> [] \<longleftrightarrow> i = 0 \<and> length s \<in> set (rx_ends s r 0)" for i
    by (auto split: if_splits)
  then have "rx_test (RxSeq RxBegin (RxSeq r RxEnd)) s \<longleftrightarrow> length s \<in> set (rx_ends s r 0)"
    by (auto simp: rx_test_def simp del: upt_Suc)
  also have "\<dots> \<longleftrightarrow> (\<exists>w \<in> rx_lang r. occurs w s 0 \<and> length w = length s)"
    using rx_ends_lang [OF assms, of 0 s] by auto
  finally show ?thesis using occurs_all [of _ s] by auto
qed

end
