(* ===== verification/Routing.thy ===== *)
theory Routing
  imports JS_RegExp
begin

text \<open>
  The routing of \<open>js/server/modules/org/arangodb/actions.js\<close>: a list of routes is built into a tree for every HTTP
  method, the tree is flattened into a list of regular expressions, and a request walks through the list, from one
  handler to the next one for as long as the handlers ask for it. Handlers are trees of interaction: a handler
  ends, throws, or calls \<open>next\<close> and goes on with the outcome. Modules that actions name are loaded by a parameter.
  A handler that catches an exception of \<open>next\<close> goes on with the request and the response as it had left them: what the
  handlers below it changed before the exception is not seen by it. Writing to the console is left out.
\<close>

subsection \<open>Requests, responses and handlers\<close>

record request =
  rq_type :: string
  rq_url :: string
  rq_suffix :: "string list option"
  rq_path :: "string option"
  rq_prefix :: "string option"
  rq_params :: "(string \<times> string option) list"

record response =
  rs_code :: int
  rs_type :: string
  rs_body :: string
  rs_headers :: "jsval option"

type_synonym exchange = "request \<times> response"

datatype handler_run =
    Done exchange
  | Throw js_exc
  | CallNext bool exchange "js_exc + exchange \<Rightarrow> handler_run"

type_synonym handler = "jsval \<Rightarrow> exchange \<Rightarrow> handler_run"

definition ALL_METHODS :: "string list" where
  "ALL_METHODS = [''DELETE'', ''GET'', ''HEAD'', ''OPTIONS'', ''POST'', ''PUT'', ''PATCH'']"

definition respond :: "int \<Rightarrow> string \<Rightarrow> string \<Rightarrow> handler" where
  "respond code type body = (\<lambda>options (req, res). Done (req, res\<lparr>rs_code := code, rs_type := type, rs_body := body\<rparr>))"

subsection \<open>Routes\<close>

datatype route_url =
    UrlMissing
  | UrlString string
  | UrlMatch string "string list option" "(string \<times> string) list option"
  | UrlOther

record static_content =
  sc_type :: "string option"
  sc_body :: "string option"
  sc_methods :: "string list option"
  sc_options :: "jsval option"

datatype content = ContentString string | ContentObject static_content

datatype action_callback = CallbackText string | CallbackFunction handler | CallbackOther string string

record action_object =
  ac_callback :: "action_callback option"
  ac_do :: "string option"
  ac_controller :: "string option"
  ac_prefixController :: "string option"
  ac_options :: "jsval option"
  ac_methods :: "string list option"

datatype action = ActionString string | ActionObject action_object

record route =
  rt_name :: string
  rt_url :: route_url
  rt_priority :: "jsnum option"
  rt_content :: "content option"
  rt_action :: "action option"

text \<open>What the server provides: compiled texts, modules by name with their exports, and \<open>JSON.stringify\<close> of a route and of a flat route with a path.\<close>

datatype compiled = CompileFailed string | CompiledNothing | Compiled handler

datatype module_export = ExportFunction handler | ExportOther string

datatype loaded = Loaded string "(string \<times> module_export) list" | ModuleNotFound string | LoadFailed string

record modules =
  md_compile :: "string \<Rightarrow> compiled"
  md_require :: "string \<Rightarrow> loaded"
  md_describe :: "route \<Rightarrow> string"
  md_describe_flat :: "string \<Rightarrow> route \<Rightarrow> string"

record route_callback =
  cb_controller :: "handler option"
  cb_options :: jsval
  cb_methods :: "string list"

definition empty_options :: jsval where
  "empty_options = JObj []"

definition errorFunction :: "modules \<Rightarrow> route \<Rightarrow> string \<Rightarrow> handler" where
  "errorFunction md route message =
     respond 500 ''text/plain'' (message @ CHR 10 # ''This error was triggered by the following route '' @ md_describe md route)"

definition notImplementedFunction :: "route \<Rightarrow> string \<Rightarrow> handler" where
  "notImplementedFunction route message =
     respond 501 ''text/plain''
       (message @ CHR 10 # ''This error was triggered by the following route '' @ CHR 39 # rt_name route @ [CHR 39])"

subsection \<open>Callbacks of actions\<close>

definition quoted :: "string \<Rightarrow> string" where
  "quoted s = CHR 39 # s @ [CHR 39]"

definition action_result :: "action_object \<Rightarrow> handler option \<Rightarrow> route_callback" where
  "action_result action func = \<lparr>cb_controller = func,
     cb_options = (case ac_options action of None \<Rightarrow> empty_options | Some v \<Rightarrow> if js_truthy v then v else empty_options),
     cb_methods = (case ac_methods action of None \<Rightarrow> ALL_METHODS | Some ms \<Rightarrow> ms)\<rparr>"

definition createCallbackActionCallbackString :: "modules \<Rightarrow> string \<Rightarrow> route \<Rightarrow> string + handler" where
  "createCallbackActionCallbackString md callback route = (case md_compile md callback of
      CompileFailed message \<Rightarrow> Inl message
    | CompiledNothing \<Rightarrow> Inr (notImplementedFunction route (''could not generate callback for '' @ quoted callback))
    | Compiled func \<Rightarrow> Inr func)"

definition lookupCallbackActionCallbackString :: "modules \<Rightarrow> route \<Rightarrow> action_object \<Rightarrow> string \<Rightarrow> route_callback" where
  "lookupCallbackActionCallbackString md route action callback =
     action_result action (Some (case createCallbackActionCallbackString md callback route of
        Inl message \<Rightarrow> errorFunction md route
          (''an error occurred construction callback for '' @ quoted callback @ '': '' @ message)
      | Inr func \<Rightarrow> func))"

definition lookupCallbackActionCallback :: "modules \<Rightarrow> route \<Rightarrow> action_object \<Rightarrow> action_callback \<Rightarrow> route_callback" where
  "lookupCallbackActionCallback md route action callback = (case callback of
      CallbackText text \<Rightarrow> lookupCallbackActionCallbackString md route action text
    | CallbackFunction func \<Rightarrow> action_result action (Some func)
    | CallbackOther text type \<Rightarrow> action_result action (Some (errorFunction md route
        (''an error occurred while generating callback '' @ quoted text @ '': unknown type '' @ quoted type))))"

text \<open>A module that is not loaded gives a function that reports it.\<close>

definition requireModule :: "modules \<Rightarrow> string \<Rightarrow> route \<Rightarrow> handler + (string \<times> (string \<times> module_export) list)" where
  "requireModule md name route = (case md_require md name of
      Loaded ident exports \<Rightarrow> Inr (ident, exports)
    | ModuleNotFound message \<Rightarrow> Inl (notImplementedFunction route
        (''an error occurred while loading the action module '' @ quoted name @ '': '' @ message))
    | LoadFailed message \<Rightarrow> Inl (errorFunction md route
        (''an error occurred while loading action module '' @ quoted name @ '': '' @ message)))"

definition moduleFunction :: "modules \<Rightarrow> string \<times> (string \<times> module_export) list \<Rightarrow> string \<Rightarrow> route \<Rightarrow> handler" where
  "moduleFunction md actionModule name route = (case map_of (snd actionModule) name of
      Some (ExportFunction func) \<Rightarrow> func
    | export \<Rightarrow> errorFunction md route
        (''invalid definition ('' @ quoted (case export of Some (ExportOther type) \<Rightarrow> type | _ \<Rightarrow> ''undefined'')
          @ '') for '' @ quoted name @ '' action in action module '' @ quoted (fst actionModule)))"

text \<open>The function for a module that was not loaded is not returned: \<open>func\<close> is not yet defined there.\<close>

definition lookupCallbackActionDo :: "modules \<Rightarrow> route \<Rightarrow> action_object \<Rightarrow> string \<Rightarrow> route_callback" where
  "lookupCallbackActionDo md route action name =
     (let path = split_char CHR ''/'' name; funcName = last path; moduleName = join ''/'' (butlast path)
      in case requireModule md moduleName route of
           Inl _ \<Rightarrow> action_result action None
         | Inr actionModule \<Rightarrow> action_result action (Some (if map_of (snd actionModule) funcName \<noteq> None
             then moduleFunction md actionModule funcName route
             else notImplementedFunction route (''could not find action named '' @ quoted funcName
               @ '' in module '' @ quoted moduleName))))"

definition method_upper :: "char \<Rightarrow> char" where
  "method_upper c = (let n = of_char c :: nat in if 97 \<le> n \<and> n \<le> 122 then char_of (n - 32) else c)"

definition method_lower :: "char \<Rightarrow> char" where
  "method_lower c = (let n = of_char c :: nat in if 65 \<le> n \<and> n \<le> 90 then char_of (n + 32) else c)"

definition createCallbackActionController :: "modules \<Rightarrow> string \<times> (string \<times> module_export) list \<Rightarrow> route \<Rightarrow> handler" where
  "createCallbackActionController md actionModule route = (\<lambda>options (req, res).
     let m = map method_lower (rq_type req);
         m = (if map_of (snd actionModule) m = None then ''do'' else m)
     in if map_of (snd actionModule) m \<noteq> None then moduleFunction md actionModule m route options (req, res)
        else CallNext False (req, res) (\<lambda>outcome. case outcome of Inl e \<Rightarrow> Throw e | Inr st \<Rightarrow> Done st))"

definition lookupCallbackActionController :: "modules \<Rightarrow> route \<Rightarrow> action_object \<Rightarrow> string \<Rightarrow> route_callback" where
  "lookupCallbackActionController md route action name = action_result action (Some
     (case requireModule md name route of
        Inl func \<Rightarrow> func
      | Inr actionModule \<Rightarrow> createCallbackActionController md actionModule route))"

definition lookupCallbackActionPrefixController :: "modules \<Rightarrow> route \<Rightarrow> action_object \<Rightarrow> string \<Rightarrow> route_callback" where
  "lookupCallbackActionPrefixController md route action prefix = action_result action (Some
     (\<lambda>options (req, res).
        let path = (case rq_suffix req of None \<Rightarrow> prefix | Some suffix \<Rightarrow> prefix @ ''/'' @ join ''/'' suffix)
        in case requireModule md path route of
             Inl func \<Rightarrow> func options (req, res)
           | Inr actionModule \<Rightarrow> createCallbackActionController md actionModule route options (req, res)))"

definition lookupCallbackAction :: "modules \<Rightarrow> route \<Rightarrow> action \<Rightarrow> route_callback option" where
  "lookupCallbackAction md route action = (case action of
      ActionString name \<Rightarrow> Some (lookupCallbackActionPrefixController md route
        \<lparr>ac_callback = None, ac_do = None, ac_controller = None, ac_prefixController = Some name,
         ac_options = None, ac_methods = None\<rparr> name)
    | ActionObject a \<Rightarrow> (case (ac_callback a, ac_do a, ac_controller a, ac_prefixController a) of
        (Some callback, _, _, _) \<Rightarrow> Some (lookupCallbackActionCallback md route a callback)
      | (None, Some name, _, _) \<Rightarrow> Some (lookupCallbackActionDo md route a name)
      | (None, None, Some name, _) \<Rightarrow> Some (lookupCallbackActionController md route a name)
      | (None, None, None, Some prefix) \<Rightarrow> Some (lookupCallbackActionPrefixController md route a prefix)
      | (None, None, None, None) \<Rightarrow> None))"

definition createCallbackStatic :: "int \<Rightarrow> string \<Rightarrow> string \<Rightarrow> handler" where
  "createCallbackStatic code type body = respond code type body"

definition default_string :: "string option \<Rightarrow> string \<Rightarrow> string" where
  "default_string s d = (case s of None \<Rightarrow> d | Some t \<Rightarrow> if t = [] then d else t)"

definition lookupCallbackStatic :: "content \<Rightarrow> route_callback" where
  "lookupCallbackStatic content = (case content of
      ContentString body \<Rightarrow> \<lparr>cb_controller = Some (createCallbackStatic 200 ''text/plain'' body),
        cb_options = empty_options, cb_methods = [''GET'', ''HEAD'']\<rparr>
    | ContentObject c \<Rightarrow> \<lparr>cb_controller = Some (createCallbackStatic 200
          (default_string (sc_type c) ''text/plain'') (default_string (sc_body c) [])),
        cb_options = (case sc_options c of None \<Rightarrow> empty_options | Some v \<Rightarrow> if js_truthy v then v else empty_options),
        cb_methods = (case sc_methods c of None \<Rightarrow> [''GET'', ''HEAD''] | Some ms \<Rightarrow> ms)\<rparr>)"

definition lookupCallback :: "modules \<Rightarrow> route \<Rightarrow> route_callback option" where
  "lookupCallback md route = (case rt_content route of
      Some content \<Rightarrow> Some (lookupCallbackStatic content)
    | None \<Rightarrow> (case rt_action route of Some action \<Rightarrow> lookupCallbackAction md route action | None \<Rightarrow> None))"

subsection \<open>URLs of routes\<close>

datatype url_part = Exact string | Parameters "string list" bool | Prefix

definition is_letter :: "char \<Rightarrow> bool" where
  "is_letter c \<longleftrightarrow> (let n = of_char c :: nat in (65 \<le> n \<and> n \<le> 90) \<or> (97 \<le> n \<and> n \<le> 122))"

text \<open>The expressions \<open>re1\<close> and \<open>re2\<close>: alternatives of a colon and letters, and one such with a question mark.\<close>

definition is_parameter :: "string \<Rightarrow> bool" where
  "is_parameter p \<longleftrightarrow> take 1 p = '':'' \<and> tl p \<noteq> [] \<and> list_all is_letter (tl p)"

definition parameter_part :: "string \<Rightarrow> bool" where
  "parameter_part p \<longleftrightarrow> list_all is_parameter (split_char CHR ''|'' p)"

definition optional_part :: "string \<Rightarrow> bool" where
  "optional_part p \<longleftrightarrow> p \<noteq> [] \<and> last p = CHR ''?'' \<and> is_parameter (butlast p)"

definition split_step :: "url_part list \<Rightarrow> string \<Rightarrow> url_part list" where
  "split_step cleaned part =
     (if part = [] \<or> part = ''.'' then cleaned
      else if part = ''..'' then butlast cleaned
      else if part = ''*'' then cleaned @ [Prefix]
      else if parameter_part part then cleaned @ [Parameters (map tl (split_char CHR ''|'' part)) False]
      else if optional_part part then cleaned @ [Parameters [butlast (tl part)] True]
      else cleaned @ [Exact part])"

definition splitUrl :: "string \<Rightarrow> url_part list" where
  "splitUrl url = foldl split_step [] (split_char CHR ''/'' url)"

record url_info =
  ui_parts :: "url_part list"
  ui_methods :: "string list"
  ui_constraint :: "(string \<times> string) list"

definition lookupUrl :: "string \<Rightarrow> route_url \<Rightarrow> url_info option" where
  "lookupUrl prefix url = (case url of
      UrlMissing \<Rightarrow> None
    | UrlString text \<Rightarrow> if text = [] then None
        else Some \<lparr>ui_parts = splitUrl (prefix @ ''/'' @ text), ui_methods = [''GET'', ''HEAD''], ui_constraint = []\<rparr>
    | UrlMatch match methods constraint \<Rightarrow> Some \<lparr>ui_parts = splitUrl (prefix @ ''/'' @ match),
        ui_methods = (case methods of None \<Rightarrow> ALL_METHODS | Some ms \<Rightarrow> ms),
        ui_constraint = (case constraint of None \<Rightarrow> [] | Some c \<Rightarrow> c)\<rparr>
    | UrlOther \<Rightarrow> None)"

subsection \<open>The routing tree\<close>

record route_entry =
  re_route :: route
  re_priority :: jsnum
  re_callback :: route_callback

text \<open>
  A missing list of the code is the empty list here; below a prefix there are only routes. A parameter
  has its name, its constraint and whether it is optional.
\<close>

datatype 'e rtree =
  RNode (exact_matches: "(string \<times> 'e rtree) list") (parameter_matches: "'e rparam list")
    (node_routes: "'e list") (prefix_routes: "'e list")
and 'e rparam = RParam string "string option" bool "'e rtree"

definition empty_node :: "'e rtree" where
  "empty_node = RNode [] [] [] []"

definition child_at :: "string \<Rightarrow> (string \<times> 'e rtree) list \<Rightarrow> 'e rtree" where
  "child_at k ex = (case map_of ex k of None \<Rightarrow> empty_node | Some t \<Rightarrow> t)"

definition add_route :: "'e \<Rightarrow> 'e rtree \<Rightarrow> 'e rtree" where
  "add_route e t = (case t of RNode ex ps rs pf \<Rightarrow> RNode ex ps (rs @ [e]) pf)"

text \<open>An URL without parts is the exact match of an empty part.\<close>

function defineRoutePart :: "'e rtree \<Rightarrow> url_part list \<Rightarrow> (string \<times> string) list \<Rightarrow> 'e \<Rightarrow> 'e rtree" where
  "defineRoutePart (RNode ex ps rs pf) parts constraint e =
     (case (if parts = [] then [Exact []] else parts) of
        [] \<Rightarrow> RNode ex ps rs pf
      | Exact k # rest \<Rightarrow>
          let sub = child_at k ex
          in RNode (AList.update k (if rest \<noteq> [] then defineRoutePart sub rest constraint e else add_route e sub) ex) ps rs pf
      | Parameters names optional # rest \<Rightarrow>
          if optional \<and> (rest \<noteq> [] \<or> length names \<noteq> 1) then RNode ex ps rs pf
          else RNode ex (ps @ map (\<lambda>p. RParam p (map_of constraint p) optional
                 (if rest \<noteq> [] then defineRoutePart empty_node rest constraint e else add_route e empty_node)) names) rs pf
      | Prefix # rest \<Rightarrow> if rest \<noteq> [] then RNode ex ps rs pf else RNode ex ps rs (pf @ [e]))"
  by pat_completeness auto
termination
  by (relation "measure (\<lambda>(t, parts, constraint, e). length parts)") (auto split: if_splits)

definition intersectMethods :: "string list \<Rightarrow> string list \<Rightarrow> string list" where
  "intersectMethods a b =
     (let d = map (map method_upper) b in filter (\<lambda>name. name \<in> set d) (map (map method_upper) a))"

type_synonym 'e method_trees = "(string \<times> 'e rtree) list"

text \<open>A method that the tree does not have raises an exception; what was stored before stays.\<close>

fun define_methods :: "route_entry method_trees \<Rightarrow> url_info \<Rightarrow> route_entry \<Rightarrow> string list \<Rightarrow> route_entry method_trees \<times> js_exc option" where
  "define_methods storage url e [] = (storage, None)"
| "define_methods storage url e (method # ms) = (case map_of storage method of
      None \<Rightarrow> (storage, Some TypeError)
    | Some t \<Rightarrow> define_methods (AList.update method (defineRoutePart t (ui_parts url) (ui_constraint url) e) storage) url e ms)"

definition route_priority :: "route \<Rightarrow> jsnum" where
  "route_priority route = (case rt_priority route of None \<Rightarrow> Fin 0 | Some NaN \<Rightarrow> Fin 0 | Some p \<Rightarrow> p)"

definition defineRoute ::
    "route_entry method_trees \<Rightarrow> route \<Rightarrow> url_info \<Rightarrow> route_callback \<Rightarrow> route_entry method_trees \<times> js_exc option" where
  "defineRoute storage route url callback =
     define_methods storage url \<lparr>re_route = route, re_priority = route_priority route, re_callback = callback\<rparr>
       (intersectMethods (ui_methods url) (cb_methods callback))"

definition installRoute ::
    "modules \<Rightarrow> route_entry method_trees \<Rightarrow> route \<Rightarrow> string \<Rightarrow> route_entry method_trees \<times> js_exc option" where
  "installRoute md storage route urlPrefix = (case lookupUrl urlPrefix (rt_url route) of
      None \<Rightarrow> (storage, None)
    | Some url \<Rightarrow> (case lookupCallback md route of
          None \<Rightarrow> (storage, None)
        | Some callback \<Rightarrow> defineRoute storage route url callback))"

text \<open>A bundle has routes or middleware below a prefix; anything else is a route of its own.\<close>

record route_bundle =
  bd_urlPrefix :: string
  bd_routes :: "route list"
  bd_middleware :: "route list"

datatype routes_item = Bundle route_bundle | SingleRoute route

record routing_tree =
  tr_routes :: "route_entry method_trees"
  tr_middleware :: "route_entry method_trees"

fun install_all :: "modules \<Rightarrow> route_entry method_trees \<Rightarrow> route list \<Rightarrow> string \<Rightarrow> route_entry method_trees \<times> js_exc option" where
  "install_all md storage [] urlPrefix = (storage, None)"
| "install_all md storage (r # rs) urlPrefix = (case installRoute md storage r urlPrefix of
      (storage, None) \<Rightarrow> install_all md storage rs urlPrefix
    | (storage, Some e) \<Rightarrow> (storage, Some e))"

definition analyseRoutes :: "modules \<Rightarrow> routing_tree \<Rightarrow> route_bundle \<Rightarrow> routing_tree \<times> js_exc option" where
  "analyseRoutes md storage routes = (case install_all md (tr_routes storage) (bd_routes routes) (bd_urlPrefix routes) of
      (rs, Some e) \<Rightarrow> (storage\<lparr>tr_routes := rs\<rparr>, Some e)
    | (rs, None) \<Rightarrow> (case install_all md (tr_middleware storage) (bd_middleware routes) (bd_urlPrefix routes) of
          (mw, e) \<Rightarrow> (storage\<lparr>tr_routes := rs, tr_middleware := mw\<rparr>, e)))"

definition empty_storage :: routing_tree where
  "empty_storage = \<lparr>tr_routes = map (\<lambda>m. (m, empty_node)) ALL_METHODS, tr_middleware = map (\<lambda>m. (m, empty_node)) ALL_METHODS\<rparr>"

text \<open>An exception ends the installation of one item; it is written to the console.\<close>

definition install_item :: "modules \<Rightarrow> routing_tree \<Rightarrow> routes_item \<Rightarrow> routing_tree" where
  "install_item md storage item = (case item of
      Bundle routes \<Rightarrow> fst (analyseRoutes md storage routes)
    | SingleRoute route \<Rightarrow> storage\<lparr>tr_routes := fst (installRoute md (tr_routes storage) route [])\<rparr>)"

definition buildRoutingTree :: "modules \<Rightarrow> routes_item list \<Rightarrow> routing_tree" where
  "buildRoutingTree md routes = foldl (install_item md) empty_storage routes"

subsection \<open>Flattening\<close>

record flat_route =
  fr_path :: string
  fr_regexp :: rx
  fr_prefix :: bool
  fr_depth :: nat
  fr_params :: "(string \<times> nat) list"
  fr_callback :: route_callback
  fr_route :: route

definition escape_part :: "string \<Rightarrow> string" where
  "escape_part k = concat (map (\<lambda>c. if c \<in> set ''.+*?^$()[]'' then [CHR 92, c] else [c]) k)"

text \<open>\<open>/\/.*\//.test(constraint)\<close>: two slashes in one line.\<close>

definition slash_delimited :: "string \<Rightarrow> bool" where
  "slash_delimited constraint = rx_test (RxSeq (RxSet False [(CHR ''/'', CHR ''/'')])
     (RxSeq (RxRepeat (RxSet True [(CHR 10, CHR 10), (CHR 13, CHR 13)]) 0 None) (RxSet False [(CHR ''/'', CHR ''/'')]))) constraint"

definition parameter_match :: "string option \<Rightarrow> string" where
  "parameter_match constraint = (case constraint of
      None \<Rightarrow> ''/[^/]+''
    | Some c \<Rightarrow> if slash_delimited c then CHR ''/'' # take (length c - 2) (drop 1 c) else CHR ''/'' # c)"

definition optional_match :: "bool \<Rightarrow> string \<Rightarrow> string" where
  "optional_match optional match = (if optional then ''('' @ match @ '')?'' else match)"

definition by_priority :: "route_entry \<Rightarrow> route_entry \<Rightarrow> int" where
  "by_priority a b = (let d = num_sub (re_priority b) (re_priority a)
     in if num_lt (Fin 0) d then 1 else if num_lt d (Fin 0) then - 1 else 0)"

text \<open>\<open>_shallowCopy\<close> leaves the names out that begin with an underscore or a dollar sign.\<close>

definition shallow_copy :: "(string \<times> nat) list \<Rightarrow> (string \<times> nat) list" where
  "shallow_copy ob = filter (\<lambda>(k, v). take 1 k \<notin> {''_'', ''$''}) ob"

text \<open>The flat routes of one node; \<open>new RegExp\<close> can raise a syntax error.\<close>

definition flatten_entries ::
    "route_entry list \<Rightarrow> string \<Rightarrow> string \<Rightarrow> (string \<times> nat) list \<Rightarrow> nat \<Rightarrow> bool \<Rightarrow> js_exc + flat_route list" where
  "flatten_entries entries path rexpr urlParameters depth prefix =
     (if entries = [] then Inr []
      else case new_RegExp (''^'' @ rexpr @ ''$'') of
        None \<Rightarrow> Inl SyntaxError
      | Some re \<Rightarrow> Inr (map (\<lambda>e. \<lparr>fr_path = path, fr_regexp = re, fr_prefix = prefix, fr_depth = depth,
          fr_params = urlParameters, fr_callback = re_callback e, fr_route = re_route e\<rparr>) (js_sort by_priority entries)))"

fun concat_results :: "('e + 'a list) list \<Rightarrow> 'e + 'a list" where
  "concat_results [] = Inr []"
| "concat_results (x # xs) = (case x of Inl e \<Rightarrow> Inl e | Inr a \<Rightarrow> (case concat_results xs of Inl e \<Rightarrow> Inl e | Inr b \<Rightarrow> Inr (a @ b)))"

fun flattenRouting ::
    "route_entry rtree \<Rightarrow> string \<Rightarrow> string \<Rightarrow> (string \<times> nat) list \<Rightarrow> nat \<Rightarrow> bool \<Rightarrow> js_exc + flat_route list"
  and flattenParameter ::
    "route_entry rparam \<Rightarrow> string \<Rightarrow> string \<Rightarrow> (string \<times> nat) list \<Rightarrow> nat \<Rightarrow> js_exc + flat_route list" where
  "flattenRouting (RNode ex ps rs pf) path rexpr urlParameters depth prefix =
     concat_results
       (map (\<lambda>(k, t). flattenRouting t (path @ ''/'' @ k) (rexpr @ ''/'' @ escape_part k) urlParameters (Suc depth) False) (enumerated ex)
        @ map (\<lambda>p. flattenParameter p path rexpr urlParameters depth) ps
        @ [flatten_entries rs path rexpr urlParameters depth prefix,
           flatten_entries pf (path @ ''/...'') (rexpr @ ''(/[^/]+)*/?'') (shallow_copy urlParameters) (Suc depth) True])"
| "flattenParameter (RParam name constraint optional t) path rexpr urlParameters depth =
     flattenRouting t (path @ ''/<parameters>'') (rexpr @ optional_match optional (parameter_match constraint))
       (AList.update name depth urlParameters) (Suc depth) False"

type_synonym routing_list = "(string \<times> flat_route list) list"

fun flatten_methods :: "routing_tree \<Rightarrow> string list \<Rightarrow> js_exc + routing_list" where
  "flatten_methods tree [] = Inr []"
| "flatten_methods tree (method # ms) =
     (case (flattenRouting (child_at method (tr_routes tree)) [] [] [] 0 False) of
        Inl e \<Rightarrow> Inl e
      | Inr a \<Rightarrow> (case flattenRouting (child_at method (tr_middleware tree)) [] [] [] 0 False of
            Inl e \<Rightarrow> Inl e
          | Inr b \<Rightarrow> (case flatten_methods tree ms of
                Inl e \<Rightarrow> Inl e
              | Inr flat \<Rightarrow> Inr ((method, rev b @ a) # flat))))"

definition flattenRoutingTree :: "routing_tree \<Rightarrow> js_exc + routing_list" where
  "flattenRoutingTree tree = flatten_methods tree ALL_METHODS"

subsection \<open>Finding a route\<close>

text \<open>The routes of a database: its documents, then one for every mounted application, which \<open>foxx\<close> handles.\<close>

definition foxx_route :: "handler \<Rightarrow> string \<Rightarrow> route" where
  "foxx_route foxx mount = \<lparr>rt_name = ''foxx app mounted at '' @ quoted mount,
     rt_url = UrlMatch (mount @ ''/*'') None None, rt_priority = None, rt_content = None,
     rt_action = Some (ActionObject \<lparr>ac_callback = Some (CallbackFunction foxx), ac_do = None, ac_controller = None,
       ac_prefixController = None, ac_options = Some (JObj [(''mount'', JStr mount)]), ac_methods = None\<rparr>)\<rparr>"

definition buildRouting :: "modules \<Rightarrow> handler \<Rightarrow> routes_item list \<Rightarrow> string list \<Rightarrow> js_exc + routing_list" where
  "buildRouting md foxx documents mounts =
     flattenRoutingTree (buildRoutingTree md (documents @ map (\<lambda>mount. SingleRoute (foxx_route foxx mount)) mounts))"

record routing_state =
  st_routing :: "flat_route list"
  st_parts :: "string list"
  st_position :: int
  st_url :: string
  st_route :: "flat_route option"
  st_prefix :: "string option"
  st_suffix :: "string list option"
  st_params :: "(string \<times> string option) list"

definition route_found :: "flat_route \<Rightarrow> int \<Rightarrow> routing_state \<Rightarrow> routing_state" where
  "route_found route i state = state
     \<lparr>st_position := i, st_route := Some route,
      st_prefix := (if fr_prefix route then Some (''/'' @ join ''/'' (take (fr_depth route - 1) (st_parts state))) else None),
      st_suffix := (if fr_prefix route then Some (drop (fr_depth route - 1) (st_parts state)) else None),
      st_params := map (\<lambda>(k, d). (k, if d < length (st_parts state) then Some (st_parts state ! d) else None)) (fr_params route)\<rparr>"

definition nextRouting :: "routing_state \<Rightarrow> routing_state" where
  "nextRouting state =
     (case List.find (\<lambda>i. rx_test (fr_regexp (st_routing state ! i)) (st_url state))
        [nat (st_position state + 1)..<length (st_routing state)] of
        Some i \<Rightarrow> route_found (st_routing state ! i) (int i) state
      | None \<Rightarrow> state\<lparr>st_route := None, st_prefix := None, st_suffix := None, st_params := []\<rparr>)"

datatype url_argument = UrlText string | UrlParts "string list"

definition firstRouting :: "string \<Rightarrow> url_argument \<Rightarrow> routing_list option \<Rightarrow> routing_state" where
  "firstRouting type parts routes =
     (let url = (case parts of UrlText text \<Rightarrow> text | UrlParts ps \<Rightarrow> ''/'' @ join ''/'' ps);
          ps = (case parts of UrlParts ps \<Rightarrow> ps
                | UrlText text \<Rightarrow> (let ps = split_char CHR ''/'' text in if hd ps = [] then tl ps else ps));
          start = \<lparr>st_routing = [], st_parts = ps, st_position = - 1, st_url = url, st_route = None,
                   st_prefix = None, st_suffix = None, st_params = []\<rparr>
      in case routes of None \<Rightarrow> start
         | Some rl \<Rightarrow> (case map_of rl type of None \<Rightarrow> start | Some list \<Rightarrow> nextRouting (start\<lparr>st_routing := list\<rparr>)))"

subsection \<open>Requests\<close>

definition result_error :: "int \<Rightarrow> int \<Rightarrow> string \<Rightarrow> jsobj \<Rightarrow> exchange \<Rightarrow> exchange" where
  "result_error code num msg keyvals st = (case st of (req, res) \<Rightarrow>
     (req, res\<lparr>rs_code := code, rs_type := ''application/json; charset=utf-8'',
        rs_body := (case json_stringify (JObj (obj_put ''errorMessage'' (JStr msg) (obj_put ''errorNum'' (JNum (Fin (of_int num)))
          (obj_put ''code'' (JNum (Fin (of_int code))) (obj_put ''error'' (JBool True) (enumerated keyvals)))))) of
            None \<Rightarrow> [] | Some s \<Rightarrow> s)\<rparr>))"

definition resultNotFound :: "exchange \<Rightarrow> int \<Rightarrow> string \<Rightarrow> exchange" where
  "resultNotFound st num msg = result_error 404 num msg [] st"

text \<open>The handler that runs for a state, and the request it sees.\<close>

definition prepared :: "routing_state \<Rightarrow> flat_route \<Rightarrow> exchange \<Rightarrow> exchange" where
  "prepared action route st = (case st of (req, res) \<Rightarrow>
     (req\<lparr>rq_path := Some (fr_path route), rq_prefix := st_prefix action, rq_suffix := st_suffix action,
          rq_params := st_params action\<rparr>, res))"

definition route_handler :: "modules \<Rightarrow> flat_route \<Rightarrow> handler" where
  "route_handler md route = (case cb_controller (fr_callback route) of
      Some func \<Rightarrow> func
    | None \<Rightarrow> (let shown = md_describe_flat md (fr_path route) (fr_route route)
        in respond 500 ''text/plain'' (''Invalid callback definition found for route '' @ shown
             @ CHR 10 # ''This error was triggered by the following route '' @ shown)))"

text \<open>
  A handler with its calls of \<open>next\<close>: \<open>call\<close> answers one, from the routing state that the calls share.
\<close>

primrec drive ::
    "(bool \<Rightarrow> routing_state \<Rightarrow> exchange \<Rightarrow> (routing_state \<times> (js_exc + exchange)) option) \<Rightarrow> handler_run \<Rightarrow> routing_state
     \<Rightarrow> (routing_state \<times> (js_exc + exchange)) option" where
  "drive call (Done st) action = Some (action, Inr st)"
| "drive call (Throw e) action = Some (action, Inl e)"
| "drive call (CallNext restart st k) action = (case call restart action st of
      None \<Rightarrow> None
    | Some (action, outcome) \<Rightarrow> drive call (k outcome) action)"

definition routing_of :: "routing_list \<Rightarrow> request \<Rightarrow> js_exc + routing_state" where
  "routing_of routes req = (case rq_suffix req of
      None \<Rightarrow> Inl TypeError
    | Some suffix \<Rightarrow> Inr (firstRouting (rq_type req) (UrlParts suffix) (Some routes)))"

text \<open>
  \<open>execute\<close> with the routes of the database for a restart; the fuel bounds how deep the calls of \<open>next\<close>
  are nested, which nothing in the code does. A restart has a routing state of its own.
\<close>

fun execute :: "nat \<Rightarrow> modules \<Rightarrow> routing_list \<Rightarrow> routing_state \<Rightarrow> exchange \<Rightarrow> (routing_state \<times> (js_exc + exchange)) option" where
  "execute 0 md routes action st = None"
| "execute (Suc fuel) md routes action st = (case st_route action of
      None \<Rightarrow> Some (action, Inr (resultNotFound st 404 (''unknown path '' @ quoted (rq_url (fst st)))))
    | Some route \<Rightarrow>
        drive (\<lambda>restart action st.
            if restart then (case routing_of routes (fst st) of
                Inl e \<Rightarrow> Some (action, Inl e)
              | Inr fresh \<Rightarrow> map_option (\<lambda>(_, outcome). (action, outcome)) (execute fuel md routes fresh st))
            else execute fuel md routes (nextRouting action) st)
          (route_handler md route (cb_options (fr_callback route)) (prepared action route st)) action)"

text \<open>\<open>own\<close> are the routes that are passed, those of the database or of an application.\<close>

definition routeRequest :: "nat \<Rightarrow> modules \<Rightarrow> routing_list \<Rightarrow> routing_list \<Rightarrow> exchange \<Rightarrow> (js_exc + exchange) option" where
  "routeRequest fuel md routes own st = (case routing_of own (fst st) of
      Inl e \<Rightarrow> Some (Inl e)
    | Inr action \<Rightarrow> map_option snd (execute fuel md routes action st))"

subsection \<open>Handlers of the module\<close>

definition return_outcome :: "js_exc + exchange \<Rightarrow> handler_run" where
  "return_outcome outcome = (case outcome of Inl e \<Rightarrow> Throw e | Inr st \<Rightarrow> Done st)"

definition logRequest :: handler where
  "logRequest options st = CallNext False st return_outcome"

definition rewriteRequest :: handler where
  "rewriteRequest options st = (case st of (req, res) \<Rightarrow>
     case js_get options (KName ''destination'') of
       JStr destination \<Rightarrow> CallNext True
         (req\<lparr>rq_suffix := Some (dropWhile (\<lambda>part. part = []) (split_char CHR ''/'' destination))\<rparr>, res) return_outcome
     | _ \<Rightarrow> Throw TypeError)"

end
