(* ===== verification/Routing_Match.thy ===== *)
theory Routing_Match
  imports Routing
begin

text \<open>
  The regular expressions of flat routes: the source text that is put together from the parts of an URL is read as
  the parts stand for, and matches a request as \<open>url_matches\<close> says. Keys with a brace, a bar or a
  backslash are not escaped by the code and are left out.
\<close>

subsection \<open>What a list of URL parts matches\<close>

fun url_matches :: "url_part list \<Rightarrow> string list \<Rightarrow> bool" where
  "url_matches [] ps \<longleftrightarrow> ps = []"
| "url_matches (Exact k # parts) ps \<longleftrightarrow> ps \<noteq> [] \<and> hd ps = k \<and> url_matches parts (tl ps)"
| "url_matches (Parameters names optional # parts) ps \<longleftrightarrow>
     (optional \<and> url_matches parts ps) \<or> (ps \<noteq> [] \<and> url_matches parts (tl ps))"
| "url_matches (Prefix # parts) ps \<longleftrightarrow> parts = []"

definition plain_key :: "string \<Rightarrow> bool" where
  "plain_key k \<longleftrightarrow> list_all (\<lambda>c. c \<noteq> CHR ''/'' \<and> c \<noteq> CHR ''{'' \<and> c \<noteq> CHR ''|'' \<and> c \<noteq> CHR 92) k"

definition plain_part :: "url_part \<Rightarrow> bool" where
  "plain_part part \<longleftrightarrow> (case part of Exact k \<Rightarrow> plain_key k | _ \<Rightarrow> True)"

text \<open>A prefix is the last part.\<close>

fun prefix_last :: "url_part list \<Rightarrow> bool" where
  "prefix_last [] \<longleftrightarrow> True"
| "prefix_last (part # parts) \<longleftrightarrow> (part = Prefix \<longrightarrow> parts = []) \<and> prefix_last parts"

definition request_part :: "string \<Rightarrow> bool" where
  "request_part p \<longleftrightarrow> p \<noteq> [] \<and> CHR ''/'' \<notin> set p"

definition request_url :: "string list \<Rightarrow> string" where
  "request_url ps = concat (map ((#) CHR ''/'') ps)"

lemma request_url_join: "ps \<noteq> [] \<Longrightarrow> ''/'' @ join ''/'' ps = request_url ps"
  by (induction "''/''" ps rule: join.induct) (auto simp: request_url_def)

subsection \<open>Reading the source text\<close>

definition part_rexpr :: "url_part \<Rightarrow> string" where
  "part_rexpr part = (case part of
      Exact k \<Rightarrow> ''/'' @ escape_part k
    | Parameters _ optional \<Rightarrow> optional_match optional (parameter_match None)
    | Prefix \<Rightarrow> ''(/[^/]+)*/?'')"

abbreviation char_rx :: "char \<Rightarrow> rx" where
  "char_rx c \<equiv> RxSet False [(c, c)]"

abbreviation some_part :: rx where
  "some_part \<equiv> RxRepeat (RxSet True [(CHR ''/'', CHR ''/'')]) (Suc 0) None"

abbreviation slash_part :: rx where
  "slash_part \<equiv> RxSeq (char_rx CHR ''/'') (RxSeq some_part RxEmpty)"

definition part_tokens :: "url_part \<Rightarrow> rx_token list" where
  "part_tokens part =
     (let slash = TokAtom (char_rx CHR ''/''); any = [TokAtom (RxSet True [(CHR ''/'', CHR ''/'')]), TokRepeat 1 None]
      in case part of
        Exact k \<Rightarrow> slash # map (\<lambda>c. TokAtom (char_rx c)) k
      | Parameters _ optional \<Rightarrow>
          if optional then TokOpen None # slash # any @ [TokClose, TokRepeat 0 (Some 1)] else slash # any
      | Prefix \<Rightarrow> TokOpen None # slash # any @ [TokClose, TokRepeat 0 None, slash, TokRepeat 0 (Some 1)])"

definition part_terms :: "url_part \<Rightarrow> (rx \<times> bool) list" where
  "part_terms part = (case part of
      Exact k \<Rightarrow> map (\<lambda>c. (char_rx c, True)) (CHR ''/'' # k)
    | Parameters _ optional \<Rightarrow>
        if optional then [(RxRepeat slash_part 0 (Some 1), False)] else [(char_rx CHR ''/'', True), (some_part, False)]
    | Prefix \<Rightarrow> [(RxRepeat slash_part 0 None, False), (RxRepeat (char_rx CHR ''/'') 0 (Some 1), False)])"

lemma tokens_Cons: "read_token c cs = Some (t, rest) \<Longrightarrow> rx_tokens (c # cs) = map_option (Cons t) (rx_tokens rest)"
  by simp

lemma tokens_char:
  "c \<notin> set ''|()^$.[*+?{'' \<and> c \<noteq> CHR 92 \<Longrightarrow> rx_tokens (c # cs) = map_option (Cons (TokAtom (char_rx c))) (rx_tokens cs)"
  by (simp add: read_token_def)

lemma escape_special:
  assumes "c \<in> set ''.+*?^$()[]''"
  shows "escape_ranges c = None" "escape_single c = Some c" "c \<noteq> CHR ''b'' \<and> c \<noteq> CHR ''B''"
proof -
  have "\<not> is_digit c" using assms by (auto simp: is_digit_def char_digit_def)
  moreover have l: "c \<notin> {CHR ''d'', CHR ''D'', CHR ''w'', CHR ''W'', CHR ''s'', CHR ''S'', CHR ''t'', CHR ''n'',
      CHR ''v'', CHR ''f'', CHR ''r'', CHR ''0'', CHR ''x'', CHR ''u'', CHR ''c'', CHR ''b'', CHR ''B''}"
    using assms by auto
  ultimately show "escape_single c = Some c" by (simp add: escape_single_def)
  show "escape_ranges c = None" "c \<noteq> CHR ''b'' \<and> c \<noteq> CHR ''B''" using l by (simp_all add: escape_ranges_def)
qed

lemma tokens_escaped:
  assumes "c \<in> set ''.+*?^$()[]''"
  shows "rx_tokens (CHR 92 # c # cs) = map_option (Cons (TokAtom (char_rx c))) (rx_tokens cs)"
proof (rule tokens_Cons)
  show "read_token CHR 92 (c # cs) = Some (TokAtom (char_rx c), cs)"
    by (simp add: read_token_def read_escape_def escape_special [OF assms])
qed

lemma map_option_append: "map_option (Cons x) (map_option ((@) xs) o1) = map_option ((@) (x # xs)) o1"
  by (cases o1) simp_all

lemma tokens_key:
  "plain_key k \<Longrightarrow> rx_tokens (escape_part k @ rest) = map_option ((@) (map (\<lambda>c. TokAtom (char_rx c)) k)) (rx_tokens rest)"
proof (induction k)
  case Nil
  then show ?case by (simp add: escape_part_def option.map_ident)
next
  case (Cons c k)
  have IH: "rx_tokens (escape_part k @ rest) = map_option ((@) (map (\<lambda>c. TokAtom (char_rx c)) k)) (rx_tokens rest)"
    using Cons by (simp add: plain_key_def)
  show ?case
  proof (cases "c \<in> set ''.+*?^$()[]''")
    case True
    then have "escape_part (c # k) @ rest = CHR 92 # c # escape_part k @ rest" by (simp add: escape_part_def)
    then show ?thesis using tokens_escaped [OF True] IH by (simp only: map_option_append list.map)
  next
    case False
    then have "escape_part (c # k) @ rest = c # escape_part k @ rest" by (simp add: escape_part_def)
    moreover have plain: "c \<notin> set ''|()^$.[*+?{'' \<and> c \<noteq> CHR 92" using False Cons.prems by (auto simp: plain_key_def)
    ultimately show ?thesis using IH by (simp only: tokens_char [OF plain] map_option_append list.map)
  qed
qed

lemma tokens_any:
  "take 1 rest \<noteq> ''?'' \<Longrightarrow> rx_tokens (''/[^/]+'' @ rest) =
     map_option ((@) [TokAtom (char_rx CHR ''/''), TokAtom (RxSet True [(CHR ''/'', CHR ''/'')]), TokRepeat 1 None]) (rx_tokens rest)"
  by (cases "rx_tokens rest")
    (simp_all add: read_token_def read_class_def items_ranges.simps item_ranges_def drop_lazy_def Let_def)

lemma map_option_appends: "map_option ((@) xs) (map_option ((@) ys) o1) = map_option ((@) (xs @ ys)) o1"
  by (cases o1) simp_all

lemma tokens_close:
  assumes "take (Suc 0) rest \<noteq> ''?''"
  shows "rx_tokens (CHR '')'' # CHR ''?'' # rest) = map_option ((@) [TokClose, TokRepeat 0 (Some (Suc 0))]) (rx_tokens rest)"
    "rx_tokens (CHR '')'' # CHR ''*'' # CHR ''/'' # CHR ''?'' # rest)
      = map_option ((@) [TokClose, TokRepeat 0 None, TokAtom (char_rx CHR ''/''), TokRepeat 0 (Some (Suc 0))]) (rx_tokens rest)"
  using assms by (cases "rx_tokens rest"; simp add: read_token_def drop_lazy_def)+

lemma tokens_group: "rx_tokens (CHR ''('' # CHR ''/'' # cs) = map_option (Cons (TokOpen None)) (rx_tokens (CHR ''/'' # cs))"
  by (rule tokens_Cons) (simp add: read_token_def read_group_def)

lemma tokens_part:
  assumes "plain_part part" "take 1 rest \<noteq> ''?''"
  shows "rx_tokens (part_rexpr part @ rest) = map_option ((@) (part_tokens part)) (rx_tokens rest)"
proof (cases part)
  case (Exact k)
  have "rx_tokens (CHR ''/'' # escape_part k @ rest)
    = map_option (Cons (TokAtom (char_rx CHR ''/''))) (rx_tokens (escape_part k @ rest))"
    by (rule tokens_char) simp
  then show ?thesis using assms(1) Exact
    by (simp add: plain_part_def part_rexpr_def part_tokens_def tokens_key map_option_append Let_def del: rx_tokens.simps)
next
  case (Parameters names optional)
  show ?thesis
  proof (cases optional)
    case True
    have "rx_tokens (''/[^/]+'' @ '')?'' @ rest) = map_option ((@) [TokAtom (char_rx CHR ''/''),
       TokAtom (RxSet True [(CHR ''/'', CHR ''/'')]), TokRepeat 1 None, TokClose, TokRepeat 0 (Some 1)]) (rx_tokens rest)"
      using assms(2) by (subst tokens_any) (simp_all add: tokens_close map_option_appends del: rx_tokens.simps)
    then have "rx_tokens (''(/[^/]+)?'' @ rest) = map_option ((@) (part_tokens part)) (rx_tokens rest)"
      using tokens_group [of "''[^/]+)?'' @ rest"] True Parameters
      by (simp add: part_tokens_def Let_def map_option_append del: rx_tokens.simps)
    then show ?thesis using True Parameters by (simp add: part_rexpr_def optional_match_def parameter_match_def)
  next
    case False
    then show ?thesis using Parameters tokens_any [OF assms(2)]
      by (simp add: part_rexpr_def optional_match_def parameter_match_def part_tokens_def Let_def del: rx_tokens.simps)
  qed
next
  case Prefix
  have "rx_tokens (''/[^/]+'' @ '')*/?'' @ rest) = map_option ((@) [TokAtom (char_rx CHR ''/''),
     TokAtom (RxSet True [(CHR ''/'', CHR ''/'')]), TokRepeat 1 None, TokClose, TokRepeat 0 None,
     TokAtom (char_rx CHR ''/''), TokRepeat 0 (Some 1)]) (rx_tokens rest)"
    using assms(2) by (subst tokens_any) (simp_all add: tokens_close map_option_appends del: rx_tokens.simps)
  then have "rx_tokens (''(/[^/]+)*/?'' @ rest) = map_option ((@) (part_tokens part)) (rx_tokens rest)"
    using tokens_group [of "''[^/]+)*/?'' @ rest"] Prefix
    by (simp add: part_tokens_def Let_def map_option_append del: rx_tokens.simps)
  then show ?thesis using Prefix by (simp add: part_rexpr_def)
qed

lemma part_rexpr_head: "take 1 (part_rexpr part @ rest) \<noteq> ''?''"
  by (cases part) (simp_all add: part_rexpr_def optional_match_def parameter_match_def)

lemma tokens_parts:
  assumes "list_all plain_part parts"
  shows "rx_tokens (concat (map part_rexpr parts) @ ''$'') = Some (concat (map part_tokens parts) @ [TokAssert RxEnd])"
  using assms
proof (induction parts)
  case Nil
  then show ?case by (simp add: read_token_def)
next
  case (Cons part parts)
  have "take 1 (concat (map part_rexpr parts) @ ''$'') \<noteq> ''?''"
    using part_rexpr_head by (cases parts) (simp_all del: take_append)
  then show ?case using Cons tokens_part [of part "concat (map part_rexpr parts) @ ''$''"] by simp
qed

lemma build_atoms:
  "rx_build (map (\<lambda>c. TokAtom (f c)) cs @ ts) stack (look, alts, terms)
    = rx_build ts stack (look, alts, rev (map (\<lambda>c. (f c, True)) cs) @ terms)"
  by (induction cs arbitrary: terms) simp_all

lemma build_part:
  "rx_build (part_tokens part @ ts) stack (look, alts, terms) = rx_build ts stack (look, alts, rev (part_terms part) @ terms)"
  using build_atoms [of char_rx]
  by (cases part) (auto simp: part_tokens_def part_terms_def Let_def frame_rx_def terms_rx_def)

lemma build_parts:
  "rx_build (concat (map part_tokens parts) @ ts) stack (look, alts, terms)
    = rx_build ts stack (look, alts, rev (concat (map part_terms parts)) @ terms)"
  by (induction parts arbitrary: terms) (simp_all add: build_part)

definition chain_rx :: "rx list \<Rightarrow> rx \<Rightarrow> rx" where
  "chain_rx rs r = foldr RxSeq rs r"

lemma terms_chain: "terms_rx (rev ts) = chain_rx (map fst ts) RxEmpty"
  by (simp add: terms_rx_def chain_rx_def foldl_conv_foldr foldr_map comp_def)

definition parts_rx :: "url_part list \<Rightarrow> rx" where
  "parts_rx parts = chain_rx (map fst (concat (map part_terms parts))) RxEmpty"

lemma compile_parts:
  assumes "list_all plain_part parts"
  shows "new_RegExp (''^'' @ concat (map part_rexpr parts) @ ''$'')
    = Some (RxSeq RxBegin (chain_rx (map fst (concat (map part_terms parts))) (RxSeq RxEnd RxEmpty)))"
proof -
  let ?terms = "concat (map part_terms parts)"
  have "rx_tokens (''^'' @ concat (map part_rexpr parts) @ ''$'')
    = Some (TokAssert RxBegin # concat (map part_tokens parts) @ [TokAssert RxEnd])"
    using tokens_parts [OF assms] by (simp add: read_token_def)
  moreover have "rx_build (TokAssert RxBegin # concat (map part_tokens parts) @ [TokAssert RxEnd]) [] (None, [], [])
    = Some (terms_rx (rev ((RxBegin, False) # ?terms @ [(RxEnd, False)])))"
    by (simp add: build_parts frame_rx_def)
  ultimately show ?thesis unfolding terms_chain by (simp add: new_RegExp_def chain_rx_def)
qed

subsection \<open>Its language\<close>

lemma conc_Nil [simp]: "conc {[]} A = A" "conc A {[]} = A"
  by (auto simp: conc_def)

lemma conc_assoc: "conc (conc A B) C = conc A (conc B C)"
  unfolding conc_def by (auto, metis append_assoc, metis append_assoc)

lemma conc_singletons [simp]: "conc {v} {w} = {v @ w}"
  by (auto simp: conc_def)

lemma in_conc: "x \<in> conc A B \<longleftrightarrow> (\<exists>v \<in> A. \<exists>w \<in> B. x = v @ w)"
  by (auto simp: conc_def)

lemma in_ranges_one [simp]: "in_ranges [(a, a)] c \<longleftrightarrow> c = a"
  by (auto simp: in_ranges_def dest: le_antisym)

lemma lang_char [simp]: "rx_lang (char_rx c) = {[c]}"
  by auto

lemma lang_pow_chars: "lang_pow {[c] | c. P c} n = {w. length w = n \<and> list_all P w}"
proof (induction n)
  case (Suc n)
  show ?case
  proof (intro set_eqI)
    fix w
    show "w \<in> lang_pow {[c] | c. P c} (Suc n) \<longleftrightarrow> w \<in> {w. length w = Suc n \<and> list_all P w}"
      by (cases w) (auto simp: Suc in_conc)
  qed
qed auto

definition part_words :: "string set" where
  "part_words = {CHR ''/'' # w | w. request_part w}"

lemma lang_slash_part [simp]: "rx_lang slash_part = part_words"
proof -
  have chars: "rx_lang (RxSet True [(CHR ''/'', CHR ''/'')]) = {[c] | c. c \<noteq> CHR ''/''}" by simp
  have "rx_lang some_part = (\<Union>k \<in> {Suc 0..}. lang_pow (rx_lang (RxSet True [(CHR ''/'', CHR ''/'')])) k)"
    by (simp only: rx_lang.simps(5) atLeast_def) simp
  also have "\<dots> = {w. request_part w}"
  proof (rule set_eqI)
    fix w
    have "request_part w \<longleftrightarrow> Suc 0 \<le> length w \<and> list_all (\<lambda>c. c \<noteq> CHR ''/'') w"
      by (cases w) (auto simp: request_part_def list_all_iff)
    then show "w \<in> (\<Union>k \<in> {Suc 0..}. lang_pow (rx_lang (RxSet True [(CHR ''/'', CHR ''/'')])) k) \<longleftrightarrow> w \<in> {w. request_part w}"
      unfolding chars lang_pow_chars by simp
  qed
  finally have "rx_lang slash_part = conc {''/''} {w. request_part w}"
    by (simp only: rx_lang.simps(1,3) lang_char conc_Nil)
  then show ?thesis by (auto simp: part_words_def conc_def)
qed

definition part_lang :: "url_part \<Rightarrow> string set" where
  "part_lang part = (case part of
      Exact k \<Rightarrow> {CHR ''/'' # k}
    | Parameters _ optional \<Rightarrow> if optional then insert [] part_words else part_words
    | Prefix \<Rightarrow> {request_url ps @ t | ps t. list_all request_part ps \<and> t \<in> {[], ''/''}})"

fun parts_lang :: "url_part list \<Rightarrow> string set" where
  "parts_lang [] = {[]}"
| "parts_lang (part # parts) = conc (part_lang part) (parts_lang parts)"

lemma request_url_simps [simp]: "request_url [] = []" "request_url (p # ps) = CHR ''/'' # p @ request_url ps"
  by (simp_all add: request_url_def)

lemma lang_pow_parts: "lang_pow part_words n = {request_url ps | ps. length ps = n \<and> list_all request_part ps}"
proof (induction n)
  case (Suc n)
  show ?case
  proof (intro set_eqI iffI)
    fix w assume "w \<in> lang_pow part_words (Suc n)"
    then obtain v u where w: "v \<in> part_words" "u \<in> lang_pow part_words n" "w = v @ u" by (auto simp: in_conc)
    obtain ps where "list_all request_part ps" "length ps = n" "u = request_url ps" using w(2) Suc by auto
    moreover obtain p where "request_part p" "v = CHR ''/'' # p" using w(1) by (auto simp: part_words_def)
    ultimately have "w = request_url (p # ps) \<and> length (p # ps) = Suc n \<and> list_all request_part (p # ps)" using w by simp
    then show "w \<in> {request_url ps | ps. length ps = Suc n \<and> list_all request_part ps}" by blast
  next
    fix w assume "w \<in> {request_url ps | ps. length ps = Suc n \<and> list_all request_part ps}"
    then obtain p ps where "length ps = n" "list_all request_part (p # ps)" "w = request_url (p # ps)"
      by (auto simp: length_Suc_conv)
    moreover have "request_url ps \<in> lang_pow part_words n" using calculation Suc by auto
    moreover have "CHR ''/'' # p \<in> part_words" using calculation by (simp add: part_words_def)
    ultimately show "w \<in> lang_pow part_words (Suc n)"
      unfolding lang_pow.simps in_conc by (metis append_Cons request_url_simps(2))
  qed
qed auto

lemma lang_chain_append: "rx_lang (chain_rx (rs @ rs') RxEmpty) = conc (rx_lang (chain_rx rs RxEmpty)) (rx_lang (chain_rx rs' RxEmpty))"
  by (induction rs) (simp_all add: chain_rx_def conc_assoc)

lemma lang_key: "rx_lang (chain_rx (map char_rx k) RxEmpty) = {k}"
  by (induction k) (simp_all add: chain_rx_def)

lemma lang_optional: "rx_lang (RxRepeat r 0 (Some (Suc 0))) = insert [] (rx_lang r)"
proof -
  have "{k. 0 \<le> k \<and> k \<le> max 0 (the (Some (Suc 0)))} = {0, Suc 0}" by auto
  then show ?thesis by auto
qed

lemma lang_seq: "rx_lang (RxSeq a b) = conc (rx_lang a) (rx_lang b)"
  by simp

lemma lang_seq_empty: "rx_lang (RxSeq r RxEmpty) = rx_lang r"
  by simp

lemma lang_part: "rx_lang (chain_rx (map fst (part_terms part)) RxEmpty) = part_lang part"
proof (cases part)
  case (Exact k)
  have "map fst (part_terms part) = map char_rx (CHR ''/'' # k)" using Exact by (simp add: part_terms_def comp_def)
  then show ?thesis using lang_key [of "CHR ''/'' # k"] Exact by (simp add: part_lang_def del: rx_lang.simps)
next
  case (Parameters names optional)
  then show ?thesis
    by (cases optional) (simp_all add: part_terms_def part_lang_def chain_rx_def lang_optional lang_seq_empty del: rx_lang.simps)
next
  case Prefix
  have rep: "rx_lang (RxRepeat slash_part 0 None) = {request_url ps | ps. list_all request_part ps}"
    unfolding rx_lang.simps(5) lang_slash_part by (auto simp: lang_pow_parts)
  have "rx_lang (chain_rx (map fst (part_terms Prefix)) RxEmpty)
    = conc (rx_lang (RxRepeat slash_part 0 None)) (rx_lang (RxRepeat (char_rx CHR ''/'') 0 (Some (Suc 0))))"
    by (simp add: part_terms_def chain_rx_def)
  also have "\<dots> = part_lang Prefix"
    unfolding rep lang_optional lang_char part_lang_def url_part.case conc_def by blast
  finally show ?thesis unfolding Prefix .
qed

lemma lang_parts: "rx_lang (parts_rx parts) = parts_lang parts"
proof (induction parts)
  case (Cons part parts)
  then show ?case by (simp add: parts_rx_def lang_chain_append lang_part)
qed (simp add: parts_rx_def chain_rx_def)

lemma without_anchors_chain: "without_anchors (chain_rx rs RxEmpty) \<longleftrightarrow> list_all without_anchors rs"
  by (induction rs) (simp_all add: chain_rx_def)

lemma without_anchors_parts: "without_anchors (parts_rx parts)"
proof -
  have "list_all without_anchors (map fst (part_terms part))" for part
    by (cases part) (auto simp: part_terms_def list_all_iff)
  then show ?thesis unfolding parts_rx_def without_anchors_chain by (auto simp: list_all_iff)
qed

lemma ends_chain: "set (rx_ends s (chain_rx rs r) i) = (\<Union>m \<in> set (rx_ends s (chain_rx rs RxEmpty) i). set (rx_ends s r m))"
  by (induction rs arbitrary: i) (simp_all add: chain_rx_def)

lemma test_parts:
  "rx_test (RxSeq RxBegin (chain_rx (map fst (concat (map part_terms parts))) (RxSeq RxEnd RxEmpty))) s \<longleftrightarrow> s \<in> parts_lang parts"
proof -
  let ?rs = "map fst (concat (map part_terms parts))"
  have e: "set (rx_ends s (RxSeq RxBegin (chain_rx ?rs (RxSeq RxEnd RxEmpty))) i)
      = set (rx_ends s (RxSeq RxBegin (RxSeq (parts_rx parts) RxEnd)) i)" for i
    using ends_chain [of s ?rs "RxSeq RxEnd RxEmpty" i] by (auto simp: parts_rx_def)
  have "rx_ends s (RxSeq RxBegin (chain_rx ?rs (RxSeq RxEnd RxEmpty))) i \<noteq> []
      \<longleftrightarrow> rx_ends s (RxSeq RxBegin (RxSeq (parts_rx parts) RxEnd)) i \<noteq> []" for i
    using e [of i] by (metis set_empty)
  then show ?thesis using anchored_test [OF without_anchors_parts, of parts s] by (simp only: rx_test_def lang_parts)
qed

subsection \<open>Matching a request\<close>

definition slash_headed :: "string \<Rightarrow> bool" where
  "slash_headed w \<longleftrightarrow> w = [] \<or> hd w = CHR ''/''"

lemma slash_headed_simps [simp]: "slash_headed []" "slash_headed (CHR ''/'' # w)"
  by (simp_all add: slash_headed_def)

lemma slash_headed_url [simp]: "slash_headed (request_url ps)"
  by (cases ps) simp_all

lemma slash_headed_append: "slash_headed v \<Longrightarrow> slash_headed w \<Longrightarrow> slash_headed (v @ w)"
  by (cases v) (simp_all add: slash_headed_def)

lemma slash_headed_lang: "prefix_last parts \<Longrightarrow> w \<in> parts_lang parts \<Longrightarrow> slash_headed w"
proof (induction parts arbitrary: w)
  case (Cons part parts)
  obtain v u where w: "v \<in> part_lang part" "u \<in> parts_lang parts" "w = v @ u" using Cons.prems by (auto simp: in_conc)
  have "slash_headed u" using Cons.IH Cons.prems(1) w(2) by simp
  moreover have "slash_headed v"
    using w(1) slash_headed_url
    by (cases part) (auto simp: part_lang_def part_words_def slash_headed_append split: if_splits)
  ultimately show ?case using w(3) slash_headed_append by simp
qed simp

lemma split_at_slash:
  assumes "CHR ''/'' \<notin> set p" "CHR ''/'' \<notin> set k" "slash_headed x" "slash_headed y" "p @ x = k @ y"
  shows "p = k" "x = y"
proof -
  have t: "takeWhile (\<lambda>c. c \<noteq> CHR ''/'') (q @ z) = q" if "CHR ''/'' \<notin> set q" "slash_headed z" for q z
    using that by (subst takeWhile_append2) (cases z; auto simp: slash_headed_def)+
  show "p = k" using t [OF assms(1,3)] t [OF assms(2,4)] assms(5) by simp
  then show "x = y" using assms(5) by simp
qed

lemma url_first:
  assumes "list_all request_part ps" "CHR ''/'' \<notin> set k" "slash_headed w"
  shows "request_url ps = CHR ''/'' # k @ w \<longleftrightarrow> ps \<noteq> [] \<and> hd ps = k \<and> request_url (tl ps) = w"
proof (cases ps)
  case (Cons p qs)
  have "p @ request_url qs = k @ w \<longleftrightarrow> p = k \<and> request_url qs = w"
    using split_at_slash [of p k "request_url qs" w] assms Cons by (auto simp: request_part_def)
  then show ?thesis using Cons by simp
qed simp

lemma lang_matches:
  "list_all request_part ps \<Longrightarrow> list_all plain_part parts \<Longrightarrow> prefix_last parts \<Longrightarrow>
     request_url ps \<in> parts_lang parts \<longleftrightarrow> url_matches parts ps"
proof (induction parts arbitrary: ps)
  case Nil
  then show ?case by (cases ps) simp_all
next
  case (Cons part parts)
  have tl: "list_all request_part (tl ps)" using Cons.prems(1) by (cases ps) simp_all
  note IH = Cons.IH [OF tl] Cons.IH [OF Cons.prems(1)]
  have head: "slash_headed w" if "w \<in> parts_lang parts" for w
    using slash_headed_lang [of parts w] Cons.prems(3) that by simp
  show ?case
  proof (cases part)
    case (Exact k)
    have "CHR ''/'' \<notin> set k" using Cons.prems(2) Exact by (auto simp: plain_part_def plain_key_def list_all_iff)
    then have "request_url ps \<in> parts_lang (part # parts) \<longleftrightarrow>
      (\<exists>w \<in> parts_lang parts. ps \<noteq> [] \<and> hd ps = k \<and> request_url (tl ps) = w)"
      using url_first [OF Cons.prems(1)] head Exact by (auto simp: in_conc part_lang_def)
    then show ?thesis using IH Cons.prems Exact by auto
  next
    case (Parameters names optional)
    have "(\<exists>v \<in> part_words. \<exists>w \<in> parts_lang parts. request_url ps = v @ w) \<longleftrightarrow>
      (\<exists>k. request_part k \<and> (\<exists>w \<in> parts_lang parts. request_url ps = CHR ''/'' # k @ w))"
      by (auto simp: part_words_def)
    also have "\<dots> \<longleftrightarrow> (\<exists>k. request_part k \<and> (\<exists>w \<in> parts_lang parts. ps \<noteq> [] \<and> hd ps = k \<and> request_url (tl ps) = w))"
      using url_first [OF Cons.prems(1)] head unfolding request_part_def by blast
    also have "\<dots> \<longleftrightarrow> ps \<noteq> [] \<and> request_url (tl ps) \<in> parts_lang parts"
      using Cons.prems(1) by (cases ps) auto
    finally show ?thesis using IH Cons.prems Parameters by (cases optional) (auto simp: in_conc part_lang_def)
  next
    case Prefix
    then have "parts = []" using Cons.prems(3) by simp
    moreover have "request_url ps \<in> part_lang Prefix" using Cons.prems(1) by (auto simp: part_lang_def)
    ultimately show ?thesis using Prefix by simp
  qed
qed

text \<open>The expression of a list of plain parts accepts exactly the requests that the parts match.\<close>

theorem regexp_matches:
  assumes "list_all plain_part parts" "prefix_last parts"
    and "new_RegExp (''^'' @ concat (map part_rexpr parts) @ ''$'') = Some r"
    and "list_all request_part ps"
  shows "rx_test r (request_url ps) \<longleftrightarrow> url_matches parts ps"
  using compile_parts [OF assms(1)] assms(3) test_parts [of parts "request_url ps"]
    lang_matches [OF assms(4,1,2)] by simp

end
