(* ===== verification/Routing_Tree.thy ===== *)
theory Routing_Tree
  imports Routing_Match
begin

text \<open>
  The routing tree as a set of paths: what the definition of a route adds, what flattening makes of a path, in
  which order, and which routes answer a request.
\<close>

subsection \<open>Paths of a tree\<close>

text \<open>The paths with their routes, in the order in which flattening visits them.\<close>

fun tree_paths :: "route_entry rtree \<Rightarrow> (url_part list \<times> route_entry) list"
  and parameter_paths :: "route_entry rparam \<Rightarrow> (url_part list \<times> route_entry) list" where
  "tree_paths (RNode ex ps rs pf) =
     concat (map (\<lambda>(k, t). map (\<lambda>(p, e). (Exact k # p, e)) (tree_paths t)) (enumerated ex))
       @ concat (map parameter_paths ps)
       @ map (Pair []) (js_sort by_priority rs) @ map (Pair [Prefix]) (js_sort by_priority pf)"
| "parameter_paths (RParam name constraint optional t) = map (\<lambda>(p, e). (Parameters [name] optional # p, e)) (tree_paths t)"

text \<open>Trees without constraints, with plain keys that are distinct at every node.\<close>

fun plain_tree :: "'e rtree \<Rightarrow> bool" and plain_param :: "'e rparam \<Rightarrow> bool" where
  "plain_tree (RNode ex ps rs pf) \<longleftrightarrow> distinct (map fst ex) \<and> list_all (\<lambda>(k, t). plain_key k \<and> plain_tree t) ex \<and> list_all plain_param ps"
| "plain_param (RParam name constraint optional t) \<longleftrightarrow> constraint = None \<and> plain_tree t"

subsection \<open>Defining a route\<close>

text \<open>Alternatives of a parameter become paths of their own; an ill-formed URL has no path.\<close>

fun expand_parts :: "url_part list \<Rightarrow> url_part list list" where
  "expand_parts [] = [[]]"
| "expand_parts (Exact k # parts) = map (Cons (Exact k)) (expand_parts parts)"
| "expand_parts (Parameters names optional # parts) =
     (if optional \<and> (parts \<noteq> [] \<or> length names \<noteq> 1) then []
      else concat (map (\<lambda>p. map (Cons (Parameters [p] optional)) (expand_parts parts)) names))"
| "expand_parts (Prefix # parts) = (if parts \<noteq> [] then [] else [[Prefix]])"

definition url_paths :: "url_part list \<Rightarrow> url_part list list" where
  "url_paths parts = expand_parts (if parts = [] then [Exact []] else parts)"

lemma empty_paths [simp]: "tree_paths empty_node = []" "plain_tree empty_node"
  by (simp_all add: empty_node_def enumerated_def js_sort_def)

lemma set_js_sort [simp]: "set (js_sort cmp xs) = set xs"
  using mset_js_sort [of cmp xs] by (metis set_mset_mset)

lemma set_tree_paths:
  "set (tree_paths (RNode ex ps rs pf)) =
     (\<Union>(k, t) \<in> set ex. (\<lambda>(p, e). (Exact k # p, e)) ` set (tree_paths t)) \<union> (\<Union>p \<in> set ps. set (parameter_paths p))
       \<union> Pair [] ` set rs \<union> Pair [Prefix] ` set pf"
  by (auto simp: case_prod_unfold)

lemma paths_add_route: "set (tree_paths (add_route e t)) = insert ([], e) (set (tree_paths t))"
  by (cases t) (auto simp: add_route_def set_tree_paths)

lemma plain_add_route: "plain_tree (add_route e t) \<longleftrightarrow> plain_tree t"
  by (cases t) (simp add: add_route_def)

lemma UN_update:
  assumes "g (k, child_at k ex) \<subseteq> g (k, v)" "g (k, empty_node) = {}"
  shows "(\<Union>x \<in> set (AList.update k v ex). g x) = (\<Union>x \<in> set ex. g x) \<union> g (k, v)"
  using assms
proof (induction ex)
  case (Cons x ex)
  show ?case
  proof (cases "fst x = k")
    case True
    then show ?thesis using Cons.prems by (cases x) (auto simp: child_at_def)
  next
    case False
    then have "child_at k (x # ex) = child_at k ex" by (cases x) (simp add: child_at_def)
    then have "(\<Union>x \<in> set (AList.update k v ex). g x) = (\<Union>x \<in> set ex. g x) \<union> g (k, v)" using Cons by simp
    then show ?thesis using False by (cases x) (simp add: Un_assoc)
  qed
qed (simp add: child_at_def)

lemma plain_child: "plain_tree (RNode ex ps rs pf) \<Longrightarrow> plain_tree (child_at k ex)"
  by (auto simp: child_at_def list_all_iff dest!: map_of_SomeD split: option.split)

lemma list_all_update:
  "list_all P ex \<Longrightarrow> P (k, v) \<Longrightarrow> list_all P (AList.update k v ex)"
  by (induction ex) auto

lemma define_route_paths:
  "set (tree_paths (defineRoutePart t parts [] e)) = set (tree_paths t) \<union> (\<lambda>p. (p, e)) ` set (url_paths parts)"
proof (induction t parts "[] :: (string \<times> string) list" e rule: defineRoutePart.induct)
  case (1 ex ps rs pf parts e)
  let ?parts = "if parts = [] then [Exact []] else parts"
  obtain part rest where parts: "?parts = part # rest" by (cases parts) auto
  have paths: "url_paths parts = expand_parts (part # rest)" unfolding url_paths_def parts ..
  have rest: "url_paths rest = expand_parts rest" if "rest \<noteq> []" using that by (simp add: url_paths_def)
  show ?case
  proof (cases part)
    case (Exact k)
    let ?sub = "child_at k ex" and ?g = "\<lambda>(k, t). (\<lambda>(p, e). (Exact k # p, e)) ` set (tree_paths t)"
    let ?new = "if rest \<noteq> [] then defineRoutePart ?sub rest [] e else add_route e ?sub"
    have new: "set (tree_paths ?new) = set (tree_paths ?sub) \<union> (\<lambda>p. (p, e)) ` set (expand_parts rest)"
      using "1.hyps"(1) [OF parts Exact refl] rest by (cases "rest = []") (simp_all add: paths_add_route)
    have "defineRoutePart (RNode ex ps rs pf) parts [] e = RNode (AList.update k ?new ex) ps rs pf"
      using parts Exact by (simp add: Let_def)
    moreover have "(\<Union>x \<in> set (AList.update k ?new ex). ?g x) = (\<Union>x \<in> set ex. ?g x) \<union> ?g (k, ?new)"
      by (rule UN_update) (use new in auto)
    moreover have "?g (k, ?sub) \<subseteq> (\<Union>x \<in> set ex. ?g x)"
      by (cases "map_of ex k") (auto simp: child_at_def dest: map_of_SomeD)
    ultimately show ?thesis
      unfolding paths Exact expand_parts.simps(2)
      by (simp only: set_tree_paths new) (auto simp: new image_iff)
  next
    case (Parameters names optional)
    show ?thesis
    proof (cases "optional \<and> (rest \<noteq> [] \<or> length names \<noteq> 1)")
      case True
      then show ?thesis using parts Parameters paths by auto
    next
      case False
      let ?new = "if rest \<noteq> [] then defineRoutePart empty_node rest [] e else add_route e empty_node"
      have new: "set (tree_paths ?new) = (\<lambda>p. (p, e)) ` set (expand_parts rest)" if "p \<in> set names" for p
        using "1.hyps"(2) [OF parts Parameters False that] rest by (cases "rest = []") (simp_all add: paths_add_route)
      have "defineRoutePart (RNode ex ps rs pf) parts [] e = RNode ex (ps @ map (\<lambda>p. RParam p None optional ?new) names) rs pf"
        using parts Parameters False by auto
      then have "set (tree_paths (defineRoutePart (RNode ex ps rs pf) parts [] e)) = set (tree_paths (RNode ex ps rs pf))
        \<union> (\<Union>p \<in> set names. (\<lambda>(q, e). (Parameters [p] optional # q, e)) ` set (tree_paths ?new))"
        by (simp only: set_tree_paths) auto
      also have "(\<Union>p \<in> set names. (\<lambda>(q, e). (Parameters [p] optional # q, e)) ` set (tree_paths ?new))
        = (\<Union>p \<in> set names. (\<lambda>(q, e). (Parameters [p] optional # q, e)) ` (\<lambda>p. (p, e)) ` set (expand_parts rest))"
        using new by simp
      also have "\<dots> = (\<lambda>p. (p, e)) ` set (expand_parts (part # rest))"
        using False unfolding Parameters by (auto simp: image_iff)
      finally show ?thesis unfolding paths .
    qed
  next
    case Prefix
    then show ?thesis using parts paths by (auto simp: set_tree_paths)
  qed
qed

lemma define_route_plain:
  "plain_tree t \<Longrightarrow> list_all plain_part parts \<Longrightarrow> plain_tree (defineRoutePart t parts [] e)"
proof (induction t parts "[] :: (string \<times> string) list" e rule: defineRoutePart.induct)
  case (1 ex ps rs pf parts e)
  let ?parts = "if parts = [] then [Exact []] else parts"
  obtain part rest where parts: "?parts = part # rest" by (cases parts) auto
  have plain: "plain_part part" "list_all plain_part rest"
    using "1.prems"(2) parts by (auto simp: plain_part_def plain_key_def split: if_splits)
  show ?case
  proof (cases part)
    case (Exact k)
    let ?new = "if rest \<noteq> [] then defineRoutePart (child_at k ex) rest [] e else add_route e (child_at k ex)"
    have "plain_tree ?new"
      using "1.hyps"(1) [OF parts Exact refl _ plain_child [OF "1.prems"(1)] plain(2)] plain_child [OF "1.prems"(1)]
      by (simp add: plain_add_route)
    moreover have "plain_key k" using plain(1) Exact by (simp add: plain_part_def)
    moreover have "defineRoutePart (RNode ex ps rs pf) parts [] e = RNode (AList.update k ?new ex) ps rs pf"
      using parts Exact by (simp add: Let_def)
    ultimately show ?thesis using "1.prems"(1) by (simp add: distinct_update list_all_update del: defineRoutePart.simps)
  next
    case (Parameters names optional)
    show ?thesis
    proof (cases "optional \<and> (rest \<noteq> [] \<or> length names \<noteq> 1)")
      case True
      then show ?thesis using parts Parameters "1.prems"(1) by auto
    next
      case False
      let ?new = "if rest \<noteq> [] then defineRoutePart empty_node rest [] e else add_route e empty_node"
      have "plain_tree ?new" if "p \<in> set names" for p
        using "1.hyps"(2) [OF parts Parameters False that _ empty_paths(2) plain(2)] by (simp add: plain_add_route)
      moreover have "defineRoutePart (RNode ex ps rs pf) parts [] e = RNode ex (ps @ map (\<lambda>p. RParam p None optional ?new) names) rs pf"
        using parts Parameters False by auto
      ultimately show ?thesis using "1.prems"(1) by (auto simp: list_all_iff)
    qed
  next
    case Prefix
    then show ?thesis using parts "1.prems"(1) by auto
  qed
qed

subsection \<open>Flattening\<close>

text \<open>The positions of the parameters on a path.\<close>

fun bind_parts :: "url_part list \<Rightarrow> nat \<Rightarrow> (string \<times> nat) list \<Rightarrow> (string \<times> nat) list" where
  "bind_parts [] d params = params"
| "bind_parts (Parameters names optional # parts) d params =
     bind_parts parts (Suc d) (foldl (\<lambda>ps name. AList.update name d ps) params names)"
| "bind_parts (Exact k # parts) d params = bind_parts parts (Suc d) params"
| "bind_parts (Prefix # parts) d params = bind_parts parts (Suc d) (shallow_copy params)"

lemma bind_parts_append: "bind_parts (xs @ ys) d params = bind_parts ys (d + length xs) (bind_parts xs d params)"
  by (induction xs d params rule: bind_parts.induct) simp_all

definition describes :: "url_part list \<Rightarrow> url_part list \<times> route_entry \<Rightarrow> flat_route \<Rightarrow> bool" where
  "describes pre = (\<lambda>(p, e) f. fr_route f = re_route e \<and> fr_callback f = re_callback e
     \<and> new_RegExp (''^'' @ concat (map part_rexpr (pre @ p)) @ ''$'') = Some (fr_regexp f)
     \<and> fr_depth f = length (pre @ p) \<and> fr_params f = bind_parts (pre @ p) 0 []
     \<and> fr_prefix f = (Prefix \<in> set (pre @ p)))"

lemma part_rexpr_simps:
  "part_rexpr (Exact k) = ''/'' @ escape_part k" "part_rexpr (Parameters names optional) = optional_match optional (parameter_match None)"
  "part_rexpr Prefix = ''(/[^/]+)*/?''"
  by (simp_all add: part_rexpr_def)

lemma describes_snoc: "describes (pre @ [part]) = (\<lambda>x. describes pre (part # fst x, snd x))"
  by (auto simp: describes_def fun_eq_iff)

lemma concat_results_all2:
  "list_all2 (\<lambda>ps x. \<exists>fs. x = Inr fs \<and> list_all2 Q ps fs) pss xs \<Longrightarrow>
     \<exists>fs. concat_results xs = Inr fs \<and> list_all2 Q (concat pss) fs"
  by (induction rule: list_all2_induct) (auto intro: list_all2_appendI)

lemma flatten_entries_describes:
  assumes "list_all plain_part (pre @ p)"
  shows "\<exists>fs. flatten_entries es path (concat (map part_rexpr (pre @ p))) (bind_parts (pre @ p) 0 []) (length (pre @ p))
      (Prefix \<in> set (pre @ p)) = Inr fs \<and> list_all2 (describes pre) (map (Pair p) (js_sort by_priority es)) fs"
proof (cases "es = []")
  case True
  then show ?thesis by (simp add: flatten_entries_def js_sort_def)
next
  case False
  obtain re where re: "new_RegExp (''^'' @ concat (map part_rexpr (pre @ p)) @ ''$'') = Some re"
    using compile_parts [OF assms] by blast
  show ?thesis unfolding flatten_entries_def re using False re
    by (simp add: list.rel_map list_all2_same describes_def)
qed

lemma flatten_describes:
  "plain_tree t \<Longrightarrow> list_all plain_part pre \<Longrightarrow> Prefix \<notin> set pre \<Longrightarrow>
     \<exists>fs. flattenRouting t path (concat (map part_rexpr pre)) (bind_parts pre 0 []) (length pre) False = Inr fs
       \<and> list_all2 (describes pre) (tree_paths t) fs"
  "plain_param q \<Longrightarrow> list_all plain_part pre \<Longrightarrow> Prefix \<notin> set pre \<Longrightarrow>
     \<exists>fs. flattenParameter q path (concat (map part_rexpr pre)) (bind_parts pre 0 []) (length pre) = Inr fs
       \<and> list_all2 (describes pre) (parameter_paths q) fs"
proof (induction t and q arbitrary: pre path and pre path rule: tree_paths_parameter_paths.induct)
  case (1 ex ps rs pf)
  let ?goal = "\<lambda>paths x. \<exists>fs. x = Inr fs \<and> list_all2 (describes pre) paths fs"
  let ?R = "concat (map part_rexpr pre)" and ?B = "bind_parts pre 0 []"
  have "?goal (map (\<lambda>(p, e). (Exact k # p, e)) (tree_paths t))
      (flattenRouting t (path @ ''/'' @ k) (?R @ ''/'' @ escape_part k) ?B (Suc (length pre)) False)"
    if kt: "(k, t) \<in> set ex" for k t
  proof -
    have t: "plain_tree t" "plain_part (Exact k)" using "1.prems"(1) kt by (auto simp: list_all_iff plain_part_def)
    have "\<exists>fs. flattenRouting t (path @ ''/'' @ k) (concat (map part_rexpr (pre @ [Exact k]))) (bind_parts (pre @ [Exact k]) 0 [])
        (length (pre @ [Exact k])) False = Inr fs \<and> list_all2 (describes (pre @ [Exact k])) (tree_paths t) fs"
      by (rule "1.IH"(1)) (use t kt "1.prems" in auto)
    then show ?thesis
      by (simp add: part_rexpr_simps bind_parts_append list.rel_map case_prod_unfold describes_snoc)
  qed
  then have exact: "list_all2 ?goal (map (\<lambda>(k, t). map (\<lambda>(p, e). (Exact k # p, e)) (tree_paths t)) (enumerated ex))
      (map (\<lambda>(k, t). flattenRouting t (path @ ''/'' @ k) (?R @ ''/'' @ escape_part k) ?B (Suc (length pre)) False) (enumerated ex))"
    by (auto simp: list.rel_map list_all2_same)
  have "?goal (parameter_paths q) (flattenParameter q path ?R ?B (length pre))" if "q \<in> set ps" for q
    by (rule "1.IH"(2)) (use that "1.prems" in \<open>auto simp: list_all_iff\<close>)
  then have params: "list_all2 ?goal (map parameter_paths ps) (map (\<lambda>p. flattenParameter p path ?R ?B (length pre)) ps)"
    by (simp add: list.rel_map list_all2_same)
  have own: "?goal (map (Pair []) (js_sort by_priority rs)) (flatten_entries rs path ?R ?B (length pre) False)"
    using flatten_entries_describes [of pre "[]" rs path] "1.prems"(2,3) by simp
  have prefix: "?goal (map (Pair [Prefix]) (js_sort by_priority pf))
      (flatten_entries pf (path @ ''/...'') (?R @ ''(/[^/]+)*/?'') (shallow_copy ?B) (Suc (length pre)) True)"
    using flatten_entries_describes [of pre "[Prefix]" pf "path @ ''/...''"] "1.prems"(2)
    by (simp add: bind_parts_append part_rexpr_simps plain_part_def)
  show ?case
    using concat_results_all2 [OF list_all2_appendI [OF exact list_all2_appendI [OF params, of "[_, _]" "[_, _]"]], of _ _ _ _] own prefix
    by simp
next
  case (2 name constraint optional t)
  have "\<exists>fs. flattenRouting t (path @ ''/<parameters>'') (concat (map part_rexpr (pre @ [Parameters [name] optional])))
      (bind_parts (pre @ [Parameters [name] optional]) 0 []) (length (pre @ [Parameters [name] optional])) False = Inr fs
      \<and> list_all2 (describes (pre @ [Parameters [name] optional])) (tree_paths t) fs"
    by (rule "2.IH") (use "2.prems" in \<open>auto simp: plain_part_def\<close>)
  then show ?case using "2.prems"(1)
    by (simp add: part_rexpr_simps bind_parts_append list.rel_map case_prod_unfold describes_snoc)
qed

subsection \<open>The order of the paths\<close>

text \<open>
  At the first part in which two paths differ in kind a fixed part comes first, then a parameter, then the end,
  then a prefix. Below different parameters the order is that of the definitions.
\<close>

fun part_rank :: "url_part \<Rightarrow> nat" where
  "part_rank (Exact k) = 0"
| "part_rank (Parameters names optional) = 1"
| "part_rank Prefix = 3"

fun precedes :: "url_part list \<Rightarrow> url_part list \<Rightarrow> bool" where
  "precedes [] [] \<longleftrightarrow> True"
| "precedes [] (y # ys) \<longleftrightarrow> y = Prefix"
| "precedes (x # xs) [] \<longleftrightarrow> x \<noteq> Prefix"
| "precedes (x # xs) (y # ys) \<longleftrightarrow> part_rank x < part_rank y \<or>
     (part_rank x = part_rank y \<and> (part_rank x = 0 \<longrightarrow> x = y \<longrightarrow> precedes xs ys))"

lemma sorted_concat_map:
  "(\<And>x. x \<in> set xs \<Longrightarrow> sorted_wrt P (f x)) \<Longrightarrow> sorted_wrt (\<lambda>x y. \<forall>a \<in> set (f x). \<forall>b \<in> set (f y). P a b) xs \<Longrightarrow>
     sorted_wrt P (concat (map f xs))"
  by (induction xs) (auto simp: sorted_wrt_append)

lemma sorted_all: "(\<And>a b. P a b) \<Longrightarrow> sorted_wrt P xs"
  by (simp add: sorted_wrt_iff_nth_less)

lemma distinct_enumerated: "distinct (map fst (enumerated xs)) \<longleftrightarrow> distinct (map fst xs)"
  using mset_eq_imp_distinct_iff [of "map fst (enumerated xs)" "map fst xs"] by simp

lemma parameter_head: "x \<in> set (parameter_paths q) \<Longrightarrow> \<exists>n optional p. fst x = Parameters [n] optional # p"
  by (cases q) auto

lemma tree_paths_sorted: "plain_tree t \<Longrightarrow> sorted_wrt (\<lambda>x y. precedes (fst x) (fst y)) (tree_paths t)"
  and "plain_param q \<Longrightarrow> sorted_wrt (\<lambda>x y. precedes (fst x) (fst y)) (parameter_paths q)"
proof (induction t and q rule: tree_paths_parameter_paths.induct)
  case (1 ex ps rs pf)
  let ?P = "\<lambda>x y. precedes (fst x) (fst y)"
  have "sorted_wrt ?P (concat (map (\<lambda>(k, t). map (\<lambda>(p, e). (Exact k # p, e)) (tree_paths t)) (enumerated ex)))"
  proof (rule sorted_concat_map)
    fix x assume x: "x \<in> set (enumerated ex)"
    obtain k t where kt: "x = (k, t)" by (cases x)
    have "plain_tree t" using "1.prems" x kt by (auto simp: list_all_iff)
    then have "sorted_wrt ?P (tree_paths t)" by (rule "1.IH"(1) [OF x kt [symmetric]])
    then show "sorted_wrt ?P ((\<lambda>(k, t). map (\<lambda>(p, e). (Exact k # p, e)) (tree_paths t)) x)"
      by (simp add: kt sorted_wrt_map case_prod_unfold)
  next
    have "distinct (map fst (enumerated ex))" using "1.prems" by (simp add: distinct_enumerated)
    then have "sorted_wrt (\<lambda>x y. fst x \<noteq> fst y) (enumerated ex)"
      by (simp add: sorted_wrt_iff_nth_less distinct_conv_nth nth_map)
    then show "sorted_wrt (\<lambda>x y. \<forall>a \<in> set ((\<lambda>(k, t). map (\<lambda>(p, e). (Exact k # p, e)) (tree_paths t)) x).
        \<forall>b \<in> set ((\<lambda>(k, t). map (\<lambda>(p, e). (Exact k # p, e)) (tree_paths t)) y). ?P a b) (enumerated ex)"
      by (rule sorted_wrt_mono_rel [rotated]) (auto simp: case_prod_unfold)
  qed
  moreover have "sorted_wrt ?P (concat (map parameter_paths ps))"
  proof (rule sorted_concat_map)
    show "sorted_wrt ?P (parameter_paths q)" if "q \<in> set ps" for q
      using "1.IH"(2) [OF that] "1.prems" that by (simp add: list_all_iff)
    show "sorted_wrt (\<lambda>x y. \<forall>a \<in> set (parameter_paths x). \<forall>b \<in> set (parameter_paths y). ?P a b) ps"
      by (rule sorted_all) (auto dest!: parameter_head)
  qed
  moreover have "sorted_wrt ?P (map (Pair []) es)" "sorted_wrt ?P (map (Pair [Prefix]) es)" for es :: "route_entry list"
    by (simp_all add: sorted_wrt_map sorted_all)
  ultimately show ?case
    unfolding tree_paths.simps sorted_wrt_append by (auto dest!: parameter_head)
next
  case (2 name constraint optional t)
  then show ?case by (auto simp: sorted_wrt_map case_prod_unfold intro: sorted_wrt_mono_rel)
qed

lemma describes_regexp:
  assumes "describes [] (p, e) f" "list_all plain_part p" "prefix_last p" "list_all request_part ps"
  shows "rx_test (fr_regexp f) (request_url ps) \<longleftrightarrow> url_matches p ps"
  using regexp_matches [OF assms(2,3) _ assms(4)] assms(1) by (simp add: describes_def)

lemma tree_paths_wf:
  "plain_tree t \<Longrightarrow> x \<in> set (tree_paths t) \<Longrightarrow> list_all plain_part (fst x) \<and> prefix_last (fst x)"
  "plain_param q \<Longrightarrow> x \<in> set (parameter_paths q) \<Longrightarrow> list_all plain_part (fst x) \<and> prefix_last (fst x)"
proof (induction t and q arbitrary: x and x rule: tree_paths_parameter_paths.induct)
  case (1 ex ps rs pf)
  then consider k t y where "(k, t) \<in> set ex" "y \<in> set (tree_paths t)" "fst x = Exact k # fst y"
    | q where "q \<in> set ps" "x \<in> set (parameter_paths q)" | "fst x = []" | "fst x = [Prefix]"
    by (auto simp: set_tree_paths)
  then show ?case
  proof cases
    case 1
    then show ?thesis using "1.IH"(1) [of "(k, t)" k t y] "1.prems"(1) by (auto simp: list_all_iff plain_part_def)
  next
    case 2
    then show ?thesis using "1.IH"(2) [of q x] "1.prems"(1) by (auto simp: list_all_iff)
  qed (simp_all add: plain_part_def)
next
  case (2 name constraint optional t)
  then show ?case by (auto simp: plain_part_def)
qed

subsection \<open>Installing routes\<close>

definition entry_of :: "route \<Rightarrow> route_callback \<Rightarrow> route_entry" where
  "entry_of r callback = \<lparr>re_route = r, re_priority = route_priority r, re_callback = callback\<rparr>"

text \<open>The paths that a route gets in the tree of a method.\<close>

definition offered_paths :: "modules \<Rightarrow> string \<Rightarrow> route \<Rightarrow> string \<Rightarrow> (url_part list \<times> route_entry) set" where
  "offered_paths md prefix r method = {(p, entry_of r callback) | p ui callback.
     lookupUrl prefix (rt_url r) = Some ui \<and> lookupCallback md r = Some callback
     \<and> method \<in> set (intersectMethods (ui_methods ui) (cb_methods callback)) \<and> p \<in> set (url_paths (ui_parts ui))}"

text \<open>A route that the theorems are about: plain parts, no constraint, known methods.\<close>

definition plain_route :: "modules \<Rightarrow> string \<Rightarrow> route \<Rightarrow> bool" where
  "plain_route md prefix r \<longleftrightarrow> (case (lookupUrl prefix (rt_url r), lookupCallback md r) of
      (Some ui, Some callback) \<Rightarrow> list_all plain_part (ui_parts ui) \<and> ui_constraint ui = []
        \<and> list_all (\<lambda>m. m \<in> set ALL_METHODS) (intersectMethods (ui_methods ui) (cb_methods callback))
    | _ \<Rightarrow> True)"

definition paths_at :: "route_entry method_trees \<Rightarrow> string \<Rightarrow> (url_part list \<times> route_entry) set" where
  "paths_at storage method = set (tree_paths (child_at method storage))"

definition storage_ok :: "route_entry method_trees \<Rightarrow> bool" where
  "storage_ok storage \<longleftrightarrow> (\<forall>m \<in> set ALL_METHODS. map_of storage m \<noteq> None) \<and> (\<forall>m. plain_tree (child_at m storage))"

lemma child_at_update: "child_at m (AList.update k v ex) = (if m = k then v else child_at m ex)"
  by (simp add: child_at_def update_conv')

lemma define_methods_paths:
  assumes "ui_constraint url = []" "list_all plain_part (ui_parts url)"
  shows "storage_ok storage \<Longrightarrow> set ms \<subseteq> set ALL_METHODS \<Longrightarrow>
    \<exists>storage'. define_methods storage url e ms = (storage', None) \<and> storage_ok storage'
      \<and> (\<forall>m. paths_at storage' m = paths_at storage m \<union> (if m \<in> set ms then (\<lambda>p. (p, e)) ` set (url_paths (ui_parts url)) else {}))"
proof (induction ms arbitrary: storage)
  case (Cons m ms)
  then obtain t where t: "map_of storage m = Some t" unfolding storage_ok_def by auto
  let ?new = "defineRoutePart t (ui_parts url) [] e"
  let ?st = "AList.update m ?new storage"
  have c: "child_at m storage = t" using t by (simp add: child_at_def)
  have "storage_ok ?st"
    using Cons.prems(1) c define_route_plain [of t "ui_parts url" e] assms(2)
    unfolding storage_ok_def by (auto simp: child_at_update update_conv')
  moreover have "set ms \<subseteq> set ALL_METHODS" using Cons.prems(2) by simp
  ultimately obtain storage' where s: "define_methods ?st url e ms = (storage', None)" "storage_ok storage'"
      "\<forall>k. paths_at storage' k = paths_at ?st k \<union> (if k \<in> set ms then (\<lambda>p. (p, e)) ` set (url_paths (ui_parts url)) else {})"
    using Cons.IH by blast
  have "paths_at ?st k = paths_at storage k \<union> (if k = m then (\<lambda>p. (p, e)) ` set (url_paths (ui_parts url)) else {})" for k
    using c by (simp add: paths_at_def child_at_update define_route_paths)
  then show ?case using s t assms(1) by auto
qed auto

lemma install_route_paths:
  assumes "storage_ok storage" "plain_route md prefix r"
  shows "\<exists>storage'. installRoute md storage r prefix = (storage', None) \<and> storage_ok storage'
    \<and> (\<forall>m. paths_at storage' m = paths_at storage m \<union> offered_paths md prefix r m)"
proof (cases "lookupUrl prefix (rt_url r)")
  case None
  then show ?thesis using assms(1) by (simp add: installRoute_def offered_paths_def)
next
  case (Some ui)
  note ui = this
  show ?thesis
  proof (cases "lookupCallback md r")
    case None
    then show ?thesis using assms(1) ui by (simp add: installRoute_def offered_paths_def)
  next
    case (Some callback)
    have plain: "ui_constraint ui = []" "list_all plain_part (ui_parts ui)"
        "set (intersectMethods (ui_methods ui) (cb_methods callback)) \<subseteq> set ALL_METHODS"
      using assms(2) ui Some by (auto simp: plain_route_def list_all_iff)
    have offered: "offered_paths md prefix r m = (if m \<in> set (intersectMethods (ui_methods ui) (cb_methods callback))
        then (\<lambda>p. (p, entry_of r callback)) ` set (url_paths (ui_parts ui)) else {})" for m
      using ui Some by (auto simp: offered_paths_def)
    show ?thesis
      using define_methods_paths [OF plain(1,2) assms(1) plain(3), of "entry_of r callback"]
      unfolding offered installRoute_def ui option.case Some defineRoute_def entry_of_def .
  qed
qed

lemma install_all_paths:
  "storage_ok storage \<Longrightarrow> list_all (plain_route md prefix) rs \<Longrightarrow>
     \<exists>storage'. install_all md storage rs prefix = (storage', None) \<and> storage_ok storage'
       \<and> (\<forall>m. paths_at storage' m = paths_at storage m \<union> (\<Union>r \<in> set rs. offered_paths md prefix r m))"
proof (induction rs arbitrary: storage)
  case (Cons r rs)
  obtain st where "installRoute md storage r prefix = (st, None)" "storage_ok st"
      "\<forall>m. paths_at st m = paths_at storage m \<union> offered_paths md prefix r m"
    using install_route_paths [of storage md prefix r] Cons.prems by auto
  then show ?case using Cons.IH [of st] Cons.prems(2) by (auto simp: Un_assoc)
qed auto

text \<open>The routes and the middleware of a list of items, each with its URL prefix.\<close>

definition item_routes :: "routes_item \<Rightarrow> (string \<times> route) list" where
  "item_routes item = (case item of Bundle b \<Rightarrow> map (Pair (bd_urlPrefix b)) (bd_routes b) | SingleRoute r \<Rightarrow> [([], r)])"

definition item_middleware :: "routes_item \<Rightarrow> (string \<times> route) list" where
  "item_middleware item = (case item of Bundle b \<Rightarrow> map (Pair (bd_urlPrefix b)) (bd_middleware b) | SingleRoute r \<Rightarrow> [])"

definition plain_item :: "modules \<Rightarrow> routes_item \<Rightarrow> bool" where
  "plain_item md item \<longleftrightarrow> list_all (\<lambda>(prefix, r). plain_route md prefix r) (item_routes item @ item_middleware item)"

definition offered :: "modules \<Rightarrow> (string \<times> route) list \<Rightarrow> string \<Rightarrow> (url_part list \<times> route_entry) set" where
  "offered md rs m = (\<Union>(prefix, r) \<in> set rs. offered_paths md prefix r m)"

lemma install_item_paths:
  assumes "storage_ok (tr_routes tree)" "storage_ok (tr_middleware tree)" "plain_item md item"
  shows "storage_ok (tr_routes (install_item md tree item)) \<and> storage_ok (tr_middleware (install_item md tree item))
    \<and> (\<forall>m. paths_at (tr_routes (install_item md tree item)) m = paths_at (tr_routes tree) m \<union> offered md (item_routes item) m)
    \<and> (\<forall>m. paths_at (tr_middleware (install_item md tree item)) m = paths_at (tr_middleware tree) m \<union> offered md (item_middleware item) m)"
proof (cases item)
  case (Bundle b)
  have plain: "list_all (plain_route md (bd_urlPrefix b)) (bd_routes b)" "list_all (plain_route md (bd_urlPrefix b)) (bd_middleware b)"
    using assms(3) Bundle by (auto simp: plain_item_def item_routes_def item_middleware_def list_all_iff)
  then show ?thesis
    using install_all_paths [OF assms(1) plain(1)] install_all_paths [OF assms(2) plain(2)] Bundle
    by (auto simp: install_item_def analyseRoutes_def item_routes_def item_middleware_def offered_def)
next
  case (SingleRoute r)
  then show ?thesis
    using install_route_paths [OF assms(1), of md "[]" r] assms(2,3)
    by (auto simp: install_item_def item_routes_def item_middleware_def offered_def plain_item_def)
qed

lemma build_paths:
  assumes "list_all (plain_item md) items"
  shows "storage_ok (tr_routes (buildRoutingTree md items)) \<and> storage_ok (tr_middleware (buildRoutingTree md items))
    \<and> (\<forall>m. paths_at (tr_routes (buildRoutingTree md items)) m = offered md (concat (map item_routes items)) m)
    \<and> (\<forall>m. paths_at (tr_middleware (buildRoutingTree md items)) m = offered md (concat (map item_middleware items)) m)"
  using assms
proof (induction items rule: rev_induct)
  case Nil
  have c: "child_at m (map (\<lambda>m. (m, empty_node)) ms) = empty_node" for m and ms :: "string list"
    by (induction ms) (auto simp: child_at_def)
  show ?case
    by (simp add: buildRoutingTree_def empty_storage_def storage_ok_def paths_at_def offered_def c map_of_map_keys [symmetric])
      (simp add: map_of_map_Pair)
next
  case (snoc item items)
  have "buildRoutingTree md (items @ [item]) = install_item md (buildRoutingTree md items) item"
    by (simp add: buildRoutingTree_def)
  then show ?case using install_item_paths [of "buildRoutingTree md items" md item] snoc
    by (auto simp: offered_def)
qed

subsection \<open>The flat list\<close>

lemma flatten_tree:
  assumes "plain_tree t"
  shows "\<exists>fs. flattenRouting t [] [] [] 0 False = Inr fs \<and> list_all2 (describes []) (tree_paths t) fs"
  using flatten_describes(1) [OF assms, of "[]" "[]"] by simp

lemma flatten_methods_lookup:
  assumes "storage_ok (tr_routes tree)" "storage_ok (tr_middleware tree)"
  shows "\<exists>rl. flatten_methods tree ms = Inr rl \<and> (\<forall>m \<in> set ms. \<exists>a b. map_of rl m = Some (rev b @ a)
     \<and> list_all2 (describes []) (tree_paths (child_at m (tr_routes tree))) a
     \<and> list_all2 (describes []) (tree_paths (child_at m (tr_middleware tree))) b)"
proof (induction ms)
  case (Cons m ms)
  obtain a where a: "flattenRouting (child_at m (tr_routes tree)) [] [] [] 0 False = Inr a"
      "list_all2 (describes []) (tree_paths (child_at m (tr_routes tree))) a"
    using flatten_tree assms(1) unfolding storage_ok_def by blast
  obtain b where b: "flattenRouting (child_at m (tr_middleware tree)) [] [] [] 0 False = Inr b"
      "list_all2 (describes []) (tree_paths (child_at m (tr_middleware tree))) b"
    using flatten_tree assms(2) unfolding storage_ok_def by blast
  obtain rl where rl: "flatten_methods tree ms = Inr rl"
      "\<forall>m \<in> set ms. \<exists>a b. map_of rl m = Some (rev b @ a)
         \<and> list_all2 (describes []) (tree_paths (child_at m (tr_routes tree))) a
         \<and> list_all2 (describes []) (tree_paths (child_at m (tr_middleware tree))) b"
    using Cons by blast
  have "flatten_methods tree (m # ms) = Inr ((m, rev b @ a) # rl)" using a(1) b(1) rl(1) by simp
  moreover have "\<exists>a b. map_of ((m, rev b' @ a') # rl) k = Some (rev b @ a)
      \<and> list_all2 (describes []) (tree_paths (child_at k (tr_routes tree))) a
      \<and> list_all2 (describes []) (tree_paths (child_at k (tr_middleware tree))) b"
    if "k \<in> set (m # ms)" "a' = a" "b' = b" for k a' b'
    using a(2) b(2) rl(2) that by (cases "k = m") auto
  ultimately show ?case by blast
qed simp

lemma list_all2_ex_iff:
  assumes "list_all2 R xs ys" "\<And>x y. x \<in> set xs \<Longrightarrow> R x y \<Longrightarrow> P x \<longleftrightarrow> Q y"
  shows "(\<exists>y \<in> set ys. Q y) \<longleftrightarrow> (\<exists>x \<in> set xs. P x)"
  using assms by (induction rule: list_all2_induct) auto

definition answers :: "modules \<Rightarrow> (string \<times> route) list \<Rightarrow> string \<Rightarrow> string list \<Rightarrow> route \<Rightarrow> bool" where
  "answers md rs m ps r \<longleftrightarrow> (\<exists>prefix ui callback p. (prefix, r) \<in> set rs \<and> lookupUrl prefix (rt_url r) = Some ui
     \<and> lookupCallback md r = Some callback \<and> m \<in> set (intersectMethods (ui_methods ui) (cb_methods callback))
     \<and> p \<in> set (url_paths (ui_parts ui)) \<and> url_matches p ps)"

lemma answers_offered: "answers md rs m ps r \<longleftrightarrow> (\<exists>x \<in> offered md rs m. re_route (snd x) = r \<and> url_matches (fst x) ps)"
proof
  assume "answers md rs m ps r"
  then obtain prefix ui callback p where "(prefix, r) \<in> set rs" "lookupUrl prefix (rt_url r) = Some ui"
      "lookupCallback md r = Some callback" "m \<in> set (intersectMethods (ui_methods ui) (cb_methods callback))"
      "p \<in> set (url_paths (ui_parts ui))" "url_matches p ps"
    unfolding answers_def by blast
  then have "(p, entry_of r callback) \<in> offered md rs m" unfolding offered_def offered_paths_def by blast
  then show "\<exists>x \<in> offered md rs m. re_route (snd x) = r \<and> url_matches (fst x) ps"
    using \<open>url_matches p ps\<close> by (auto simp: entry_of_def intro!: bexI)
next
  assume "\<exists>x \<in> offered md rs m. re_route (snd x) = r \<and> url_matches (fst x) ps"
  then show "answers md rs m ps r"
    unfolding answers_def offered_def offered_paths_def by (auto simp: entry_of_def) blast
qed

lemma flat_answers:
  assumes "plain_tree t" "list_all2 (describes []) (tree_paths t) fs" "list_all request_part ps"
  shows "(\<exists>f \<in> set fs. fr_route f = r \<and> rx_test (fr_regexp f) (request_url ps)) \<longleftrightarrow>
    (\<exists>x \<in> set (tree_paths t). re_route (snd x) = r \<and> url_matches (fst x) ps)"
proof (rule list_all2_ex_iff [OF assms(2)])
  fix x f assume x: "x \<in> set (tree_paths t)" "describes [] x f"
  have "rx_test (fr_regexp f) (request_url ps) \<longleftrightarrow> url_matches (fst x) ps"
    using describes_regexp [of "fst x" "snd x" f ps] x tree_paths_wf(1) [OF assms(1) x(1)] assms(3) by simp
  then show "(re_route (snd x) = r \<and> url_matches (fst x) ps) = (fr_route f = r \<and> rx_test (fr_regexp f) (request_url ps))"
    using x(2) by (auto simp: describes_def)
qed

text \<open>
  C35: The whole way from the definitions of the routes to the regular expressions of the flat list: for a method, the
  expressions that match the URL of a request belong to exactly those routes and that middleware whose URL, in one of its
  alternatives, fits the request part by part, and whose methods include it. Building and flattening does not fail.
\<close>

theorem routing_finds:
  assumes "list_all (plain_item md) items" "m \<in> set ALL_METHODS" "list_all request_part ps"
  shows "\<exists>rl flat. flattenRoutingTree (buildRoutingTree md items) = Inr rl \<and> map_of rl m = Some flat
    \<and> (\<forall>r. (\<exists>f \<in> set flat. fr_route f = r \<and> rx_test (fr_regexp f) (request_url ps)) \<longleftrightarrow>
         answers md (concat (map item_routes items) @ concat (map item_middleware items)) m ps r)"
proof -
  let ?tree = "buildRoutingTree md items"
  have ok: "storage_ok (tr_routes ?tree)" "storage_ok (tr_middleware ?tree)"
    and paths: "paths_at (tr_routes ?tree) m = offered md (concat (map item_routes items)) m"
      "paths_at (tr_middleware ?tree) m = offered md (concat (map item_middleware items)) m"
    using build_paths [OF assms(1)] by auto
  obtain rl a b where rl: "flattenRoutingTree ?tree = Inr rl" "map_of rl m = Some (rev b @ a)"
      "list_all2 (describes []) (tree_paths (child_at m (tr_routes ?tree))) a"
      "list_all2 (describes []) (tree_paths (child_at m (tr_middleware ?tree))) b"
    using flatten_methods_lookup [OF ok, of ALL_METHODS] assms(2) unfolding flattenRoutingTree_def by blast
  have plain: "plain_tree (child_at m (tr_routes ?tree))" "plain_tree (child_at m (tr_middleware ?tree))"
    using ok by (simp_all add: storage_ok_def)
  have "(\<exists>f \<in> set (rev b @ a). fr_route f = r \<and> rx_test (fr_regexp f) (request_url ps)) \<longleftrightarrow>
      answers md (concat (map item_routes items)) m ps r \<or> answers md (concat (map item_middleware items)) m ps r" for r
    using flat_answers [OF plain(1) rl(3) assms(3), of r] flat_answers [OF plain(2) rl(4) assms(3), of r]
    unfolding answers_offered paths [symmetric] paths_at_def by (auto simp: bex_Un)
  moreover have "answers md (xs @ ys) m ps r \<longleftrightarrow> answers md xs m ps r \<or> answers md ys m ps r" for xs ys r
    unfolding answers_offered offered_def by auto
  ultimately show ?thesis using rl(1,2) by auto
qed

text \<open>
  For plain routes the flat list has the paths in the order of the tree: for every method there are the paths of the
  middleware in reverse order, and then those of the routes. Where two paths first differ, a fixed part comes before
  a parameter, that one before the end, and the end before a prefix; paths that differ first in two parameters may
  come in either order. This is not the specificity of the documentation, for which a match without parameters
  comes first: an optional parameter precedes the end.
\<close>

theorem routing_order:
  assumes "list_all (plain_item md) items" "m \<in> set ALL_METHODS"
  shows "\<exists>rl middleware routes ms rs. flattenRoutingTree (buildRoutingTree md items) = Inr rl
    \<and> map_of rl m = Some (middleware @ routes) \<and> length ms = length middleware \<and> length rs = length routes
    \<and> sorted_wrt (\<lambda>p q. precedes q p) ms \<and> sorted_wrt precedes rs
    \<and> (\<forall>ps. list_all request_part ps \<longrightarrow>
         map (\<lambda>f. rx_test (fr_regexp f) (request_url ps)) (middleware @ routes) = map (\<lambda>p. url_matches p ps) (ms @ rs))"
proof -
  let ?tree = "buildRoutingTree md items"
  have ok: "storage_ok (tr_routes ?tree)" "storage_ok (tr_middleware ?tree)" using build_paths [OF assms(1)] by auto
  obtain rl a b where rl: "flattenRoutingTree ?tree = Inr rl" "map_of rl m = Some (rev b @ a)"
      and a: "list_all2 (describes []) (tree_paths (child_at m (tr_routes ?tree))) a"
      and b: "list_all2 (describes []) (tree_paths (child_at m (tr_middleware ?tree))) b"
    using flatten_methods_lookup [OF ok, of ALL_METHODS] assms(2) unfolding flattenRoutingTree_def by blast
  have plain: "plain_tree (child_at m (tr_routes ?tree))" "plain_tree (child_at m (tr_middleware ?tree))"
    using ok by (simp_all add: storage_ok_def)
  let ?rs = "map fst (tree_paths (child_at m (tr_routes ?tree)))"
    and ?ms = "rev (map fst (tree_paths (child_at m (tr_middleware ?tree))))"
  have tests: "map (\<lambda>f. rx_test (fr_regexp f) (request_url ps)) fs = map (\<lambda>p. url_matches p ps) (map fst (tree_paths t))"
    if "plain_tree t" "list_all2 (describes []) (tree_paths t) fs" "list_all request_part ps" for t fs ps
    using describes_regexp [OF _ _ _ that(3)] tree_paths_wf(1) [OF that(1)] that(2)
    by (auto simp: list_all2_conv_all_nth intro!: nth_equalityI) (metis nth_mem prod.collapse)+
  have "sorted_wrt precedes ?rs" "sorted_wrt (\<lambda>p q. precedes q p) ?ms"
    using tree_paths_sorted(1) [OF plain(1)] tree_paths_sorted(1) [OF plain(2)] by (simp_all add: sorted_wrt_map sorted_wrt_rev)
  moreover have "length ?rs = length a" "length ?ms = length (rev b)" using a b by (simp_all add: list_all2_lengthD)
  moreover have "map (\<lambda>f. rx_test (fr_regexp f) (request_url ps)) (rev b @ a) = map (\<lambda>p. url_matches p ps) (?ms @ ?rs)"
    if "list_all request_part ps" for ps
    using tests [OF plain(1) a that] tests [OF plain(2) b that] by (simp add: rev_map [symmetric])
  ultimately show ?thesis using rl by blast
qed

end
