(* ===== verification/Routing_Requests.thy ===== *)
theory Routing_Requests
  imports Routing_Tree
begin

text \<open>
  Requests on the flat list: \<open>firstRouting\<close> and \<open>nextRouting\<close> walk through the matching routes in order,
  \<open>routeRequest\<close> runs their handlers one inside the other and ends with the error 404, and a rewriting
  handler that leads back to itself never returns.
\<close>

subsection \<open>The walk through the list\<close>

definition candidates :: "routing_state \<Rightarrow> flat_route list" where
  "candidates state = filter (\<lambda>f. rx_test (fr_regexp f) (st_url state)) (drop (nat (st_position state + 1)) (st_routing state))"

lemma find_in_drop:
  "case filter Q (drop n xs) of
     [] \<Rightarrow> List.find (\<lambda>i. Q (xs ! i)) [n..<length xs] = None
   | f # fs \<Rightarrow> \<exists>i. List.find (\<lambda>i. Q (xs ! i)) [n..<length xs] = Some i \<and> xs ! i = f \<and> filter Q (drop (Suc i) xs) = fs"
proof (induction "length xs - n" arbitrary: n)
  case (Suc k)
  then have n: "n < length xs" by simp
  have "drop n xs = xs ! n # drop (Suc n) xs" using n by (simp add: Cons_nth_drop_Suc)
  moreover have "k = length xs - Suc n" using Suc.hyps(2) by simp
  ultimately show ?case using Suc.hyps(1) [of "Suc n"] n by (simp add: upt_conv_Cons split: list.splits)
qed simp

lemma nextRouting_candidates:
  assumes "- 1 \<le> st_position state"
  shows "case candidates state of
     [] \<Rightarrow> st_route (nextRouting state) = None
   | f # fs \<Rightarrow> \<exists>i. nextRouting state = route_found f i state \<and> 0 \<le> i \<and> candidates (nextRouting state) = fs"
  using find_in_drop [where Q = "\<lambda>f. rx_test (fr_regexp f) (st_url state)" and n = "nat (st_position state + 1)" and xs = "st_routing state"]
  by (auto simp: candidates_def nextRouting_def route_found_def nat_add_distrib split: list.splits)

subsection \<open>Handlers in a chain\<close>

text \<open>The request as the handler of a route sees it.\<close>

definition visible :: "string list \<Rightarrow> flat_route \<Rightarrow> exchange \<Rightarrow> exchange" where
  "visible parts f st = (case st of (req, res) \<Rightarrow>
     (req\<lparr>rq_path := Some (fr_path f),
          rq_prefix := (if fr_prefix f then Some (''/'' @ join ''/'' (take (fr_depth f - 1) parts)) else None),
          rq_suffix := (if fr_prefix f then Some (drop (fr_depth f - 1) parts) else None),
          rq_params := map (\<lambda>(k, d). (k, if d < length parts then Some (parts ! d) else None)) (fr_params f)\<rparr>, res))"

text \<open>
  The specification of a request: the handlers of the matching routes, where what \<open>next\<close> does is the rest
  of the list, and the error 404 at the end of it.
\<close>

fun serve :: "modules \<Rightarrow> string list \<Rightarrow> flat_route list \<Rightarrow> exchange \<Rightarrow> js_exc + exchange" where
  "serve md parts [] st = Inr (resultNotFound st 404 (''unknown path '' @ quoted (rq_url (fst st))))"
| "serve md parts (f # fs) st = (case route_handler md f (cb_options (fr_callback f)) (visible parts f st) of
      Done st \<Rightarrow> Inr st
    | Throw e \<Rightarrow> Inl e
    | CallNext restart st k \<Rightarrow> (case k (serve md parts fs st) of Done st \<Rightarrow> Inr st | Throw e \<Rightarrow> Inl e | CallNext _ _ _ \<Rightarrow> Inl TypeError))"

text \<open>A handler that calls \<open>next\<close> at most once and does not restart.\<close>

definition calls_next_once :: "handler \<Rightarrow> bool" where
  "calls_next_once h \<longleftrightarrow> (\<forall>options st. case h options st of
      CallNext restart st' k \<Rightarrow> \<not> restart \<and> (\<forall>outcome. case k outcome of CallNext _ _ _ \<Rightarrow> False | _ \<Rightarrow> True)
    | _ \<Rightarrow> True)"

definition pending_routes :: "routing_state \<Rightarrow> flat_route list" where
  "pending_routes action = (case st_route action of None \<Rightarrow> [] | Some f \<Rightarrow> f # candidates action)"

definition focused :: "routing_state \<Rightarrow> bool" where
  "focused action \<longleftrightarrow> - 1 \<le> st_position action
     \<and> (\<forall>f st. st_route action = Some f \<longrightarrow> prepared action f st = visible (st_parts action) f st)"

lemma next_pending:
  assumes "focused action"
  shows "focused (nextRouting action) \<and> pending_routes (nextRouting action) = candidates action \<and> st_parts (nextRouting action) = st_parts action"
proof (cases "candidates action")
  case Nil
  then have r: "st_route (nextRouting action) = None"
    using nextRouting_candidates [of action] assms by (simp add: focused_def)
  have "st_position (nextRouting action) \<ge> - 1 \<and> st_parts (nextRouting action) = st_parts action"
    using assms by (auto simp: nextRouting_def route_found_def focused_def split: option.split)
  then show ?thesis using r Nil by (simp add: pending_routes_def focused_def)
next
  case (Cons f fs)
  then obtain i where "nextRouting action = route_found f i action" "0 \<le> i" "candidates (nextRouting action) = fs"
    using nextRouting_candidates [of action] assms by (auto simp: focused_def)
  then show ?thesis using Cons
    by (auto simp: pending_routes_def focused_def route_found_def prepared_def visible_def split: prod.split)
qed

lemma execute_serve:
  "focused action \<Longrightarrow> list_all (\<lambda>f. calls_next_once (route_handler md f)) (pending_routes action) \<Longrightarrow> length (pending_routes action) < fuel \<Longrightarrow>
     \<exists>action'. execute fuel md routes action st = Some (action', serve md (st_parts action) (pending_routes action) st)"
proof (induction fuel arbitrary: action st)
  case (Suc fuel)
  show ?case
  proof (cases "st_route action")
    case None
    then show ?thesis by (simp add: pending_routes_def)
  next
    case (Some f)
    let ?h = "route_handler md f (cb_options (fr_callback f)) (visible (st_parts action) f st)"
    have pend: "pending_routes action = f # candidates action" using Some by (simp add: pending_routes_def)
    have "calls_next_once (route_handler md f)" using Suc.prems(2) pend by simp
    then have once: "case ?h of CallNext restart st' k \<Rightarrow> \<not> restart \<and> (\<forall>outcome. case k outcome of CallNext _ _ _ \<Rightarrow> False | _ \<Rightarrow> True) | _ \<Rightarrow> True"
      unfolding calls_next_once_def by blast
    have prep: "prepared action f st = visible (st_parts action) f st" using Suc.prems(1) Some unfolding focused_def by blast
    have nxt: "focused (nextRouting action)" "pending_routes (nextRouting action) = candidates action"
        "st_parts (nextRouting action) = st_parts action"
      using next_pending [OF Suc.prems(1)] by auto
    show ?thesis
    proof (cases ?h)
      case (CallNext restart st' k)
      obtain action' where "execute fuel md routes (nextRouting action) st'
          = Some (action', serve md (st_parts action) (candidates action) st')"
        using Suc.IH [OF nxt(1), of st'] Suc.prems(2,3) nxt(2,3) unfolding pend by auto
      then show ?thesis using Some prep CallNext once
        by (auto simp: pend split: handler_run.splits)
    qed (use Some prep in \<open>simp_all add: pend\<close>)
  qed
qed simp

text \<open>
  C37: A request runs the handlers of the matching routes in the order of the list, each inside the one before, and ends
  with the error 404 where no handler is left. It returns for every list, because the list gets shorter with
  every call of \<open>next\<close>.
\<close>

theorem request_served:
  assumes "rq_suffix (fst st) = Some parts" "map_of own (rq_type (fst st)) = Some flat"
    and "list_all (\<lambda>f. calls_next_once (route_handler md f)) flat" "length flat < fuel"
  shows "routeRequest fuel md routes own st
    = Some (serve md parts (filter (\<lambda>f. rx_test (fr_regexp f) (''/'' @ join ''/'' parts)) flat) st)"
proof -
  define start where "start = \<lparr>st_routing = flat, st_parts = parts, st_position = - 1, st_url = ''/'' @ join ''/'' parts,
    st_route = None, st_prefix = None, st_suffix = None, st_params = []\<rparr>"
  have r: "routing_of own (fst st) = Inr (nextRouting start)"
    using assms(1,2) by (simp add: routing_of_def firstRouting_def start_def)
  have "focused start" by (simp add: focused_def start_def)
  note nxt = next_pending [OF this]
  have c: "candidates start = filter (\<lambda>f. rx_test (fr_regexp f) (''/'' @ join ''/'' parts)) flat"
    by (simp add: candidates_def start_def)
  have "length (candidates start) < fuel" using assms(4) length_filter_le [of _ flat] unfolding c by (rule le_less_trans [rotated])
  moreover have "list_all (\<lambda>f. calls_next_once (route_handler md f)) (candidates start)"
    using assms(3) unfolding c by (auto simp: list_all_iff)
  ultimately obtain action' where "execute fuel md routes (nextRouting start) st = Some (action', serve md parts (candidates start) st)"
    using execute_serve [of "nextRouting start" md fuel routes st] nxt by (auto simp: start_def)
  then show ?thesis by (simp add: routeRequest_def r c)
qed

text \<open>
  C38: A route with the handler \<open>rewriteRequest\<close> whose destination is answered by this route, as first of the matching ones: the
  request never returns.
\<close>

theorem rewrite_to_itself_diverges:
  assumes "st_route (firstRouting m (UrlParts parts) (Some routes)) = Some f"
    and "cb_controller (fr_callback f) = Some rewriteRequest"
    and "js_get (cb_options (fr_callback f)) (KName ''destination'') = JStr destination"
    and "dropWhile (\<lambda>part. part = []) (split_char CHR ''/'' destination) = parts"
    and "rq_type (fst st) = m" "rq_suffix (fst st) = Some parts"
  shows "routeRequest fuel md routes routes st = None"
proof -
  let ?action = "firstRouting m (UrlParts parts) (Some routes)"
  have "execute fuel md routes ?action st = None" if "rq_type (fst st) = m" for st
    using that
  proof (induction fuel arbitrary: st)
    case (Suc fuel)
    obtain req res where st: "st = (req, res)" by (cases st)
    let ?req = "(fst (prepared ?action f st))\<lparr>rq_suffix := Some parts\<rparr>"
    have h: "route_handler md f (cb_options (fr_callback f)) (prepared ?action f st) = CallNext True (?req, res) return_outcome"
      using assms(2,3,4) by (simp add: route_handler_def rewriteRequest_def prepared_def st)
    have t: "rq_type ?req = m" using Suc.prems by (simp add: prepared_def st)
    have "routing_of routes ?req = Inr ?action"
      unfolding routing_of_def using t by (simp add: prepared_def st)
    then show ?case using assms(1) h Suc.IH [of "(?req, res)"] t by simp
  qed simp
  moreover have "routing_of routes (fst st) = Inr ?action" using assms(5,6) by (simp add: routing_of_def)
  ultimately show ?thesis using assms(5) by (simp add: routeRequest_def)
qed

subsection \<open>Examples\<close>

text \<open>A server without modules, and routes with a content or a handler under all methods.\<close>

definition no_modules :: modules where
  "no_modules = \<lparr>md_compile = (\<lambda>text. CompileFailed []), md_require = (\<lambda>name. ModuleNotFound []),
     md_describe = rt_name, md_describe_flat = (\<lambda>path r. rt_name r)\<rparr>"

definition content_route :: "string \<Rightarrow> (string \<times> string) list option \<Rightarrow> routes_item" where
  "content_route url constraint = SingleRoute \<lparr>rt_name = url, rt_url = UrlMatch url (Some [''get'']) constraint,
     rt_priority = None, rt_content = Some (ContentString url), rt_action = None\<rparr>"

definition get_request :: "string list \<Rightarrow> exchange" where
  "get_request parts = (\<lparr>rq_type = ''GET'', rq_url = ''/'' @ join ''/'' parts, rq_suffix = Some parts, rq_path = None,
      rq_prefix = None, rq_params = []\<rparr>,
    \<lparr>rs_code = 0, rs_type = [], rs_body = [], rs_headers = None\<rparr>)"

text \<open>The status and the body that a list of content routes answers.\<close>

definition answer_of :: "routes_item list \<Rightarrow> string list \<Rightarrow> (int \<times> string) option" where
  "answer_of items parts = (case flattenRoutingTree (buildRoutingTree no_modules items) of
      Inl e \<Rightarrow> None
    | Inr rl \<Rightarrow> (case routeRequest 5 no_modules rl rl (get_request parts) of
        Some (Inr (req, res)) \<Rightarrow> Some (rs_code res, rs_body res) | _ \<Rightarrow> None))"

text \<open>
  Two requests that the less specific route answers: an optional parameter comes before the exact URL that ends in
  front of it, and of two parameters in the same place the one that was defined first wins, whatever follows.
\<close>

theorem less_specific_first:
  "answer_of [content_route ''/hello'' None, content_route ''/hello/:name?'' None] [''hello''] = Some (200, ''/hello/:name?'')
   \<and> answer_of [content_route ''/:a/*'' None, content_route ''/:b/info'' None] [''x'', ''info''] = Some (200, ''/:a/*'')"
  by (intro conjI; code_simp)

text \<open>
  A bar is not escaped in a fixed part, and a constraint is not put in parentheses: the expression falls apart into
  alternatives, and requests are answered that share only their beginning with the URL.
\<close>

theorem alternatives_leak:
  "answer_of [content_route ''/a|b'' None] [''apple'', ''pie''] = Some (200, ''/a|b'')
   \<and> answer_of [content_route ''/user/:id'' (Some [(''id'', ''/[0-9]+|me/'')])] [''user'', ''5'', ''delete''] = Some (200, ''/user/:id'')"
  by (intro conjI; code_simp)

text \<open>A method that no route has is answered with 404, not with 501.\<close>

lemma wrong_method_not_found:
  "case flattenRoutingTree (buildRoutingTree no_modules [content_route ''/hello'' None]) of
     Inl e \<Rightarrow> False
   | Inr rl \<Rightarrow> (case routeRequest 5 no_modules rl rl (case get_request [''hello''] of (req, res) \<Rightarrow> (req\<lparr>rq_type := ''POST''\<rparr>, res)) of
        Some (Inr (req, res)) \<Rightarrow> rs_code res = 404 | _ \<Rightarrow> False)"
  by code_simp

text \<open>
  The handler for an action in a module that cannot be loaded is lost: the request is answered with 500 and a
  message about the definition of the route, not with the message of the module.
\<close>

lemma lost_module_error:
  assumes "md_require md (join ''/'' (butlast (split_char CHR ''/'' name))) = ModuleNotFound message"
    and "fr_callback f = lookupCallbackActionDo md r action name"
  shows "\<exists>body. route_handler md f = respond 500 ''text/plain''
    (''Invalid callback definition found for route '' @ md_describe_flat md (fr_path f) (fr_route f) @ body)"
  using assms by (auto simp: lookupCallbackActionDo_def requireModule_def action_result_def route_handler_def Let_def)

text \<open>Outside of a prefix route the suffix is deleted, and a handler that restarts without setting it raises a type error.\<close>

lemma restart_needs_suffix:
  assumes "st_route action = Some f" "cb_controller (fr_callback f) = Some (\<lambda>options st. CallNext True st return_outcome)"
    and "st_suffix action = None"
  shows "execute (Suc fuel) md routes action st = Some (action, Inl TypeError)"
proof (cases st)
  case (Pair req res)
  then show ?thesis using assms by (simp add: route_handler_def prepared_def routing_of_def return_outcome_def)
qed

theorem routing_finds_witness:
  "\<exists>rl flat. flattenRoutingTree (buildRoutingTree no_modules [content_route ''/hello/:name'' None, content_route ''/:a/*'' None]) = Inr rl
    \<and> map_of rl ''GET'' = Some flat
    \<and> (\<forall>r. (\<exists>f \<in> set flat. fr_route f = r \<and> rx_test (fr_regexp f) (request_url [''hello'', ''you''])) \<longleftrightarrow>
         answers no_modules (concat (map item_routes [content_route ''/hello/:name'' None, content_route ''/:a/*'' None])
           @ concat (map item_middleware [content_route ''/hello/:name'' None, content_route ''/:a/*'' None]))
           ''GET'' [''hello'', ''you''] r)"
  by (rule routing_finds) code_simp+

theorem routing_order_witness:
  "\<exists>rl middleware routes ms rs.
      flattenRoutingTree (buildRoutingTree no_modules [content_route ''/:a/*'' None, content_route ''/hello/:name'' None]) = Inr rl
    \<and> map_of rl ''GET'' = Some (middleware @ routes) \<and> length ms = length middleware \<and> length rs = length routes
    \<and> sorted_wrt (\<lambda>p q. precedes q p) ms \<and> sorted_wrt precedes rs
    \<and> (\<forall>ps. list_all request_part ps \<longrightarrow>
         map (\<lambda>f. rx_test (fr_regexp f) (request_url ps)) (middleware @ routes) = map (\<lambda>p. url_matches p ps) (ms @ rs))"
  by (rule routing_order) code_simp+

definition logged_route :: flat_route where
  "logged_route = \<lparr>fr_path = ''/*'', fr_regexp = RxEmpty, fr_prefix = False, fr_depth = 0, fr_params = [],
     fr_callback = \<lparr>cb_controller = Some logRequest, cb_options = empty_options, cb_methods = [''GET'']\<rparr>,
     fr_route = \<lparr>rt_name = ''log'', rt_url = UrlMissing, rt_priority = None, rt_content = None, rt_action = None\<rparr>\<rparr>"

lemma logged_route_once: "calls_next_once (route_handler no_modules logged_route)"
  by (auto simp: calls_next_once_def route_handler_def logged_route_def logRequest_def return_outcome_def split: sum.splits)

theorem request_served_witness:
  "routeRequest 3 no_modules [] [(''GET'', [logged_route, logged_route])] (get_request [''a''])
    = Some (serve no_modules [''a''] (filter (\<lambda>f. rx_test (fr_regexp f) (''/'' @ join ''/'' [''a''])) [logged_route, logged_route])
        (get_request [''a'']))"
  by (rule request_served) (simp_all add: get_request_def logged_route_once)

definition looping_route :: flat_route where
  "looping_route = logged_route\<lparr>fr_callback := \<lparr>cb_controller = Some rewriteRequest,
     cb_options = JObj [(''destination'', JStr ''/a'')], cb_methods = [''GET'']\<rparr>\<rparr>"

lemma test_empty: "rx_test RxEmpty s"
  by (simp add: rx_test_def del: upt_Suc) blast

theorem rewrite_to_itself_diverges_witness:
  "routeRequest 1000 no_modules [(''GET'', [looping_route])] [(''GET'', [looping_route])] (get_request [''a'']) = None"
proof (rule rewrite_to_itself_diverges [where m = "''GET''" and parts = "[''a'']" and f = looping_route and destination = "''/a''"])
  show "st_route (firstRouting ''GET'' (UrlParts [''a'']) (Some [(''GET'', [looping_route])])) = Some looping_route"
    by (simp add: firstRouting_def nextRouting_def route_found_def looping_route_def logged_route_def test_empty)
qed (simp_all add: looping_route_def logged_route_def get_request_def obj_get_def)

end
