(* ===== verification/JS_Action.thy ===== *)
theory JS_Action
  imports JS_Value
begin

text \<open>
  Statements that change a state and may throw. An action takes the state and gives the exception it
  throws or its value, with the state it leaves; the effects before an exception stay. The second
  part holds the rules for total correctness: from every state with \<open>P\<close>, the action either returns
  with \<open>Q\<close> or throws with \<open>X\<close>.
\<close>

named_theorems act_simps \<open>evaluation of actions\<close>

type_synonym ('s, 'a) statement = "'s \<Rightarrow> (js_exc + 'a) \<times> 's"

definition returns :: "'a \<Rightarrow> ('s, 'a) statement" where
  "returns a s = (Inr a, s)"

definition throws :: "js_exc \<Rightarrow> ('s, 'a) statement" where
  "throws e s = (Inl e, s)"

definition and_then :: "('s, 'a) statement \<Rightarrow> ('a \<Rightarrow> ('s, 'b) statement) \<Rightarrow> ('s, 'b) statement" where
  "and_then m f s = (case m s of (Inl e, t) \<Rightarrow> (Inl e, t) | (Inr a, t) \<Rightarrow> f a t)"

definition try_catch :: "('s, 'a) statement \<Rightarrow> (js_exc \<Rightarrow> ('s, 'a) statement) \<Rightarrow> ('s, 'a) statement" where
  "try_catch m h s = (case m s of (Inl e, t) \<Rightarrow> h e t | (Inr a, t) \<Rightarrow> (Inr a, t))"

definition reads :: "('s \<Rightarrow> 'a) \<Rightarrow> ('s, 'a) statement" where
  "reads f s = (Inr (f s), s)"

text \<open>A loop over a list, whose body updates the local variables in \<open>acc\<close>.\<close>

fun for_each :: "('x \<Rightarrow> 'b \<Rightarrow> ('s, 'b) statement) \<Rightarrow> 'x list \<Rightarrow> 'b \<Rightarrow> ('s, 'b) statement" where
  "for_each f [] acc = returns acc"
| "for_each f (x # xs) acc = and_then (f x acc) (for_each f xs)"

lemma act_eval [act_simps]:
  "returns a s = (Inr a, s)" "throws e s = (Inl e, s)" "reads f s = (Inr (f s), s)"
  "and_then m g s = (case m s of (Inl e, t) \<Rightarrow> (Inl e, t) | (Inr a, t) \<Rightarrow> g a t)"
  "try_catch m h s = (case m s of (Inl e, t) \<Rightarrow> h e t | (Inr a, t) \<Rightarrow> (Inr a, t))"
  by (simp_all add: returns_def throws_def reads_def and_then_def try_catch_def)

subsection \<open>Rules\<close>

definition triple :: "('s \<Rightarrow> bool) \<Rightarrow> ('s, 'a) statement \<Rightarrow> ('a \<Rightarrow> 's \<Rightarrow> bool) \<Rightarrow> (js_exc \<Rightarrow> 's \<Rightarrow> bool) \<Rightarrow> bool" where
  "triple P m Q X \<longleftrightarrow> (\<forall>s. P s \<longrightarrow> (case m s of (Inr a, t) \<Rightarrow> Q a t | (Inl e, t) \<Rightarrow> X e t))"

lemma triple_returns [intro]: "(\<And>s. P s \<Longrightarrow> Q a s) \<Longrightarrow> triple P (returns a) Q X"
  by (simp add: triple_def returns_def)

lemma triple_throws [intro]: "(\<And>s. P s \<Longrightarrow> X e s) \<Longrightarrow> triple P (throws e) Q X"
  by (simp add: triple_def throws_def)

lemma triple_reads [intro]: "(\<And>s. P s \<Longrightarrow> Q (f s) s) \<Longrightarrow> triple P (reads f) Q X"
  by (simp add: triple_def reads_def)

lemma triple_impossible [simp, intro]: "triple (\<lambda>_. False) m Q X"
  by (simp add: triple_def)

lemma triple_chain:
  "triple P m R X \<Longrightarrow> (\<And>a. triple (R a) (f a) Q X) \<Longrightarrow> triple P (and_then m f) Q X"
  unfolding triple_def and_then_def by (fastforce split: prod.splits sum.splits)

lemma triple_try:
  "triple P m Q R \<Longrightarrow> (\<And>e. triple (R e) (h e) Q X) \<Longrightarrow> triple P (try_catch m h) Q X"
  unfolding triple_def try_catch_def by (fastforce split: prod.splits sum.splits)

text \<open>A value read from the state that the precondition fixes.\<close>

lemma triple_read_known:
  "(\<And>s. P s \<Longrightarrow> g s = a) \<Longrightarrow> (\<And>x. x = a \<Longrightarrow> triple P (f x) Q X) \<Longrightarrow> triple P (and_then (reads g) f) Q X"
  by (auto simp: triple_def and_then_def reads_def)

lemma triple_if: "(c \<Longrightarrow> triple P m Q X) \<Longrightarrow> (\<not> c \<Longrightarrow> triple P n Q X) \<Longrightarrow> triple P (if c then m else n) Q X"
  by simp

lemma triple_weaken:
  "triple P' m Q' X' \<Longrightarrow> (\<And>s. P s \<Longrightarrow> P' s) \<Longrightarrow> (\<And>a s. Q' a s \<Longrightarrow> Q a s) \<Longrightarrow> (\<And>e s. X' e s \<Longrightarrow> X e s)
     \<Longrightarrow> triple P m Q X"
  unfolding triple_def by (fastforce split: prod.splits sum.splits)

lemma triple_assume: "(\<And>s. P s \<Longrightarrow> A) \<Longrightarrow> (A \<Longrightarrow> triple P m Q X) \<Longrightarrow> triple P m Q X"
  unfolding triple_def by (cases A) auto

lemma triple_given: "(A \<Longrightarrow> triple P m Q X) \<Longrightarrow> triple (\<lambda>s. P s \<and> A) m Q X"
  unfolding triple_def by simp

lemma triple_at: "(\<And>s0. P s0 \<Longrightarrow> triple (\<lambda>s. s = s0) m Q X) \<Longrightarrow> triple P m Q X"
  unfolding triple_def by simp

lemma triple_conj:
  "triple P m Q X \<Longrightarrow> triple P m R Y \<Longrightarrow> triple P m (\<lambda>a s. Q a s \<and> R a s) (\<lambda>e s. X e s \<and> Y e s)"
  unfolding triple_def by (fastforce split: prod.splits sum.splits)

text \<open>The invariant of a loop may speak of the elements already visited.\<close>

lemma triple_for_each_visited:
  assumes "\<And>ys x zs acc. xs = ys @ x # zs \<Longrightarrow> triple (I ys acc) (f x acc) (\<lambda>b. I (ys @ [x]) b) X"
  shows "triple (I [] acc) (for_each f xs acc) (\<lambda>b. I xs b) X"
proof -
  have "triple (I ys acc) (for_each f zs acc) (\<lambda>b. I xs b) X" if "xs = ys @ zs" for ys zs acc
    using that
  proof (induction zs arbitrary: ys acc)
    case (Cons x zs)
    show ?case unfolding for_each.simps
      by (rule triple_chain [OF assms [OF Cons.prems]]) (rule Cons.IH, simp add: Cons.prems)
  qed auto
  from this [of "[]" xs acc] show ?thesis by simp
qed

lemma triple_for_each:
  assumes "\<And>x acc. x \<in> set xs \<Longrightarrow> triple (I acc) (f x acc) I X"
  shows "triple (I acc) (for_each f xs acc) I X"
  by (rule triple_for_each_visited [where I = "\<lambda>_. I"]) (auto intro: assms)

lemma tripleD:
  assumes "triple P m Q X" "P s"
  shows "m s = (Inr a, t) \<Longrightarrow> Q a t" "m s = (Inl e, t) \<Longrightarrow> X e t"
  using assms by (auto simp: triple_def split: prod.splits sum.splits)

lemma triple_no_throw:
  assumes "triple P m Q (\<lambda>_ _. False)" "P s"
  obtains a t where "m s = (Inr a, t)" "Q a t"
proof (cases "m s")
  case (Pair r t)
  with assms that show thesis by (cases r) (auto simp: triple_def)
qed

end
