(* ===== verification/Cluster_Node.thy ===== *)
theory Cluster_Node
  imports JS_Action JS_String
begin

text \<open>
  What the cluster module of a database server calls: the native functions of \<open>db\<close>, of the
  collections and of \<open>ArangoAgency\<close>. The node is their state: the local databases with their
  collections, the database in use, the part of the agency below \<open>Plan\<close> and \<open>Current\<close>, the write lock
  on \<open>Current\<close>, and the history of the calls made so far. Any call may fail: \<open>faults\<close> of the
  environment names the exception, and may depend on the history. A call that is refused or fails
  leaves the node as it is. What a native function computes from its arguments (the collection
  created from a payload, the properties after a change, the indexes after one is added or removed)
  is the environment's too.
\<close>

record local_collection =
  lc_name :: string
  lc_id :: jsval
  lc_type :: jsval
  lc_status :: jsval
  lc_planId :: jsval
  lc_properties :: jsobj
  lc_indexes :: "jsobj list"

datatype native_call =
    UseDatabase string
  | ListDatabases
  | CreateDatabase string
  | DropDatabase string
  | Collections
  | CreateCollection string string
  | DropCollection string string
  | LoadCollection string string
  | UnloadCollection string string
  | ChangeProperties string string jsobj
  | GetIndexes string string
  | EnsureIndex string string jsobj
  | DropIndex string string jsobj
  | AgencyGet string
  | AgencySet string jsobj
  | AgencyRemove string
  | LockWrite string int int
  | UnlockWrite string int
  | IncreaseVersion string

type_synonym history = "(native_call \<times> bool) list"

type_synonym databases = "(string \<times> local_collection list) list"

record node =
  n_self :: string
  n_initialised :: bool
  n_coordinator :: bool
  n_databases :: databases
  n_using :: string
  n_agency :: "(string \<times> jsobj) list"
  n_locked :: bool
  n_version :: nat
  n_history :: history

record environment =
  faults :: "history \<Rightarrow> native_call \<Rightarrow> js_exc option"
  instrumented :: bool
  system_collections :: "local_collection list"
  created :: "bool \<Rightarrow> string \<Rightarrow> jsobj \<Rightarrow> local_collection"
  status_loaded :: jsval
  status_unloaded :: jsval
  changed_properties :: "jsobj \<Rightarrow> jsobj \<Rightarrow> jsobj"
  with_index :: "jsobj \<Rightarrow> jsobj list \<Rightarrow> jsobj list"
  without_index :: "jsobj \<Rightarrow> jsobj list \<Rightarrow> jsobj list"

text \<open>One native call: it fails, it is refused in the present state, or it has its result and effect.\<close>

definition native :: "environment \<Rightarrow> native_call \<Rightarrow> (node \<Rightarrow> js_exc option) \<Rightarrow> (node \<Rightarrow> 'a) \<Rightarrow> (node \<Rightarrow> node) \<Rightarrow> (node, 'a) statement" where
  "native E c refuse result effect s =
     (case (case faults E (n_history s) c of Some e \<Rightarrow> Some e | None \<Rightarrow> refuse s) of
        Some e \<Rightarrow> (Inl e, s\<lparr>n_history := n_history s @ [(c, False)]\<rparr>)
      | None \<Rightarrow> (Inr (result s), (effect s)\<lparr>n_history := n_history s @ [(c, True)]\<rparr>))"

subsection \<open>Databases\<close>

definition collections_in :: "databases \<Rightarrow> string \<Rightarrow> local_collection list" where
  "collections_in D d = (case map_of D d of None \<Rightarrow> [] | Some cs \<Rightarrow> cs)"

definition change_collections :: "string \<Rightarrow> (local_collection list \<Rightarrow> local_collection list) \<Rightarrow> databases \<Rightarrow> databases" where
  "change_collections d f D = map (\<lambda>(x, cs). (x, if x = d then f cs else cs)) D"

definition names :: "databases \<Rightarrow> string set" where
  "names D = fst ` set D"

definition shards_in :: "databases \<Rightarrow> string \<Rightarrow> string set" where
  "shards_in D d = lc_name ` set (collections_in D d)"

abbreviation using_collections :: "node \<Rightarrow> local_collection list" where
  "using_collections s \<equiv> collections_in (n_databases s) (n_using s)"

abbreviation change_using :: "(local_collection list \<Rightarrow> local_collection list) \<Rightarrow> node \<Rightarrow> node" where
  "change_using f s \<equiv> s\<lparr>n_databases := change_collections (n_using s) f (n_databases s)\<rparr>"

definition refused :: "bool \<Rightarrow> int \<Rightarrow> string \<Rightarrow> js_exc option" where
  "refused b n msg = (if b then Some (ArangoError n msg) else None)"

definition useDatabase :: "environment \<Rightarrow> string \<Rightarrow> (node, unit) statement" where
  "useDatabase E d = native E (UseDatabase d) (\<lambda>s. refused (d \<notin> names (n_databases s)) 1228 ''database not found'')
     (\<lambda>_. ()) (n_using_update (\<lambda>_. d))"

definition listDatabases :: "environment \<Rightarrow> (node, string list) statement" where
  "listDatabases E = native E ListDatabases (\<lambda>_. None) (\<lambda>s. map fst (n_databases s)) (\<lambda>s. s)"

definition createDatabase :: "environment \<Rightarrow> string \<Rightarrow> (node, unit) statement" where
  "createDatabase E d = native E (CreateDatabase d) (\<lambda>s. refused (d \<in> names (n_databases s)) 1207 ''duplicate name'')
     (\<lambda>_. ()) (\<lambda>s. s\<lparr>n_databases := n_databases s @ [(d, system_collections E)]\<rparr>)"

definition dropDatabase :: "environment \<Rightarrow> string \<Rightarrow> (node, unit) statement" where
  "dropDatabase E d = native E (DropDatabase d) (\<lambda>s. refused (d \<notin> names (n_databases s)) 1228 ''database not found'')
     (\<lambda>_. ()) (\<lambda>s. s\<lparr>n_databases := filter (\<lambda>(x, _). x \<noteq> d) (n_databases s)\<rparr>)"

subsection \<open>Collections of the database in use\<close>

definition db_collections :: "environment \<Rightarrow> (node, local_collection list) statement" where
  "db_collections E = native E Collections (\<lambda>_. None) (\<lambda>s. using_collections s) (\<lambda>s. s)"

definition db_create :: "environment \<Rightarrow> bool \<Rightarrow> string \<Rightarrow> jsobj \<Rightarrow> (node, unit) statement" where
  "db_create E edge c payload s = native E (CreateCollection (n_using s) c)
     (\<lambda>s. refused (c \<in> shards_in (n_databases s) (n_using s)) 1207 ''duplicate name'')
     (\<lambda>_. ()) (change_using (\<lambda>cs. cs @ [(created E edge c payload)\<lparr>lc_name := c\<rparr>])) s"

definition db_drop :: "environment \<Rightarrow> string \<Rightarrow> (node, unit) statement" where
  "db_drop E c s = native E (DropCollection (n_using s) c)
     (\<lambda>s. refused (c \<notin> shards_in (n_databases s) (n_using s)) 1203 ''collection not found'')
     (\<lambda>_. ()) (change_using (filter (\<lambda>x. lc_name x \<noteq> c))) s"

text \<open>
  \<open>db._collection(c)\<close> is \<open>null\<close> when there is no such collection, and the call of its method raises a
  \<open>TypeError\<close>.
\<close>

definition on_collection :: "environment \<Rightarrow> (string \<Rightarrow> native_call) \<Rightarrow> string \<Rightarrow> (local_collection \<Rightarrow> 'a) \<Rightarrow> (local_collection \<Rightarrow> local_collection) \<Rightarrow> (node, 'a) statement" where
  "on_collection E call c result effect s =
     (case find (\<lambda>x. lc_name x = c) (using_collections s) of
        None \<Rightarrow> throws TypeError s
      | Some x \<Rightarrow> native E (call (n_using s)) (\<lambda>_. None) (\<lambda>_. result x)
          (change_using (map (\<lambda>y. if lc_name y = c then (effect y)\<lparr>lc_name := c\<rparr> else y))) s)"

definition load :: "environment \<Rightarrow> string \<Rightarrow> (node, unit) statement" where
  "load E c = on_collection E (\<lambda>d. LoadCollection d c) c (\<lambda>_. ()) (lc_status_update (\<lambda>_. status_loaded E))"

definition unload :: "environment \<Rightarrow> string \<Rightarrow> (node, unit) statement" where
  "unload E c = on_collection E (\<lambda>d. UnloadCollection d c) c (\<lambda>_. ()) (lc_status_update (\<lambda>_. status_unloaded E))"

definition change_properties :: "environment \<Rightarrow> string \<Rightarrow> jsobj \<Rightarrow> (node, unit) statement" where
  "change_properties E c props = on_collection E (\<lambda>d. ChangeProperties d c props) c (\<lambda>_. ())
     (lc_properties_update (changed_properties E props))"

definition getIndexes :: "environment \<Rightarrow> string \<Rightarrow> (node, jsobj list) statement" where
  "getIndexes E c = on_collection E (\<lambda>d. GetIndexes d c) c lc_indexes (\<lambda>x. x)"

definition ensureIndex :: "environment \<Rightarrow> string \<Rightarrow> jsobj \<Rightarrow> (node, unit) statement" where
  "ensureIndex E c index = on_collection E (\<lambda>d. EnsureIndex d c index) c (\<lambda>_. ()) (lc_indexes_update (with_index E index))"

definition dropIndex :: "environment \<Rightarrow> string \<Rightarrow> jsobj \<Rightarrow> (node, unit) statement" where
  "dropIndex E c index = on_collection E (\<lambda>d. DropIndex d c index) c (\<lambda>_. ()) (lc_indexes_update (without_index E index))"

subsection \<open>The agency\<close>

text \<open>
  \<open>get(key, true)\<close> gives the entries below the directory \<open>key\<close>, in the order of their keys. The
  numbers and strings the agency holds there too (\<open>Lock\<close>, \<open>Version\<close>) are not listed: no prefix that
  the code looks for matches them.
\<close>

definition below :: "string \<Rightarrow> node \<Rightarrow> (string \<times> jsobj) list" where
  "below key s = sort_key fst (filter (\<lambda>(k, _). take (length key + 1) k = key @ ''/'') (n_agency s))"

definition agencyGet :: "environment \<Rightarrow> string \<Rightarrow> (node, (string \<times> jsobj) list) statement" where
  "agencyGet E key = native E (AgencyGet key) (\<lambda>_. None) (below key) (\<lambda>s. s)"

definition agencySet :: "environment \<Rightarrow> string \<Rightarrow> jsobj \<Rightarrow> (node, unit) statement" where
  "agencySet E key payload = native E (AgencySet key payload) (\<lambda>_. None) (\<lambda>_. ())
     (n_agency_update (AList.update key payload))"

definition agencyRemove :: "environment \<Rightarrow> string \<Rightarrow> (node, unit) statement" where
  "agencyRemove E key = native E (AgencyRemove key)
     (\<lambda>s. refused (key \<notin> fst ` set (n_agency s)) 100 ''Key not found'') (\<lambda>_. ()) (n_agency_update (AList.delete key))"

definition lockWrite :: "environment \<Rightarrow> string \<Rightarrow> int \<Rightarrow> int \<Rightarrow> (node, unit) statement" where
  "lockWrite E part ttl timeout = native E (LockWrite part ttl timeout)
     (\<lambda>s. refused (n_locked s) 4 ''unable to acquire lock'') (\<lambda>_. ()) (n_locked_update (\<lambda>_. True))"

definition unlockWrite :: "environment \<Rightarrow> string \<Rightarrow> int \<Rightarrow> (node, unit) statement" where
  "unlockWrite E part timeout = native E (UnlockWrite part timeout)
     (\<lambda>s. refused (\<not> n_locked s) 4 ''unable to release lock'') (\<lambda>_. ()) (n_locked_update (\<lambda>_. False))"

definition increaseVersion :: "environment \<Rightarrow> string \<Rightarrow> (node, unit) statement" where
  "increaseVersion E key = native E (IncreaseVersion key) (\<lambda>_. None) (\<lambda>_. ()) (n_version_update Suc)"

end
