(* ===== verification/Cluster_Plan.thy ===== *)
theory Cluster_Plan
  imports Cluster_Node
begin

text \<open>
  The cluster module as a database server runs it: the changes that bring the local databases, shards
  and indexes in line with the plan and report them under \<open>Current\<close>. A planned collection (the
  payload) is the object the agency holds; the code changes it while it goes through the shards, so
  that it is a local variable of the loops here. \<open>shards\<close> is an object of server names and \<open>indexes\<close>,
  when present, an array of objects, as the coordinator writes them.
\<close>

subsection \<open>Keys with a prefix\<close>

definition getByPrefix :: "(string \<times> 'v) list \<Rightarrow> string \<Rightarrow> (string \<times> 'v) list" where
  "getByPrefix values pfx = fold (\<lambda>(a, v) result.
     if take (length pfx) a = pfx then AList.update (drop (length pfx) a) v result else result)
     (enumerated values) []"

definition put2 :: "string \<Rightarrow> string \<Rightarrow> 'v \<Rightarrow> (string \<times> (string \<times> 'v) list) list \<Rightarrow> (string \<times> (string \<times> 'v) list) list" where
  "put2 p q v result = AList.update p (AList.update q v (case map_of result p of None \<Rightarrow> [] | Some r \<Rightarrow> r)) result"

definition getByPrefix3d :: "(string \<times> 'v) list \<Rightarrow> string \<Rightarrow> (string \<times> (string \<times> 'v) list) list" where
  "getByPrefix3d values pfx = fold (\<lambda>(a, v) result.
     if take (length pfx) a = pfx
     then let parts = split_char (CHR ''/'') (drop (length pfx) a) in
       if length parts \<ge> 2 then put2 (parts ! 0) (parts ! 1) v result else result
     else result) (enumerated values) []"

definition getByPrefix4d :: "(string \<times> 'v) list \<Rightarrow> string \<Rightarrow> (string \<times> (string \<times> (string \<times> 'v) list) list) list" where
  "getByPrefix4d values pfx = fold (\<lambda>(a, v) result.
     if take (length pfx) a = pfx
     then let parts = split_char (CHR ''/'') (drop (length pfx) a) in
       if length parts \<ge> 3
       then AList.update (parts ! 0) (put2 (parts ! 1) (parts ! 2) v
              (case map_of result (parts ! 0) of None \<Rightarrow> [] | Some r \<Rightarrow> r)) result
       else result
     else result) (enumerated values) []"

definition shards_of :: "jsobj \<Rightarrow> jsobj" where
  "shards_of payload = (case obj_get payload ''shards'' of JObj ob \<Rightarrow> enumerated ob | _ \<Rightarrow> [])"

type_synonym planned_collections = "(string \<times> (string \<times> jsobj) list) list"

definition getShardMap :: "planned_collections \<Rightarrow> jsobj" where
  "getShardMap plannedCollections = fold (\<lambda>(_, collections). fold (\<lambda>(_, payload). fold (\<lambda>(shard, server).
     AList.update shard server) (shards_of payload)) (enumerated collections)) (enumerated plannedCollections) []"

definition has :: "(string \<times> 'v) list \<Rightarrow> string \<Rightarrow> bool" where
  "has ob k \<longleftrightarrow> map_of ob k \<noteq> None"

text \<open>\<open>id.replace(/^[a-zA-Z0-9_\-]*?\/([0-9]+)$/, '$1')\<close>.\<close>

definition index_id :: "string \<Rightarrow> string" where
  "index_id s = (case split_char (CHR ''/'') s of
      [a, b] \<Rightarrow> if list_all (\<lambda>c. is_word c \<or> c = CHR ''-'') a \<and> b \<noteq> [] \<and> list_all is_digit b then b else s
    | _ \<Rightarrow> s)"

definition getIndexMap :: "environment \<Rightarrow> string \<Rightarrow> (node, (string \<times> jsobj) list) statement" where
  "getIndexMap E shard = and_then (getIndexes E shard) (\<lambda>idx. returns (fold (\<lambda>index indexes.
     let id = index_id (js_string (obj_get index ''id'')) in
     AList.update id (obj_put ''id'' (JStr id) index) indexes) idx []))"

definition writeLocked :: "environment \<Rightarrow> string \<Rightarrow> int option \<Rightarrow> int option \<Rightarrow> (node, unit) statement \<Rightarrow> (node, unit) statement" where
  "writeLocked E part timeout0 ttl0 cb =
     (let timeout1 = (case timeout0 of None \<Rightarrow> 5 | Some t \<Rightarrow> t);
          ttl1 = (case ttl0 of None \<Rightarrow> 10 | Some t \<Rightarrow> t);
          ttl = (if instrumented E then ttl1 * 10 else ttl1);
          timeout = (if instrumented E then timeout1 * 10 else timeout1)
      in and_then (lockWrite E part ttl timeout) (\<lambda>_.
         try_catch
           (and_then cb (\<lambda>_. and_then (increaseVersion E (part @ ''/Version'')) (\<lambda>_. unlockWrite E part timeout)))
           (\<lambda>err. and_then (unlockWrite E part timeout) (\<lambda>_. throws err))))"

definition databases_map :: "string list \<Rightarrow> (string \<times> jsobj) list" where
  "databases_map xs = fold (\<lambda>database. AList.update database [(''name'', JStr database)]) xs []"

definition getLocalDatabases :: "environment \<Rightarrow> (node, (string \<times> jsobj) list) statement" where
  "getLocalDatabases E = and_then (listDatabases E) (\<lambda>xs. returns (databases_map xs))"

text \<open>The data of a collection; its properties come last and replace what has the same name.\<close>

definition collection_data :: "local_collection \<Rightarrow> jsobj" where
  "collection_data c = fold (\<lambda>(p, v). obj_put p v) (enumerated (lc_properties c))
     [(''id'', lc_id c), (''name'', JStr (lc_name c)), (''type'', lc_type c), (''status'', lc_status c),
      (''planId'', lc_planId c)]"

definition collections_map :: "local_collection list \<Rightarrow> (string \<times> jsobj) list" where
  "collections_map cs = fold (\<lambda>c result.
     if take 1 (lc_name c) \<noteq> ''_'' then AList.update (lc_name c) (collection_data c) result else result) cs []"

definition getLocalCollections :: "environment \<Rightarrow> (node, (string \<times> jsobj) list) statement" where
  "getLocalCollections E = and_then (db_collections E) (\<lambda>cs. returns (collections_map cs))"

subsection \<open>Databases\<close>

definition exc_number :: "js_exc \<Rightarrow> jsval" where
  "exc_number err = (case err of ArangoError n _ \<Rightarrow> JNum (Fin (of_int n)) | _ \<Rightarrow> JUndef)"

definition exc_message :: "js_exc \<Rightarrow> jsval" where
  "exc_message err = (case err of ArangoError _ msg \<Rightarrow> JStr msg | _ \<Rightarrow> JUndef)"

definition no_error :: "jsobj \<Rightarrow> jsobj" where
  "no_error payload = obj_put ''errorMessage'' (JStr ''no error'')
     (obj_put ''errorNum'' (JNum (Fin 0)) (obj_put ''error'' (JBool False) payload))"

definition with_error :: "js_exc \<Rightarrow> jsobj \<Rightarrow> jsobj" where
  "with_error err payload = obj_put ''errorMessage'' (exc_message err)
     (obj_put ''errorNum'' (exc_number err) (obj_put ''error'' (JBool True) payload))"

definition createLocalDatabases :: "environment \<Rightarrow> (string \<times> jsobj) list \<Rightarrow> (node, unit) statement" where
  "createLocalDatabases E plannedDatabases = and_then (reads n_self) (\<lambda>ourselves.
     and_then (useDatabase E ''_system'') (\<lambda>_. and_then (getLocalDatabases E) (\<lambda>localDatabases.
     for_each (\<lambda>(name, payload) _.
       and_then (if \<not> has localDatabases name
              then try_catch
                (and_then (createDatabase E (js_string (obj_get payload ''name''))) (\<lambda>_. returns (no_error payload)))
                (\<lambda>err. returns (with_error err (no_error payload)))
              else returns (no_error payload)) (\<lambda>payload.
       writeLocked E ''Current'' None None
         (agencySet E (''Current/Databases/'' @ js_string (obj_get payload ''name'') @ ''/'' @ ourselves) payload)))
     (enumerated plannedDatabases) ())))"

definition dropDatabaseAgency :: "environment \<Rightarrow> string \<Rightarrow> string \<Rightarrow> (node, unit) statement" where
  "dropDatabaseAgency E ourselves name =
     try_catch (agencyRemove E (''Current/Databases/'' @ name @ ''/'' @ ourselves)) (\<lambda>_. returns ())"

definition dropLocalDatabases :: "environment \<Rightarrow> (string \<times> jsobj) list \<Rightarrow> (node, unit) statement" where
  "dropLocalDatabases E plannedDatabases = and_then (reads n_self) (\<lambda>ourselves.
     and_then (useDatabase E ''_system'') (\<lambda>_. and_then (getLocalDatabases E) (\<lambda>localDatabases.
     for_each (\<lambda>(name, _) _.
       if \<not> has plannedDatabases name \<and> take 1 name \<noteq> ''_''
       then and_then (dropDatabase E name) (\<lambda>_.
         writeLocked E ''Current'' None None (dropDatabaseAgency E ourselves name))
       else returns ())
     (enumerated localDatabases) ())))"

definition cleanupCurrentDatabases :: "environment \<Rightarrow> (node, unit) statement" where
  "cleanupCurrentDatabases E = and_then (reads n_self) (\<lambda>ourselves.
     and_then (useDatabase E ''_system'') (\<lambda>_. and_then (agencyGet E ''Current/Databases'') (\<lambda>all.
     let currentDatabases = getByPrefix3d all ''Current/Databases/'' in
     and_then (getLocalDatabases E) (\<lambda>localDatabases.
     for_each (\<lambda>(name, servers) _.
       if take 1 name \<noteq> ''_'' \<and> \<not> has localDatabases name \<and> has servers ourselves
       then writeLocked E ''Current'' None None (dropDatabaseAgency E ourselves name)
       else returns ())
     (enumerated currentDatabases) ()))))"

definition handleDatabaseChanges :: "environment \<Rightarrow> (string \<times> jsobj) list \<Rightarrow> (node, unit) statement" where
  "handleDatabaseChanges E plan = (let plannedDatabases = getByPrefix plan ''Plan/Databases/'' in
     and_then (createLocalDatabases E plannedDatabases) (\<lambda>_.
     and_then (dropLocalDatabases E plannedDatabases) (\<lambda>_. cleanupCurrentDatabases E)))"

subsection \<open>Collections\<close>

definition report_collection :: "environment \<Rightarrow> string \<Rightarrow> string \<Rightarrow> jsobj \<Rightarrow> (node, unit) statement" where
  "report_collection E database shard payload = writeLocked E ''Current'' None None
     (agencySet E (''Current/Collections/'' @ database @ ''/'' @ js_string (obj_get payload ''planId'') @ ''/'' @ shard)
        payload)"

text \<open>A shard we are responsible for and do not have: create it and report the outcome.\<close>

definition create_shard :: "environment \<Rightarrow> string \<Rightarrow> string \<Rightarrow> string \<Rightarrow> jsobj \<Rightarrow> (node, jsobj) statement" where
  "create_shard E ourselves database shard payload =
     and_then (try_catch
       (and_then (db_create E (js_eq (obj_get payload ''type'') (JNum (Fin 3))) shard payload) (\<lambda>_. returns (no_error payload)))
       (\<lambda>err2. returns (with_error err2 payload))) (\<lambda>payload.
     let payload = obj_put ''DBServer'' (JStr ourselves) payload in
     and_then (report_collection E database shard payload) (\<lambda>_. returns payload))"

text \<open>A shard we have: first its status, then its properties.\<close>

definition update_status :: "environment \<Rightarrow> string \<Rightarrow> string \<Rightarrow> string \<Rightarrow> jsobj \<Rightarrow> jsobj \<Rightarrow> (node, jsobj) statement" where
  "update_status E ourselves database shard localCollection payload =
     (if \<not> js_eq (obj_get localCollection ''status'') (obj_get payload ''status'')
      then and_then (if js_eq (obj_get payload ''status'') (JNum (Fin 2)) then unload E shard
                  else if js_eq (obj_get payload ''status'') (JNum (Fin 3)) then load E shard
                  else returns ()) (\<lambda>_.
        let payload = obj_put ''DBServer'' (JStr ourselves) (no_error payload) in
        and_then (report_collection E database shard payload) (\<lambda>_. returns payload))
      else returns payload)"

definition changed_from_plan :: "jsobj \<Rightarrow> jsobj \<Rightarrow> jsobj" where
  "changed_from_plan localCollection payload = fold (\<lambda>p properties.
     if \<not> js_eq (obj_get localCollection p) (obj_get payload p) then obj_put p (obj_get payload p) properties
     else properties) [''journalSize'', ''waitForSync'', ''doCompact''] []"

definition update_properties :: "environment \<Rightarrow> string \<Rightarrow> string \<Rightarrow> string \<Rightarrow> jsobj \<Rightarrow> jsobj \<Rightarrow> (node, jsobj) statement" where
  "update_properties E ourselves database shard localCollection payload =
     (let properties = changed_from_plan localCollection payload in
      if properties \<noteq> []
      then and_then (try_catch
          (and_then (change_properties E shard properties) (\<lambda>_. returns (no_error payload)))
          (\<lambda>err3. returns (with_error err3 payload))) (\<lambda>payload.
        let payload = obj_put ''DBServer'' (JStr ourselves) payload in
        and_then (report_collection E database shard payload) (\<lambda>_. returns payload))
      else returns payload)"

text \<open>
  The indexes. The map of the local indexes takes in the planned index object itself, not a copy, so
  that its \<open>error\<close> properties appear in the payload as well.
\<close>

definition planned_indexes :: "jsobj \<Rightarrow> jsobj list" where
  "planned_indexes payload = (case obj_get payload ''indexes'' of
     JArr xs \<Rightarrow> map (\<lambda>x. case x of JObj ob \<Rightarrow> ob | _ \<Rightarrow> []) xs | _ \<Rightarrow> [])"

definition set_indexes :: "jsobj list \<Rightarrow> jsobj \<Rightarrow> jsobj" where
  "set_indexes xs payload = obj_put ''indexes'' (JArr (map JObj xs)) payload"

definition built_in :: "jsobj \<Rightarrow> bool" where
  "built_in index \<longleftrightarrow> obj_get index ''type'' = JStr ''primary'' \<or> obj_get index ''type'' = JStr ''edge''"

definition create_indexes :: "environment \<Rightarrow> string \<Rightarrow> string \<Rightarrow> string \<Rightarrow> (string \<times> jsobj) list \<Rightarrow> jsobj
    \<Rightarrow> (node, (string \<times> jsobj) list \<times> jsobj) statement" where
  "create_indexes E ourselves database shard indexes payload = for_each (\<lambda>i (indexes, payload).
     let index = planned_indexes payload ! i; id = js_string (obj_get index ''id'') in
     if \<not> built_in index \<and> \<not> has indexes id
     then and_then (try_catch
         (and_then (ensureIndex E shard index) (\<lambda>_. returns (obj_put ''errorMessage'' (JStr [])
            (obj_put ''errorNum'' (JNum (Fin 0)) (obj_put ''error'' (JBool False) index)))))
         (\<lambda>err5. returns (with_error err5 index))) (\<lambda>index.
       let payload = obj_put ''DBServer'' (JStr ourselves)
             (set_indexes ((planned_indexes payload)[i := index]) payload) in
       and_then (report_collection E database shard payload) (\<lambda>_.
       returns (AList.update id index indexes, payload)))
     else returns (indexes, payload)) [0..<length (planned_indexes payload)] (indexes, payload)"

text \<open>\<open>xs.splice(start, n)\<close> with natural numbers.\<close>

definition splice_out :: "nat \<Rightarrow> nat \<Rightarrow> 'a list \<Rightarrow> 'a list" where
  "splice_out start n xs = take start xs @ drop (min start (length xs) + min n (length xs - start)) xs"

definition drop_indexes :: "environment \<Rightarrow> string \<Rightarrow> string \<Rightarrow> string \<Rightarrow> (string \<times> jsobj) list \<Rightarrow> jsobj
    \<Rightarrow> (node, jsobj) statement" where
  "drop_indexes E ourselves database shard indexes payload = for_each (\<lambda>(idx, index) payload.
     if \<not> built_in index \<and> \<not> list_ex (\<lambda>x. obj_get x ''id'' = JStr idx) (planned_indexes payload)
     then and_then (dropIndex E shard index) (\<lambda>_.
       let i = length (planned_indexes payload);
           payload = obj_put ''DBServer'' (JStr ourselves)
             (set_indexes (splice_out i i (planned_indexes payload)) payload) in
       and_then (report_collection E database shard payload) (\<lambda>_. returns payload))
     else returns payload) (enumerated indexes) payload"

definition handle_shard :: "environment \<Rightarrow> string \<Rightarrow> string \<Rightarrow> (string \<times> jsobj) list \<Rightarrow> string \<times> jsval \<Rightarrow> jsobj
    \<Rightarrow> (node, jsobj) statement" where
  "handle_shard E ourselves database localCollections = (\<lambda>(shard, server) payload.
     if server = JStr ourselves
     then and_then (case map_of localCollections shard of
           None \<Rightarrow> create_shard E ourselves database shard payload
         | Some localCollection \<Rightarrow>
             and_then (update_status E ourselves database shard localCollection payload)
               (update_properties E ourselves database shard localCollection)) (\<lambda>payload.
       and_then (getIndexMap E shard) (\<lambda>indexes.
       if obj_has payload ''indexes''
       then and_then (create_indexes E ourselves database shard indexes payload) (\<lambda>(indexes, payload).
         drop_indexes E ourselves database shard indexes payload)
       else returns payload))
     else returns payload)"

definition handle_collection :: "environment \<Rightarrow> string \<Rightarrow> string \<Rightarrow> (string \<times> jsobj) list \<Rightarrow> jsobj \<Rightarrow> (node, jsobj) statement" where
  "handle_collection E ourselves database localCollections payload0 =
     (let payload = obj_del ''id'' (obj_put ''planId'' (obj_get payload0 ''id'') payload0)
      in for_each (handle_shard E ourselves database localCollections) (shards_of payload0) payload)"

text \<open>An action in another database: an exception switches back to the previous one.\<close>

definition in_database :: "environment \<Rightarrow> string \<Rightarrow> (node, unit) statement \<Rightarrow> (node, unit) statement" where
  "in_database E database act = and_then (reads n_using) (\<lambda>previousDatabase. and_then (useDatabase E database) (\<lambda>_.
     try_catch act (\<lambda>err. and_then (useDatabase E previousDatabase) (\<lambda>_. throws err))))"

definition create_in_database :: "environment \<Rightarrow> string \<Rightarrow> string \<Rightarrow> (string \<times> jsobj) list \<Rightarrow> (node, unit) statement" where
  "create_in_database E ourselves database collections =
     and_then (getLocalCollections E) (\<lambda>localCollections.
     for_each (\<lambda>(_, payload) _.
       and_then (handle_collection E ourselves database localCollections payload) (\<lambda>_. returns ()))
     (enumerated collections) ())"

definition createLocalCollections :: "environment \<Rightarrow> planned_collections \<Rightarrow> (node, unit) statement" where
  "createLocalCollections E plannedCollections = and_then (reads n_self) (\<lambda>ourselves.
     and_then (useDatabase E ''_system'') (\<lambda>_. and_then (getLocalDatabases E) (\<lambda>localDatabases.
     for_each (\<lambda>(database, collections) _.
       if has localDatabases database
       then in_database E database (create_in_database E ourselves database collections)
       else returns ())
     (enumerated plannedCollections) ())))"

definition dropCollectionAgency :: "environment \<Rightarrow> string \<Rightarrow> string \<Rightarrow> string \<Rightarrow> (node, unit) statement" where
  "dropCollectionAgency E database shardID cid =
     try_catch (agencyRemove E (''Current/Collections/'' @ database @ ''/'' @ cid @ ''/'' @ shardID)) (\<lambda>_. returns ())"

definition drop_in_database :: "environment \<Rightarrow> string \<Rightarrow> bool \<Rightarrow> jsobj \<Rightarrow> string \<Rightarrow> (node, unit) statement" where
  "drop_in_database E ourselves removeEvery shardMap database =
     and_then (getLocalCollections E) (\<lambda>collections.
     for_each (\<lambda>(collection, data) _.
       if removeEvery \<or> \<not> has shardMap collection \<or> map_of shardMap collection \<noteq> Some (JStr ourselves)
       then and_then (db_drop E collection) (\<lambda>_.
         writeLocked E ''Current'' None None
           (dropCollectionAgency E database collection (js_string (obj_get data ''planId''))))
       else returns ())
     (enumerated collections) ())"

definition dropLocalCollections :: "environment \<Rightarrow> planned_collections \<Rightarrow> (node, unit) statement" where
  "dropLocalCollections E plannedCollections = and_then (reads n_self) (\<lambda>ourselves.
     and_then (useDatabase E ''_system'') (\<lambda>_.
     let shardMap = getShardMap plannedCollections in
     and_then (getLocalDatabases E) (\<lambda>localDatabases.
     for_each (\<lambda>(database, _) _.
       let removeEvery = \<not> has plannedCollections database in
       in_database E database (drop_in_database E ourselves removeEvery shardMap database))
     (enumerated localDatabases) ())))"

definition cleanupCurrentCollections :: "environment \<Rightarrow> planned_collections \<Rightarrow> (node, unit) statement" where
  "cleanupCurrentCollections E plannedCollections = and_then (reads n_self) (\<lambda>ourselves.
     and_then (useDatabase E ''_system'') (\<lambda>_. and_then (agencyGet E ''Current/Collections'') (\<lambda>all.
     let currentCollections = getByPrefix4d all ''Current/Collections/'';
         shardMap = getShardMap plannedCollections in
     for_each (\<lambda>(database, collections) _.
       for_each (\<lambda>(collection, shards) _.
         for_each (\<lambda>(shard, entry) _.
           if obj_get entry ''DBServer'' = JStr ourselves
              \<and> (\<not> has shardMap shard \<or> map_of shardMap shard \<noteq> Some (JStr ourselves))
           then writeLocked E ''Current'' None None (dropCollectionAgency E database shard collection)
           else returns ())
         (enumerated shards) ())
       (enumerated collections) ())
     (enumerated currentCollections) ())))"

definition handleCollectionChanges :: "environment \<Rightarrow> (string \<times> jsobj) list \<Rightarrow> (node, unit) statement" where
  "handleCollectionChanges E plan = (let plannedCollections = getByPrefix3d plan ''Plan/Collections/'' in
     and_then (createLocalCollections E plannedCollections) (\<lambda>_.
     and_then (dropLocalCollections E plannedCollections) (\<lambda>_. cleanupCurrentCollections E plannedCollections)))"

definition handleChanges :: "environment \<Rightarrow> (string \<times> jsobj) list \<Rightarrow> (node, unit) statement" where
  "handleChanges E plan = and_then (handleDatabaseChanges E plan) (\<lambda>_. handleCollectionChanges E plan)"

subsection \<open>The role of the server\<close>

definition isCluster :: "node \<Rightarrow> bool" where
  "isCluster s = n_initialised s"

definition isCoordinator :: "node \<Rightarrow> bool" where
  "isCoordinator s = (if \<not> isCluster s then False else n_coordinator s)"

text \<open>The exceptions end in the log.\<close>

definition handlePlanChange :: "environment \<Rightarrow> (node, unit) statement" where
  "handlePlanChange E s =
     (if \<not> isCluster s \<or> isCoordinator s then returns () s
      else try_catch
        (and_then (agencyGet E ''Plan'') (\<lambda>plan. and_then (agencyGet E ''Current'') (\<lambda>_. handleChanges E plan)))
        (\<lambda>_. returns ()) s)"

end
