(* ===== verification/Cluster_Rules.thy ===== *)
theory Cluster_Rules
  imports Cluster_Plan
begin

text \<open>
  The rules of the native calls, stated over a view of the node: the server's own name, the names of
  its databases, the names of the collections of each, and the database in use. A call may fail
  whenever the environment says so; then the view is as before.
\<close>

subsection \<open>The view\<close>

lemma names_simps [simp]:
  "names [] = {}" "names (x # D) = insert (fst x) (names D)" "names (D @ D') = names D \<union> names D'"
  "names (change_collections d f D) = names D" "names (filter (\<lambda>(x, _). x \<noteq> d) D) = names D - {d}"
  by (auto simp: names_def change_collections_def case_prod_beta image_image)

lemma map_of_names: "map_of D d = None \<longleftrightarrow> d \<notin> names D"
  by (simp add: names_def map_of_eq_None_iff)

lemma collections_in_change: "collections_in (change_collections d f D) x
    = (if x = d \<and> d \<in> names D then f (collections_in D d) else collections_in D x)"
proof -
  have "map_of (change_collections d f D) x = map_option (\<lambda>cs. if x = d then f cs else cs) (map_of D x)"
    unfolding change_collections_def by (induction D) auto
  then show ?thesis using map_of_names [of D d]
    by (cases "map_of D x"; cases "map_of D d") (auto simp: collections_in_def)
qed

lemma collections_in_append: "collections_in (D @ [(d, cs)]) x
    = (if x \<in> names D then collections_in D x else if x = d then cs else [])"
  by (auto simp: collections_in_def map_of_append map_add_def map_of_names split: option.splits)
    (metis map_of_names option.distinct(1))+

lemma collections_in_filter: "collections_in (filter (\<lambda>(x, _). x \<noteq> d) D) x = (if x = d then [] else collections_in D x)"
  unfolding collections_in_def by (induction D) auto

lemma collections_in_none: "x \<notin> names D \<Longrightarrow> collections_in D x = []"
  by (simp add: collections_in_def map_of_names [symmetric])

lemma shards_in_none [simp]: "x \<notin> names D \<Longrightarrow> shards_in D x = {}"
  by (simp add: shards_in_def collections_in_none)

lemma shards_in_append: "d \<notin> names D \<Longrightarrow> shards_in (D @ [(d, cs)]) = (shards_in D)(d := lc_name ` set cs)"
  by (auto simp: shards_in_def collections_in_append collections_in_none fun_eq_iff)

lemma shards_in_filter: "shards_in (filter (\<lambda>(x, _). x \<noteq> d) D) = (shards_in D)(d := {})"
  by (auto simp: shards_in_def collections_in_filter fun_eq_iff)

lemma shards_in_add: "lc_name x = c \<Longrightarrow> shards_in (change_collections d (\<lambda>cs. cs @ [x]) D)
    = (if d \<in> names D then (shards_in D)(d := insert c (shards_in D d)) else shards_in D)"
  by (auto simp: shards_in_def collections_in_change fun_eq_iff)

lemma shards_in_remove: "shards_in (change_collections d (filter (\<lambda>x. lc_name x \<noteq> c)) D)
    = (shards_in D)(d := shards_in D d - {c})"
  by (auto simp: shards_in_def collections_in_change collections_in_none fun_eq_iff)

lemma shards_in_keep: "(\<And>y. lc_name (g y) = lc_name y) \<Longrightarrow> shards_in (change_collections d (map g) D) = shards_in D"
  by (auto simp: shards_in_def collections_in_change fun_eq_iff image_image)

definition view :: "(string \<Rightarrow> string set \<Rightarrow> (string \<Rightarrow> string set) \<Rightarrow> string \<Rightarrow> bool) \<Rightarrow> node \<Rightarrow> bool" where
  "view P s \<longleftrightarrow> P (n_self s) (names (n_databases s)) (shards_in (n_databases s)) (n_using s)"

subsection \<open>Calls that may fail\<close>

lemma triple_native:
  assumes "\<And>s. P s \<Longrightarrow> refuse s = None \<Longrightarrow> Q (result s) ((effect s)\<lparr>n_history := n_history s @ [(c, True)]\<rparr>)"
    and "\<And>s e. P s \<Longrightarrow> X e (s\<lparr>n_history := n_history s @ [(c, False)]\<rparr>)"
  shows "triple P (native E c refuse result effect) Q X"
  using assms by (auto simp: triple_def native_def split: option.splits)

lemma refused_iff [simp]: "refused b n msg = None \<longleftrightarrow> \<not> b" "refused b n msg = Some e \<longleftrightarrow> b \<and> e = ArangoError n msg"
  by (auto simp: refused_def)

lemma triple_on_collection:
  assumes "\<And>s x. P s \<Longrightarrow> x \<in> set (using_collections s) \<Longrightarrow> lc_name x = c \<Longrightarrow>
      Q (result x) ((change_using (map (\<lambda>y. if lc_name y = c then (effect y)\<lparr>lc_name := c\<rparr> else y)) s)
        \<lparr>n_history := n_history s @ [(call (n_using s), True)]\<rparr>)"
    and "\<And>s e. P s \<Longrightarrow> X e (s\<lparr>n_history := n_history s @ [(call (n_using s), False)]\<rparr>)"
    and "\<And>s. P s \<Longrightarrow> X TypeError s"
  shows "triple P (on_collection E call c result effect) Q X"
  using assms unfolding triple_def on_collection_def native_def throws_def
  by (auto split: option.splits simp: find_Some_iff)

named_theorems view_rules

lemma view_useDatabase [view_rules]:
  "triple (view (\<lambda>m N S u. (d \<in> N \<longrightarrow> Q m N S d) \<and> X m N S u)) (useDatabase E d) (\<lambda>_. view Q) (\<lambda>_. view X)"
  unfolding useDatabase_def by (rule triple_native) (auto simp: view_def)

lemma view_createDatabase [view_rules]:
  "triple (view (\<lambda>m N S u. (d \<notin> N \<longrightarrow> Q m (insert d N) (S(d := lc_name ` set (system_collections E))) u) \<and> X m N S u))
     (createDatabase E d) (\<lambda>_. view Q) (\<lambda>_. view X)"
  unfolding createDatabase_def by (rule triple_native) (auto simp: view_def shards_in_append)

lemma view_dropDatabase [view_rules]:
  "triple (view (\<lambda>m N S u. (d \<in> N \<longrightarrow> Q m (N - {d}) (S(d := {})) u) \<and> X m N S u))
     (dropDatabase E d) (\<lambda>_. view Q) (\<lambda>_. view X)"
  unfolding dropDatabase_def by (rule triple_native) (auto simp: view_def shards_in_filter)

lemma view_db_create [view_rules]:
  "triple (view (\<lambda>m N S u. (c \<notin> S u \<longrightarrow> Q m N (if u \<in> N then S(u := insert c (S u)) else S) u) \<and> X m N S u))
     (db_create E edge c payload) (\<lambda>_. view Q) (\<lambda>_. view X)"
  unfolding triple_def db_create_def native_def
  by (auto simp: view_def shards_in_add split: option.splits if_splits)

lemma view_db_drop [view_rules]:
  "triple (view (\<lambda>m N S u. (c \<in> S u \<longrightarrow> Q m N (S(u := S u - {c})) u) \<and> X m N S u))
     (db_drop E c) (\<lambda>_. view Q) (\<lambda>_. view X)"
  unfolding triple_def db_drop_def native_def
  by (auto simp: view_def shards_in_remove split: option.splits if_splits)

lemma view_on_collection:
  "triple (view (\<lambda>m N S u. (c \<in> S u \<longrightarrow> Q m N S u) \<and> X m N S u)) (on_collection E call c result effect)
     (\<lambda>_. view Q) (\<lambda>_. view X)"
  by (rule triple_on_collection) (auto simp: view_def shards_in_keep, auto simp: shards_in_def)

lemma view_load [view_rules]:
  "triple (view (\<lambda>m N S u. (c \<in> S u \<longrightarrow> Q m N S u) \<and> X m N S u)) (load E c) (\<lambda>_. view Q) (\<lambda>_. view X)"
  unfolding load_def by (rule view_on_collection)

lemma view_unload [view_rules]:
  "triple (view (\<lambda>m N S u. (c \<in> S u \<longrightarrow> Q m N S u) \<and> X m N S u)) (unload E c) (\<lambda>_. view Q) (\<lambda>_. view X)"
  unfolding unload_def by (rule view_on_collection)

lemma view_change_properties [view_rules]:
  "triple (view (\<lambda>m N S u. (c \<in> S u \<longrightarrow> Q m N S u) \<and> X m N S u)) (change_properties E c props) (\<lambda>_. view Q) (\<lambda>_. view X)"
  unfolding change_properties_def by (rule view_on_collection)

lemma view_getIndexes [view_rules]:
  "triple (view (\<lambda>m N S u. (c \<in> S u \<longrightarrow> Q m N S u) \<and> X m N S u)) (getIndexes E c) (\<lambda>_. view Q) (\<lambda>_. view X)"
  unfolding getIndexes_def by (rule view_on_collection)

lemma view_ensureIndex [view_rules]:
  "triple (view (\<lambda>m N S u. (c \<in> S u \<longrightarrow> Q m N S u) \<and> X m N S u)) (ensureIndex E c index) (\<lambda>_. view Q) (\<lambda>_. view X)"
  unfolding ensureIndex_def by (rule view_on_collection)

lemma view_dropIndex [view_rules]:
  "triple (view (\<lambda>m N S u. (c \<in> S u \<longrightarrow> Q m N S u) \<and> X m N S u)) (dropIndex E c index) (\<lambda>_. view Q) (\<lambda>_. view X)"
  unfolding dropIndex_def by (rule view_on_collection)

lemma view_listDatabases [view_rules]:
  "triple (view (\<lambda>m N S u. Q m N S u \<and> X m N S u)) (listDatabases E) (\<lambda>r. view (\<lambda>m N S u. set r = N \<and> Q m N S u)) (\<lambda>_. view X)"
  unfolding listDatabases_def by (rule triple_native) (auto simp: view_def names_def)

lemma view_db_collections [view_rules]:
  "triple (view (\<lambda>m N S u. Q m N S u \<and> X m N S u)) (db_collections E)
     (\<lambda>r. view (\<lambda>m N S u. lc_name ` set r = S u \<and> Q m N S u)) (\<lambda>_. view X)"
  unfolding db_collections_def by (rule triple_native) (auto simp: view_def shards_in_def)

subsection \<open>The maps of the local databases and collections\<close>

lemma keys_fold_update: "fst ` set (fold (\<lambda>x. AList.update (k x) (v x)) xs r) = fst ` set r \<union> k ` set xs"
  by (induction xs arbitrary: r) (auto simp: dom_update)

lemma distinct_fold_update:
  "distinct (map fst r) \<Longrightarrow> distinct (map fst (fold (\<lambda>x. AList.update (k x) (v x)) xs r))"
  by (induction xs arbitrary: r) (auto simp: distinct_update)

lemma databases_map_keys [simp]: "fst ` set (databases_map xs) = set xs" "distinct (map fst (databases_map xs))"
  unfolding databases_map_def by (auto simp: keys_fold_update intro: distinct_fold_update)

lemma collections_map_filter: "collections_map cs = fold (\<lambda>c. AList.update (lc_name c) (collection_data c))
    (filter (\<lambda>c. take 1 (lc_name c) \<noteq> ''_'') cs) []"
proof -
  have "fold (\<lambda>c r. if P c then g c r else r) cs r = fold g (filter P cs) r" for P and g :: "_ \<Rightarrow> 'a \<Rightarrow> 'a" and r
    by (induction cs arbitrary: r) auto
  then show ?thesis unfolding collections_map_def .
qed

lemma collections_map_keys [simp]:
  "fst ` set (collections_map cs) = {c \<in> lc_name ` set cs. take 1 c \<noteq> ''_''}" "distinct (map fst (collections_map cs))"
  unfolding collections_map_filter by (auto simp: keys_fold_update intro: distinct_fold_update)

lemma fst_set_enumerated [simp]: "fst ` set (enumerated xs) = fst ` set xs"
  by simp

lemma has_iff: "has xs k \<longleftrightarrow> k \<in> fst ` set xs"
  by (simp add: has_def map_of_eq_None_iff)

lemma view_getLocalDatabases [view_rules]:
  "triple (view (\<lambda>m N S u. Q m N S u \<and> X m N S u)) (getLocalDatabases E)
     (\<lambda>r. view (\<lambda>m N S u. fst ` set r = N \<and> distinct (map fst r) \<and> Q m N S u)) (\<lambda>_. view X)"
  unfolding getLocalDatabases_def
  by (rule triple_chain [OF view_listDatabases]) (auto simp: view_def)

lemma view_getLocalCollections [view_rules]:
  "triple (view (\<lambda>m N S u. Q m N S u \<and> X m N S u)) (getLocalCollections E)
     (\<lambda>r. view (\<lambda>m N S u. fst ` set r = {c \<in> S u. take 1 c \<noteq> ''_''} \<and> distinct (map fst r) \<and> Q m N S u)) (\<lambda>_. view X)"
  unfolding getLocalCollections_def
  by (rule triple_chain [OF view_db_collections]) (auto simp: view_def)

subsection \<open>The plan and an example\<close>

definition planned_databases :: "(string \<times> jsobj) list \<Rightarrow> (string \<times> jsobj) list" where
  "planned_databases plan = getByPrefix plan ''Plan/Databases/''"

definition planned_shards :: "(string \<times> jsobj) list \<Rightarrow> planned_collections" where
  "planned_shards plan = getByPrefix3d plan ''Plan/Collections/''"

definition example_environment :: "(history \<Rightarrow> native_call \<Rightarrow> js_exc option) \<Rightarrow> environment" where
  "example_environment f = \<lparr>faults = f, instrumented = False, system_collections = [],
     created = \<lambda>edge c payload. \<lparr>lc_name = c, lc_id = JStr c, lc_type = JNum (Fin (if edge then 3 else 2)),
       lc_status = JNum (Fin 3), lc_planId = obj_get payload ''planId'', lc_properties = [], lc_indexes = []\<rparr>,
     status_loaded = JNum (Fin 3), status_unloaded = JNum (Fin 2),
     changed_properties = \<lambda>new old. new @ old, with_index = \<lambda>i xs. xs @ [i],
     without_index = \<lambda>i. filter (\<lambda>j. obj_get j ''id'' \<noteq> obj_get i ''id'')\<rparr>"

definition example_plan :: "(string \<times> jsobj) list" where
  "example_plan = [(''Plan/Collections/a/7'', [(''id'', JStr ''7''), (''type'', JNum (Fin 2)), (''status'', JNum (Fin 3)),
        (''shards'', JObj [(''s1'', JStr ''me''), (''s2'', JStr ''you'')])]),
     (''Plan/Databases/a'', [(''name'', JStr ''a'')])]"

definition example_shard :: "string \<Rightarrow> local_collection" where
  "example_shard c = \<lparr>lc_name = c, lc_id = JStr c, lc_type = JNum (Fin 2), lc_status = JNum (Fin 3), lc_planId = JStr ''7'',
     lc_properties = [], lc_indexes = []\<rparr>"

definition example_node :: "databases \<Rightarrow> node" where
  "example_node D = \<lparr>n_self = ''me'', n_initialised = True, n_coordinator = False, n_databases = D,
     n_using = ''_system'', n_agency = example_plan, n_locked = False, n_version = 0, n_history = []\<rparr>"

end
