(* ===== verification/Cluster_Invariant.thy ===== *)
theory Cluster_Invariant
  imports Cluster_Rules
begin

text \<open>
  What holds whichever calls fail. An action keeps an invariant when the invariant holds afterwards
  both if it returns and if it throws. The invariants of this development are kept by the native
  calls one by one, under conditions on their arguments; the locales below lift that to
  the functions of the cluster module.
\<close>

definition keeps :: "('s \<Rightarrow> bool) \<Rightarrow> ('s, 'a) statement \<Rightarrow> bool" where
  "keeps I m \<longleftrightarrow> triple I m (\<lambda>_. I) (\<lambda>_. I)"

named_theorems keeps_rules

lemma keeps_basic [keeps_rules]: "keeps I (returns a)" "keeps I (throws e)" "keeps I (reads f)"
  by (auto simp: keeps_def)

lemma keeps_chain [keeps_rules]: "keeps I m \<Longrightarrow> (\<And>a. keeps I (f a)) \<Longrightarrow> keeps I (and_then m f)"
  unfolding keeps_def by (rule triple_chain)

lemma keeps_try [keeps_rules]: "keeps I m \<Longrightarrow> (\<And>e. keeps I (h e)) \<Longrightarrow> keeps I (try_catch m h)"
  unfolding keeps_def by (rule triple_try)

lemma keeps_if [keeps_rules]: "(c \<Longrightarrow> keeps I m) \<Longrightarrow> (\<not> c \<Longrightarrow> keeps I n) \<Longrightarrow> keeps I (if c then m else n)"
  by simp

lemma keeps_pair [keeps_rules]: "(\<And>a b. p = (a, b) \<Longrightarrow> keeps I (f a b)) \<Longrightarrow> keeps I (case p of (a, b) \<Rightarrow> f a b)"
  by (cases p) simp

lemma keeps_pair_arg [keeps_rules]: "(\<And>a b. p = (a, b) \<Longrightarrow> keeps I (f a b x)) \<Longrightarrow> keeps I ((case p of (a, b) \<Rightarrow> f a b) x)"
  by (cases p) simp

lemma keeps_option [keeps_rules]: "keeps I m \<Longrightarrow> (\<And>a. keeps I (f a)) \<Longrightarrow> keeps I (case x of None \<Rightarrow> m | Some a \<Rightarrow> f a)"
  by (cases x) auto

lemma keeps_for_each [keeps_rules]: "(\<And>x acc. x \<in> set xs \<Longrightarrow> keeps I (f x acc)) \<Longrightarrow> keeps I (for_each f xs acc)"
  unfolding keeps_def by (rule triple_for_each)

lemma keeps_iff: "keeps I m \<longleftrightarrow> (\<forall>s. I s \<longrightarrow> I (snd (m s)))"
proof -
  have "(case m s of (Inr a, t) \<Rightarrow> I t | (Inl e, t) \<Rightarrow> I t) = I (snd (m s))" for s
    by (cases "m s"; cases "fst (m s)") auto
  then show ?thesis by (simp add: keeps_def triple_def)
qed

lemma keeps_conj: "keeps I m \<Longrightarrow> keeps J m \<Longrightarrow> keeps (\<lambda>s. I s \<and> J s) m"
  by (simp add: keeps_iff)

lemma keepsD: "keeps I m \<Longrightarrow> I s \<Longrightarrow> m s = (r, t) \<Longrightarrow> I t"
  by (cases r) (auto simp: keeps_def triple_def)

subsection \<open>From the calls to the functions\<close>

text \<open>An invariant of every call but \<open>useDatabase\<close>, \<open>dropDatabase\<close> and \<open>db._drop\<close>.\<close>

locale calls_invariant =
  fixes E :: environment and I :: "node \<Rightarrow> bool"
  assumes databases: "keeps I (createDatabase E x)" "keeps I (listDatabases E)"
    and collections: "keeps I (db_create E edge c payload)" "keeps I (db_collections E)"
      "keeps I (load E c)" "keeps I (unload E c)" "keeps I (change_properties E c props)"
      "keeps I (getIndexes E c)" "keeps I (ensureIndex E c index)" "keeps I (dropIndex E c index)"
    and agency: "keeps I (agencyGet E key)" "keeps I (agencySet E key entry)" "keeps I (agencyRemove E key)"
      "keeps I (lockWrite E part ttl timeout)" "keeps I (unlockWrite E part timeout)" "keeps I (increaseVersion E key)"
begin

lemmas calls = keeps_rules databases collections agency

lemma writeLocked: "keeps I cb \<Longrightarrow> keeps I (writeLocked E part timeout ttl cb)"
  unfolding writeLocked_def Let_def by (intro calls)

lemma queries:
  "keeps I (getLocalDatabases E)" "keeps I (getLocalCollections E)" "keeps I (getIndexMap E shard)"
  unfolding getLocalDatabases_def getLocalCollections_def getIndexMap_def by (intro calls)+

lemma writers:
  "keeps I (dropDatabaseAgency E o1 x)" "keeps I (dropCollectionAgency E x y z)" "keeps I (report_collection E x y payload)"
  unfolding dropDatabaseAgency_def dropCollectionAgency_def report_collection_def by (intro calls writeLocked)+

lemma handle_shard: "keeps I (handle_shard E ourselves database local sh payload)"
  unfolding handle_shard_def create_shard_def update_status_def update_properties_def create_indexes_def
    drop_indexes_def Let_def
  by (intro calls queries writers)

lemma handle_collection: "keeps I (handle_collection E ourselves database local payload)"
  unfolding handle_collection_def Let_def by (intro calls handle_shard)

lemma create_in_database: "keeps I (create_in_database E ourselves database cs)"
  unfolding create_in_database_def by (intro calls queries handle_collection)

end

locale plan_invariant = calls_invariant +
  assumes useDatabase: "keeps I (useDatabase E x)"
begin

lemma in_database: "keeps I act \<Longrightarrow> keeps I (in_database E x act)"
  unfolding in_database_def by (intro calls useDatabase)

lemma phases:
  "keeps I (createLocalDatabases E planned)" "keeps I (cleanupCurrentDatabases E)"
  "keeps I (createLocalCollections E collections)" "keeps I (cleanupCurrentCollections E collections)"
  unfolding createLocalDatabases_def cleanupCurrentDatabases_def createLocalCollections_def
    cleanupCurrentCollections_def Let_def
  by (intro calls useDatabase queries writers writeLocked in_database create_in_database)+

lemma dropLocalDatabases:
  assumes "\<And>x. \<not> has planned x \<Longrightarrow> take 1 x \<noteq> ''_'' \<Longrightarrow> keeps I (dropDatabase E x)"
  shows "keeps I (dropLocalDatabases E planned)"
  unfolding dropLocalDatabases_def Let_def
  by (intro calls useDatabase queries writers writeLocked assms) auto

lemma handleDatabaseChanges:
  assumes "\<And>x. \<not> has (getByPrefix plan ''Plan/Databases/'') x \<Longrightarrow> take 1 x \<noteq> ''_'' \<Longrightarrow> keeps I (dropDatabase E x)"
  shows "keeps I (handleDatabaseChanges E plan)"
  unfolding handleDatabaseChanges_def Let_def
  by (intro calls phases dropLocalDatabases assms)

lemma handleChanges:
  assumes "\<And>x. \<not> has (getByPrefix plan ''Plan/Databases/'') x \<Longrightarrow> take 1 x \<noteq> ''_'' \<Longrightarrow> keeps I (dropDatabase E x)"
    and "keeps I (dropLocalCollections E (getByPrefix3d plan ''Plan/Collections/''))"
  shows "keeps I (handleChanges E plan)"
  unfolding handleChanges_def handleCollectionChanges_def Let_def
  by (intro calls phases handleDatabaseChanges assms)

end

end
