(* ===== verification/Cluster_Safety.thy ===== *)
theory Cluster_Safety
  imports Cluster_Invariant
begin

text \<open>
  Two safety properties of the plan change, whichever calls fail: planned data stays, and the agency
  is written under its lock only.
\<close>

subsection \<open>Planned data stays\<close>

text \<open>
  The server \<open>us\<close> has the database \<open>d\<close> with the collections \<open>C\<close>, and uses a database of \<open>U\<close>.
\<close>

definition kept :: "string \<Rightarrow> string \<Rightarrow> string set \<Rightarrow> string set \<Rightarrow> node \<Rightarrow> bool" where
  "kept us d C U = view (\<lambda>m N S u. m = us \<and> d \<in> N \<and> C \<subseteq> S d \<and> u \<in> U)"

named_theorems kept_rules

lemma keeps_view:
  assumes "triple (view P) m (\<lambda>_. view Q) (\<lambda>_. view Q)" "\<And>n N S u. Q n N S u \<Longrightarrow> P n N S u"
  shows "keeps (view Q) m"
  unfolding keeps_def using assms(1) by (rule triple_weaken) (use assms(2) in \<open>auto simp: view_def\<close>)

lemma kept_calls [kept_rules]:
  "keeps (kept us d C U) (createDatabase E x)"
  "x \<noteq> d \<Longrightarrow> keeps (kept us d C U) (dropDatabase E x)"
  "keeps (kept us d C U) (db_create E edge c payload)"
  "keeps (kept us d C U) (load E c)" "keeps (kept us d C U) (unload E c)"
  "keeps (kept us d C U) (change_properties E c props)" "keeps (kept us d C U) (getIndexes E c)"
  "keeps (kept us d C U) (ensureIndex E c index)" "keeps (kept us d C U) (dropIndex E c index)"
  unfolding kept_def by (rule keeps_view, rule view_rules, auto)+

lemma kept_drop [kept_rules]:
  "c \<notin> C \<or> d \<notin> U \<Longrightarrow> keeps (kept us d C U) (db_drop E c)"
  unfolding kept_def by (rule keeps_view, rule view_rules) auto

lemma kept_use [kept_rules]: "x \<in> U \<Longrightarrow> keeps (kept us d C U) (useDatabase E x)"
  unfolding kept_def by (rule keeps_view, rule view_rules) auto

lemma kept_native:
  assumes "\<And>s h. view P s \<Longrightarrow> view P ((effect s)\<lparr>n_history := h\<rparr>)"
  shows "keeps (view P) (native E c refuse result effect)"
  unfolding keeps_def by (rule triple_native) (use assms in \<open>auto simp: view_def\<close>)

lemma kept_agency [kept_rules]:
  "keeps (kept us d C U) (agencyGet E key)" "keeps (kept us d C U) (agencySet E key payload)"
  "keeps (kept us d C U) (agencyRemove E key)" "keeps (kept us d C U) (lockWrite E part ttl timeout)"
  "keeps (kept us d C U) (unlockWrite E part timeout)" "keeps (kept us d C U) (increaseVersion E key)"
  "keeps (kept us d C U) (listDatabases E)" "keeps (kept us d C U) (db_collections E)"
  unfolding kept_def agencyGet_def agencySet_def agencyRemove_def lockWrite_def unlockWrite_def increaseVersion_def
    listDatabases_def db_collections_def
  by (rule kept_native, simp add: view_def)+

interpretation kept: calls_invariant E "kept us d C U" for E us d C U
  by unfold_locales (rule kept_rules)+

interpretation kept_any: plan_invariant E "kept us d C UNIV" for E us d C
  by unfold_locales (rule kept_rules, rule UNIV_I)

lemma kept_weaken: "kept us d C U s \<Longrightarrow> kept us d C UNIV s"
  by (simp add: kept_def view_def)

lemma kept_use_narrow: "triple (kept us d C UNIV) (useDatabase E x) (\<lambda>_. kept us d C {x}) (\<lambda>_. kept us d C UNIV)"
  unfolding kept_def by (rule triple_weaken [OF view_useDatabase]) (auto simp: view_def)

lemma kept_in_database:
  assumes "keeps (kept us d C {x}) act"
  shows "keeps (kept us d C UNIV) (in_database E x act)"
  unfolding keeps_def in_database_def
proof (rule triple_chain [where R = "\<lambda>_. kept us d C UNIV"], blast, rule triple_chain [OF kept_use_narrow])
  fix previous
  have "triple (kept us d C {x}) act (\<lambda>_. kept us d C UNIV) (\<lambda>_. kept us d C UNIV)"
    using assms unfolding keeps_def by (rule triple_weaken) (auto intro: kept_weaken)
  moreover have "keeps (kept us d C UNIV) (and_then (useDatabase E previous) (\<lambda>_. throws e))" for e
    by (intro keeps_rules kept_rules UNIV_I)
  ultimately show "triple (kept us d C {x})
      (try_catch act (\<lambda>err. and_then (useDatabase E previous) (\<lambda>_. throws err))) (\<lambda>_. kept us d C UNIV) (\<lambda>_. kept us d C UNIV)"
    unfolding keeps_def by (rule triple_try)
qed

lemma kept_getLocalCollections:
  "triple (kept us d C U) (getLocalCollections E)
     (\<lambda>r s. kept us d C U s \<and> (\<forall>c \<in> fst ` set r. take 1 c \<noteq> ''_'')) (\<lambda>_. kept us d C U)"
  unfolding kept_def by (rule triple_weaken [OF view_getLocalCollections
      [where Q = "\<lambda>m N S u. m = us \<and> d \<in> N \<and> C \<subseteq> S d \<and> u \<in> U"
         and X = "\<lambda>m N S u. m = us \<and> d \<in> N \<and> C \<subseteq> S d \<and> u \<in> U"]]) (auto simp: view_def)

lemma kept_drop_in_database:
  assumes "\<And>c. c \<in> C \<Longrightarrow> take 1 c = ''_'' \<or> d = database \<and> \<not> removeEvery \<and> map_of shardMap c = Some (JStr us) \<or> d \<noteq> database"
  shows "keeps (kept us d C {database}) (drop_in_database E us removeEvery shardMap database)"
  unfolding keeps_def drop_in_database_def
proof (rule triple_chain [OF kept_getLocalCollections], rule triple_given)
  fix r :: "(string \<times> jsobj) list"
  assume user: "\<forall>c \<in> fst ` set r. take 1 c \<noteq> ''_''"
  have not_ours: "c \<notin> C \<or> d \<notin> {database}"
    if "(c, data) \<in> set r" "removeEvery \<or> \<not> has shardMap c \<or> map_of shardMap c \<noteq> Some (JStr us)" for c data
  proof -
    from that(1) user have "take 1 c \<noteq> ''_''" by force
    with that(2) assms [of c] show ?thesis by (auto simp: has_def)
  qed
  have "keeps (kept us d C {database}) (for_each (\<lambda>(collection, data) _.
       if removeEvery \<or> \<not> has shardMap collection \<or> map_of shardMap collection \<noteq> Some (JStr us)
       then and_then (db_drop E collection) (\<lambda>_. writeLocked E ''Current'' None None
           (dropCollectionAgency E database collection (js_string (obj_get data ''planId''))))
       else returns ()) (enumerated r) ())"
    by (intro keeps_rules kept_rules kept.writeLocked kept.writers, rule not_ours) auto
  then show "triple (kept us d C {database}) (for_each (\<lambda>(collection, data) _.
       if removeEvery \<or> \<not> has shardMap collection \<or> map_of shardMap collection \<noteq> Some (JStr us)
       then and_then (db_drop E collection) (\<lambda>_. writeLocked E ''Current'' None None
           (dropCollectionAgency E database collection (js_string (obj_get data ''planId''))))
       else returns ()) (enumerated r) ()) (\<lambda>_. kept us d C {database}) (\<lambda>_. kept us d C {database})"
    unfolding keeps_def .
qed

lemma kept_dropLocalCollections [kept_rules]:
  assumes "\<And>c. c \<in> C \<Longrightarrow> take 1 c = ''_'' \<or> has planned d \<and> map_of (getShardMap planned) c = Some (JStr us)"
  shows "keeps (kept us d C UNIV) (dropLocalCollections E planned)"
  unfolding dropLocalCollections_def Let_def keeps_def
proof (rule triple_read_known [where a = us])
  show "n_self s = us" if "kept us d C UNIV s" for s using that by (simp add: kept_def view_def)
next
  fix x assume "x = us"
  have "keeps (kept us d C UNIV) (in_database E z
      (drop_in_database E us (\<not> has planned z) (getShardMap planned) z))" for z
    by (rule kept_in_database, rule kept_drop_in_database) (use assms in auto)
  with \<open>x = us\<close> have "keeps (kept us d C UNIV) (and_then (useDatabase E ''_system'') (\<lambda>_.
     and_then (getLocalDatabases E) (\<lambda>localDatabases. for_each (\<lambda>(database, _) _.
       in_database E database (drop_in_database E x (\<not> has planned database) (getShardMap planned) database))
     (enumerated localDatabases) ())))"
    by (intro keeps_rules kept_rules kept.queries UNIV_I) simp
  then show "triple (kept us d C UNIV) (and_then (useDatabase E ''_system'') (\<lambda>_.
     and_then (getLocalDatabases E) (\<lambda>localDatabases. for_each (\<lambda>(database, _) _.
       in_database E database (drop_in_database E x (\<not> has planned database) (getShardMap planned) database))
     (enumerated localDatabases) ()))) (\<lambda>_. kept us d C UNIV) (\<lambda>_. kept us d C UNIV)"
    unfolding keeps_def .
qed

lemma kept_handleChanges:
  assumes "has (planned_databases plan) d \<or> take 1 d = ''_''"
    and "\<And>c. c \<in> C \<Longrightarrow> take 1 c = ''_'' \<or> has (planned_shards plan) d \<and> map_of (getShardMap (planned_shards plan)) c = Some (JStr us)"
  shows "keeps (kept us d C UNIV) (handleChanges E plan)"
  using assms unfolding planned_databases_def planned_shards_def
  by (intro kept_any.handleChanges kept_rules) auto

lemma triple_agencyGet: "triple (\<lambda>s. P s \<and> s = s0) (agencyGet E key) (\<lambda>r s. r = below key s0 \<and> P s0 \<and> s = s0\<lparr>n_history := n_history s0 @ [(AgencyGet key, True)]\<rparr>)
   (\<lambda>_ s. P s0 \<and> s = s0\<lparr>n_history := n_history s0 @ [(AgencyGet key, False)]\<rparr>)"
  unfolding agencyGet_def by (rule triple_native) auto

text \<open>
  C36: Whatever calls fail, a server keeps its system databases and the planned ones, and in
  them the system collections and the shards that the plan assigns to it.
\<close>

theorem planned_data_stays:
  assumes "handlePlanChange E s = (r, t)"
    and "has (planned_databases (below ''Plan'' s)) d \<or> take 1 d = ''_''" "d \<in> names (n_databases s)"
  shows "d \<in> names (n_databases t) \<and>
    (\<forall>c \<in> shards_in (n_databases s) d. take 1 c = ''_'' \<or>
        has (planned_shards (below ''Plan'' s)) d
        \<and> map_of (getShardMap (planned_shards (below ''Plan'' s))) c = Some (JStr (n_self s))
      \<longrightarrow> c \<in> shards_in (n_databases t) d)"
proof (cases "\<not> isCluster s \<or> isCoordinator s")
  case True
  with assms show ?thesis by (simp add: handlePlanChange_def returns_def)
next
  case False
  define C where "C = {c \<in> shards_in (n_databases s) d. take 1 c = ''_'' \<or>
        has (planned_shards (below ''Plan'' s)) d
        \<and> map_of (getShardMap (planned_shards (below ''Plan'' s))) c = Some (JStr (n_self s))}"
  let ?K = "kept (n_self s) d C UNIV"
  have start: "?K s" using assms by (auto simp: kept_def view_def C_def)
  have hist: "?K (s\<lparr>n_history := h\<rparr>)" for h using start by (simp add: kept_def view_def)
  have changes: "keeps ?K (handleChanges E (below ''Plan'' s))"
    by (rule kept_handleChanges) (use assms in \<open>auto simp: C_def\<close>)
  have rest: "keeps ?K (and_then (agencyGet E ''Current'') (\<lambda>_. handleChanges E (below ''Plan'' s)))"
    by (intro keeps_rules kept_rules changes)
  have "?K t"
  proof (cases "agencyGet E ''Plan'' s")
    case (Pair r0 s0)
    show ?thesis
    proof (cases r0)
      case (Inl e)
      with Pair False assms(1) tripleD(2) [OF triple_agencyGet [where P = "\<lambda>_. True"], of s s E "''Plan''" e s0] hist
      show ?thesis by (auto simp: handlePlanChange_def act_eval)
    next
      case (Inr plan)
      with Pair tripleD(1) [OF triple_agencyGet [where P = "\<lambda>_. True"], of s s E "''Plan''" plan s0]
      have plan: "plan = below ''Plan'' s" and s0: "?K s0" by (auto intro: hist)
      obtain r1 t1 where run: "and_then (agencyGet E ''Current'') (\<lambda>_. handleChanges E plan) s0 = (r1, t1)"
        by fastforce
      with rest plan s0 have "?K t1" by (auto dest: keepsD)
      with run Pair Inr False assms(1) show ?thesis
        by (cases r1) (auto simp: handlePlanChange_def try_catch_def and_then_def [of _ _ s] returns_def)
    qed
  qed
  then show ?thesis by (auto simp: kept_def view_def C_def)
qed

theorem planned_data_stays_witness:
  "''s1'' \<in> shards_in (n_databases (snd (handlePlanChange (example_environment (\<lambda>_ c. if c = CreateDatabase ''x'' then Some TypeError else None))
      (example_node [(''_system'', []), (''a'', [example_shard ''s1'', example_shard ''s2''])])))) ''a''"
proof -
  let ?E = "example_environment (\<lambda>_ c. if c = CreateDatabase ''x'' then Some TypeError else None)"
  let ?s = "example_node [(''_system'', []), (''a'', [example_shard ''s1'', example_shard ''s2''])]"
  have "has (planned_databases (below ''Plan'' ?s)) ''a''" "''a'' \<in> names (n_databases ?s)" "''s1'' \<in> shards_in (n_databases ?s) ''a''"
    "has (planned_shards (below ''Plan'' ?s)) ''a''"
    "map_of (getShardMap (planned_shards (below ''Plan'' ?s))) ''s1'' = Some (JStr (n_self ?s))"
    by code_simp+
  then show ?thesis
    using planned_data_stays [of ?E ?s "fst (handlePlanChange ?E ?s)" "snd (handlePlanChange ?E ?s)" "''a''"] by simp
qed

subsection \<open>The write lock\<close>

text \<open>
  What a history of calls says of the lock: \<open>None\<close> when the agency was written without the lock, or
  the lock was taken twice or given back without being held, otherwise whether it is held.
\<close>

fun lock_step :: "native_call \<times> bool \<Rightarrow> bool option \<Rightarrow> bool option" where
  "lock_step (LockWrite _ _ _, ok) (Some held) = (if ok then if held then None else Some True else Some held)"
| "lock_step (UnlockWrite _ _, ok) (Some held) = (if held then Some (\<not> ok) else None)"
| "lock_step (AgencySet _ _, _) (Some held) = (if held then Some held else None)"
| "lock_step (AgencyRemove _, _) (Some held) = (if held then Some held else None)"
| "lock_step (IncreaseVersion _, _) (Some held) = (if held then Some held else None)"
| "lock_step _ l = l"

definition lock_after :: "history \<Rightarrow> bool option" where
  "lock_after h = fold lock_step h (Some False)"

definition unlock_failed :: "history \<Rightarrow> bool" where
  "unlock_failed h \<longleftrightarrow> (\<exists>part timeout. (UnlockWrite part timeout, False) \<in> set h)"

definition calm :: "node \<Rightarrow> bool" where
  "calm s \<longleftrightarrow> lock_after (n_history s) = Some False \<and> \<not> n_locked s"

definition held :: "node \<Rightarrow> bool" where
  "held s \<longleftrightarrow> lock_after (n_history s) = Some True \<and> n_locked s"

definition left_over :: "node \<Rightarrow> bool" where
  "left_over s \<longleftrightarrow> calm s \<or> held s \<and> unlock_failed (n_history s)"

definition locks :: "(node, 'a) statement \<Rightarrow> bool" where
  "locks m \<longleftrightarrow> triple calm m (\<lambda>_. calm) (\<lambda>_. left_over)"

definition plain :: "native_call \<Rightarrow> bool" where
  "plain c \<longleftrightarrow> (\<forall>ok held. lock_step (c, ok) (Some held) = Some held)"

lemma plain_calls [simp]:
  "plain (UseDatabase x)" "plain ListDatabases" "plain (CreateDatabase x)" "plain (DropDatabase x)" "plain Collections"
  "plain (CreateCollection x y)" "plain (DropCollection x y)" "plain (LoadCollection x y)" "plain (UnloadCollection x y)"
  "plain (ChangeProperties x y z)" "plain (GetIndexes x y)" "plain (EnsureIndex x y i)" "plain (DropIndex x y i)"
  "plain (AgencyGet x)"
  by (auto simp: plain_def)

lemma lock_after_snoc [simp]: "lock_after (h @ [e]) = lock_step e (lock_after h)"
  by (simp add: lock_after_def)

lemma plain_native:
  assumes "plain c" "\<And>s. n_locked (effect s) = n_locked s"
  shows "keeps calm (native E c refuse result effect)" "keeps left_over (native E c refuse result effect)"
  unfolding keeps_def by (rule triple_native; use assms in \<open>auto simp: calm_def held_def left_over_def plain_def unlock_failed_def\<close>)+

named_theorems locks_rules

lemma plain_on_collection: "\<forall>d. plain (call d) \<Longrightarrow> keeps calm (on_collection E call c result effect)"
  unfolding keeps_def by (rule triple_on_collection) (auto simp: calm_def plain_def)

lemma calm_calls [locks_rules]:
  "keeps calm (useDatabase E x)" "keeps calm (createDatabase E x)" "keeps calm (dropDatabase E x)"
  "keeps calm (load E c)" "keeps calm (unload E c)" "keeps calm (change_properties E c props)"
  "keeps calm (getIndexes E c)" "keeps calm (ensureIndex E c index)" "keeps calm (dropIndex E c index)"
  "keeps calm (agencyGet E key)" "keeps calm (listDatabases E)" "keeps calm (db_collections E)"
  unfolding useDatabase_def createDatabase_def dropDatabase_def load_def unload_def change_properties_def
    getIndexes_def ensureIndex_def dropIndex_def agencyGet_def listDatabases_def db_collections_def
  by (rule plain_native plain_on_collection, simp, simp?)+

lemma calm_db_create [locks_rules]: "keeps calm (db_create E edge c payload)" "keeps calm (db_drop E c)"
  unfolding keeps_def triple_def db_create_def db_drop_def native_def
  by (auto simp: calm_def split: option.splits)

lemma left_over_use: "keeps left_over (useDatabase E x)"
  unfolding useDatabase_def by (rule plain_native) auto

lemma locksI: "keeps calm m \<Longrightarrow> locks m"
  unfolding keeps_def locks_def by (erule triple_weaken) (auto simp: left_over_def)

lemma locks_chain [locks_rules]: "locks m \<Longrightarrow> (\<And>a. locks (f a)) \<Longrightarrow> locks (and_then m f)"
  unfolding locks_def by (rule triple_chain)

lemma locks_for_each [locks_rules]: "(\<And>x acc. x \<in> set xs \<Longrightarrow> locks (f x acc)) \<Longrightarrow> locks (for_each f xs acc)"
  unfolding locks_def by (rule triple_for_each)

lemma locks_try [locks_rules]: "keeps calm m \<Longrightarrow> (\<And>e. locks (h e)) \<Longrightarrow> locks (try_catch m h)"
  unfolding locks_def keeps_def by (rule triple_try)

lemma locks_if [locks_rules]: "locks m \<Longrightarrow> locks n \<Longrightarrow> locks (if c then m else n)"
  by simp

lemma locks_pair [locks_rules]: "(\<And>a b. p = (a, b) \<Longrightarrow> locks (f a b)) \<Longrightarrow> locks (case p of (a, b) \<Rightarrow> f a b)"
  by (cases p) simp

lemma locks_pair_arg [locks_rules]: "(\<And>a b. p = (a, b) \<Longrightarrow> locks (f a b x)) \<Longrightarrow> locks ((case p of (a, b) \<Rightarrow> f a b) x)"
  by (cases p) simp

lemma locks_option [locks_rules]: "locks m \<Longrightarrow> (\<And>a. locks (f a)) \<Longrightarrow> locks (case x of None \<Rightarrow> m | Some a \<Rightarrow> f a)"
  by (cases x) auto


lemma locks_basic [locks_rules]: "locks (returns a)" "locks (throws e)" "locks (reads f)"
  by (rule locksI, rule keeps_basic)+

lemma held_agency:
  "keeps held (agencySet E key payload)" "keeps held (agencyRemove E key)" "keeps held (increaseVersion E key)"
  unfolding agencySet_def agencyRemove_def increaseVersion_def keeps_def
  by (rule triple_native; auto simp: held_def)+

lemma held_unlock:
  "triple held (unlockWrite E part timeout) (\<lambda>_. calm) (\<lambda>_ s. held s \<and> unlock_failed (n_history s))"
  unfolding unlockWrite_def by (rule triple_native) (auto simp: held_def calm_def unlock_failed_def)

text \<open>The lock is given back on every path, or both attempts to give it back failed.\<close>

lemma locks_writeLocked [locks_rules]:
  assumes "keeps held cb"
  shows "locks (writeLocked E part timeout ttl cb)"
  unfolding writeLocked_def Let_def locks_def
proof (rule triple_chain [where R = "\<lambda>_. held"], goal_cases)
  case 1
  show ?case unfolding lockWrite_def
    by (rule triple_native) (auto simp: held_def calm_def left_over_def)
next
  case (2 a)
  have body: "triple held (and_then cb (\<lambda>_. and_then (increaseVersion E (part @ ''/Version'')) (\<lambda>_. unlockWrite E part to)))
      (\<lambda>_. calm) (\<lambda>_. held)" for to
    using assms held_agency(3)
    by (intro triple_chain [where R = "\<lambda>_. held"] triple_weaken [OF held_unlock]) (auto simp: keeps_def)
  have handler: "triple held (and_then (unlockWrite E part to) (\<lambda>_. throws e)) (\<lambda>_. calm) (\<lambda>_. left_over)" for to e
    by (rule triple_chain [where R = "\<lambda>_. left_over"], rule triple_weaken [OF held_unlock]) (auto simp: left_over_def)
  show ?case by (rule triple_try [OF body handler])
qed

lemma locks_queries [locks_rules]:
  "locks (getLocalDatabases E)" "locks (getLocalCollections E)" "locks (getIndexMap E shard)"
  unfolding getLocalDatabases_def getLocalCollections_def getIndexMap_def
  by (intro locks_rules locksI [OF calm_calls(11)] locksI [OF calm_calls(12)] locksI [OF calm_calls(7)])+

lemma held_writers [keeps_rules]:
  "keeps held (dropDatabaseAgency E o1 x)" "keeps held (dropCollectionAgency E x y z)"
  "keeps held (agencySet E key payload)"
  unfolding dropDatabaseAgency_def dropCollectionAgency_def
  by (intro keeps_rules held_agency)+

lemma locks_report [locks_rules]: "locks (report_collection E x y payload)"
  unfolding report_collection_def by (intro locks_rules keeps_rules)

lemmas calm_steps = keeps_chain keeps_basic keeps_if calm_calls calm_db_create

lemma locks_handle_shard [locks_rules]: "locks (handle_shard E ourselves database local sh payload)"
  unfolding handle_shard_def create_shard_def update_status_def update_properties_def create_indexes_def
    drop_indexes_def Let_def
  by (intro locks_rules calm_steps | rule locksI)+

lemma locks_in_database [locks_rules]:
  assumes "locks act"
  shows "locks (in_database E x act)"
proof -
  have handler: "triple left_over (and_then (useDatabase E y) (\<lambda>_. throws e)) (\<lambda>_. calm) (\<lambda>_. left_over)" for y e
    by (rule triple_chain [where R = "\<lambda>_. left_over"]) (use left_over_use in \<open>auto simp: keeps_def\<close>)
  have "locks (try_catch act (\<lambda>err. and_then (useDatabase E y) (\<lambda>_. throws err)))" for y
    unfolding locks_def by (rule triple_try [OF assms [unfolded locks_def] handler])
  then show ?thesis unfolding in_database_def
    by (intro locks_chain locks_basic) (auto intro: locksI calm_calls)
qed

lemma locks_handleChanges: "locks (handleChanges E plan)"
  unfolding handleChanges_def handleDatabaseChanges_def handleCollectionChanges_def createLocalDatabases_def
    dropLocalDatabases_def cleanupCurrentDatabases_def createLocalCollections_def dropLocalCollections_def
    create_in_database_def drop_in_database_def handle_collection_def cleanupCurrentCollections_def Let_def
  by (intro locks_rules keeps_rules calm_steps | rule locksI)+

text \<open>
  C39: From an unlocked agency, whatever calls fail: the agency is written under the write lock only, the
  lock is never taken twice nor given back when it is not held, and it is still held in the end
  only if giving it back has failed.
\<close>

theorem writes_are_locked:
  assumes "handlePlanChange E s = (r, t)" "n_history s = []" "\<not> n_locked s"
  shows "lock_after (n_history t) = Some (n_locked t) \<and> (n_locked t \<longrightarrow> unlock_failed (n_history t))"
proof -
  have start: "calm s" using assms by (simp add: calm_def lock_after_def)
  have "locks (and_then (agencyGet E ''Plan'') (\<lambda>plan. and_then (agencyGet E ''Current'') (\<lambda>_. handleChanges E plan)))"
    by (intro locks_rules locks_handleChanges locksI [OF calm_calls(10)])
  then have "triple calm (and_then (agencyGet E ''Plan'') (\<lambda>plan. and_then (agencyGet E ''Current'') (\<lambda>_. handleChanges E plan)))
     (\<lambda>_. left_over) (\<lambda>_. left_over)"
    unfolding locks_def by (rule triple_weaken) (auto simp: left_over_def)
  then have "triple calm (try_catch (and_then (agencyGet E ''Plan'') (\<lambda>plan. and_then (agencyGet E ''Current'') (\<lambda>_. handleChanges E plan)))
     (\<lambda>_. returns ())) (\<lambda>_. left_over) (\<lambda>_. left_over)"
    by (rule triple_try) auto
  then have "left_over t"
    using assms(1) start by (cases r) (auto simp: handlePlanChange_def triple_def returns_def left_over_def split: if_splits)
  then show ?thesis by (auto simp: left_over_def calm_def held_def)
qed

theorem writes_are_locked_witness:
  "lock_after (n_history (snd (handlePlanChange (example_environment (\<lambda>h c. if length h = 9 then Some TypeError else None))
      (example_node [(''_system'', [])])))) \<noteq> None"
  using writes_are_locked [of "example_environment (\<lambda>h c. if length h = 9 then Some TypeError else None)"
      "example_node [(''_system'', [])]" "fst (handlePlanChange (example_environment (\<lambda>h c. if length h = 9 then Some TypeError else None))
      (example_node [(''_system'', [])]))"]
  by (simp add: example_node_def)

end
