(* ===== verification/Cluster_Faults.thy ===== *)
theory Cluster_Faults
  imports Cluster_Safety
begin

text \<open>
  A shard that cannot be created. The code records the error in the payload and means to go on, but
  then asks the collection that does not exist for its indexes.
\<close>

definition drops :: "native_call \<Rightarrow> bool" where
  "drops c \<longleftrightarrow> (case c of DropCollection _ _ \<Rightarrow> True | _ \<Rightarrow> False)"

definition undropped :: "node \<Rightarrow> bool" where
  "undropped s \<longleftrightarrow> (\<forall>e \<in> set (n_history s). \<not> drops (fst e))"

text \<open>The creation of \<open>c\<close> in \<open>d\<close> is a call that always fails, and there is no such collection.\<close>

definition rejects :: "environment \<Rightarrow> string \<Rightarrow> string \<Rightarrow> bool" where
  "rejects E d c \<longleftrightarrow> (\<forall>h. faults E h (CreateCollection d c) \<noteq> None)"

definition lost :: "environment \<Rightarrow> string \<Rightarrow> string \<Rightarrow> string \<Rightarrow> string set \<Rightarrow> node \<Rightarrow> bool" where
  "lost E us d c U s \<longleftrightarrow> (rejects E d c \<and> view (\<lambda>m N S u. m = us \<and> d \<in> N \<and> c \<notin> S d \<and> u \<in> U) s) \<and> undropped s"

named_theorems lost_rules

lemma undropped_native:
  assumes "\<not> drops call" "\<And>s. n_history (effect s) = n_history s"
  shows "keeps undropped (native E call refuse result effect)"
  unfolding keeps_def by (rule triple_native) (use assms in \<open>auto simp: undropped_def\<close>)

lemma undropped_on_collection:
  assumes "\<And>d. \<not> drops (call d)"
  shows "keeps undropped (on_collection E call c result effect)"
  unfolding keeps_def by (rule triple_on_collection) (use assms in \<open>auto simp: undropped_def\<close>)

lemma undropped_calls [lost_rules]:
  "keeps undropped (useDatabase E x)" "keeps undropped (createDatabase E x)" "keeps undropped (dropDatabase E x)"
  "keeps undropped (load E c)" "keeps undropped (unload E c)" "keeps undropped (change_properties E c props)"
  "keeps undropped (getIndexes E c)" "keeps undropped (ensureIndex E c index)" "keeps undropped (dropIndex E c index)"
  "keeps undropped (agencyGet E key)" "keeps undropped (listDatabases E)" "keeps undropped (db_collections E)"
  "keeps undropped (agencySet E key payload)" "keeps undropped (agencyRemove E key)"
  "keeps undropped (increaseVersion E key)" "keeps undropped (lockWrite E part ttl timeout)"
  "keeps undropped (unlockWrite E part timeout)"
  unfolding useDatabase_def createDatabase_def dropDatabase_def load_def unload_def change_properties_def
    getIndexes_def ensureIndex_def dropIndex_def agencyGet_def listDatabases_def db_collections_def
    agencySet_def agencyRemove_def increaseVersion_def lockWrite_def unlockWrite_def
  by (rule undropped_native undropped_on_collection, simp add: drops_def, simp?)+

lemma lost_conj: "(rejects E d c \<Longrightarrow> keeps (view (\<lambda>m N S u. m = us \<and> d \<in> N \<and> c \<notin> S d \<and> u \<in> U)) m) \<Longrightarrow> keeps undropped m
    \<Longrightarrow> keeps (lost E us d c U) m"
  by (auto simp: lost_def keeps_iff)

lemma lost_calls [lost_rules]:
  "keeps (lost E us d c U) (createDatabase E x)" "x \<noteq> d \<Longrightarrow> keeps (lost E us d c U) (dropDatabase E x)"
  "keeps (lost E us d c U) (load E sh)" "keeps (lost E us d c U) (unload E sh)"
  "keeps (lost E us d c U) (change_properties E sh props)" "keeps (lost E us d c U) (getIndexes E sh)"
  "keeps (lost E us d c U) (ensureIndex E sh index)" "keeps (lost E us d c U) (dropIndex E sh index)"
  by (rule lost_conj, rule keeps_view, rule view_rules, (auto)[1], rule lost_rules)+

lemma lost_use [lost_rules]: "x \<in> U \<Longrightarrow> keeps (lost E us d c U) (useDatabase E x)"
  by (rule lost_conj, rule keeps_view, rule view_rules, (auto)[1], rule lost_rules)

lemma lost_agency [lost_rules]:
  "keeps (lost E us d c U) (agencyGet E key)" "keeps (lost E us d c U) (agencySet E key payload)"
  "keeps (lost E us d c U) (agencyRemove E key)" "keeps (lost E us d c U) (lockWrite E part ttl timeout)"
  "keeps (lost E us d c U) (unlockWrite E part timeout)" "keeps (lost E us d c U) (increaseVersion E key)"
  "keeps (lost E us d c U) (listDatabases E)" "keeps (lost E us d c U) (db_collections E)"
  by (rule lost_conj, simp only: agencyGet_def agencySet_def agencyRemove_def lockWrite_def unlockWrite_def
      increaseVersion_def listDatabases_def db_collections_def, rule kept_native, simp add: view_def, rule lost_rules)+

lemma lost_create [lost_rules]: "keeps (lost E us d c U) (db_create E edge sh payload)"
  unfolding keeps_iff db_create_def native_def
  by (auto simp: lost_def view_def undropped_def drops_def rejects_def shards_in_add split: option.splits)
    (metis option.distinct(1))

interpretation lost: calls_invariant E "lost E us d c U" for E us d c U
  by unfold_locales (rule lost_rules)+


subsection \<open>The functions that do not return\<close>















end
