(* ===== verification/Cluster_Applied.thy ===== *)
theory Cluster_Applied
  imports Cluster_Invariant
begin

text \<open>
  The plan change when no call fails: what the server has afterwards. All statements are over the view
  of the node; \<open>totally\<close> is total correctness under the hypothesis that calls fail only when the
  node refuses them, from a node that does not hold the write lock.
\<close>

definition faultless :: "environment \<Rightarrow> bool" where
  "faultless E \<longleftrightarrow> (\<forall>h c. faults E h c = None)"

definition idle :: "(string \<Rightarrow> string set \<Rightarrow> (string \<Rightarrow> string set) \<Rightarrow> string \<Rightarrow> bool) \<Rightarrow> node \<Rightarrow> bool" where
  "idle P s \<longleftrightarrow> \<not> n_locked s \<and> view P s"

definition totally :: "environment \<Rightarrow> (string \<Rightarrow> string set \<Rightarrow> (string \<Rightarrow> string set) \<Rightarrow> string \<Rightarrow> bool)
    \<Rightarrow> (node, 'a) statement \<Rightarrow> ('a \<Rightarrow> string \<Rightarrow> string set \<Rightarrow> (string \<Rightarrow> string set) \<Rightarrow> string \<Rightarrow> bool) \<Rightarrow> bool" where
  "totally E P m Q \<longleftrightarrow> (faultless E \<longrightarrow> triple (idle P) m (\<lambda>a. idle (Q a)) (\<lambda>_ _. False))"

lemma quiet_native:
  assumes "faultless E"
    and "\<And>s. P s \<Longrightarrow> refuse s = None \<Longrightarrow> Q (result s) ((effect s)\<lparr>n_history := n_history s @ [(c, True)]\<rparr>)"
    and "\<And>s e. P s \<Longrightarrow> refuse s = Some e \<Longrightarrow> X e (s\<lparr>n_history := n_history s @ [(c, False)]\<rparr>)"
  shows "triple P (native E c refuse result effect) Q X"
  using assms by (auto simp: triple_def native_def faultless_def split: option.splits)

subsection \<open>Rules\<close>

named_theorems total_rules

lemma total_returns: "(\<And>m N S u. P m N S u \<Longrightarrow> Q a m N S u) \<Longrightarrow> totally E P (returns a) Q"
  by (auto simp: totally_def idle_def view_def)

lemma total_chain: "totally E P m R \<Longrightarrow> (\<And>a. totally E (R a) (f a) Q) \<Longrightarrow> totally E P (and_then m f) Q"
  unfolding totally_def by (blast intro: triple_chain)

lemma total_weaken:
  "totally E P' m Q' \<Longrightarrow> (\<And>m N S u. P m N S u \<Longrightarrow> P' m N S u) \<Longrightarrow> (\<And>a m N S u. Q' a m N S u \<Longrightarrow> Q a m N S u)
     \<Longrightarrow> totally E P m Q"
  unfolding totally_def by (auto elim!: triple_weaken simp: idle_def view_def)

lemma total_if: "(c \<Longrightarrow> totally E P m Q) \<Longrightarrow> (\<not> c \<Longrightarrow> totally E P n Q) \<Longrightarrow> totally E P (if c then m else n) Q"
  by simp

lemma total_given: "(A \<Longrightarrow> totally E P m Q) \<Longrightarrow> totally E (\<lambda>m N S u. P m N S u \<and> A) m Q"
  unfolding totally_def idle_def view_def triple_def by simp

lemma total_self:
  "(\<And>m N S u. P m N S u \<Longrightarrow> m = us) \<Longrightarrow> (\<And>x. x = us \<Longrightarrow> totally E P (f x) Q) \<Longrightarrow> totally E P (and_then (reads n_self) f) Q"
  unfolding totally_def by (auto intro!: triple_read_known [where a = us] simp: idle_def view_def)

lemma total_using:
  "(\<And>x. totally E P (f x) Q) \<Longrightarrow> totally E P (and_then (reads n_using) f) Q"
  unfolding totally_def by (auto simp: triple_def and_then_def reads_def)

lemma total_try: "totally E P m Q \<Longrightarrow> totally E P (try_catch m h) Q"
  unfolding totally_def by (intro impI triple_try [where R = "\<lambda>_ _. False"]) auto

lemma total_for_each_visited:
  assumes "\<And>ys x zs acc. xs = ys @ x # zs \<Longrightarrow> totally E (I ys) (f x acc) (\<lambda>_. I (ys @ [x]))"
  shows "totally E (I []) (for_each f xs acc) (\<lambda>_. I xs)"
  using assms unfolding totally_def
  by (auto intro!: triple_for_each_visited [where I = "\<lambda>ys _. idle (I ys)"])

lemma total_for_each:
  "(\<And>x acc. x \<in> set xs \<Longrightarrow> totally E P (f x acc) (\<lambda>_. P)) \<Longrightarrow> totally E P (for_each f xs acc) (\<lambda>_. P)"
  by (rule total_for_each_visited [where I = "\<lambda>_. P"]) auto

lemma total_result:
  fixes r :: "js_exc + unit"
  assumes "totally E P m (\<lambda>_. Q)" "idle P s" "m s = (r, t)" "faultless E"
  shows "r = Inr () \<and> idle Q t"
  using assms by (cases r) (auto simp: totally_def triple_def)

subsection \<open>Calls\<close>

lemma total_use:
  "(\<And>m N S u. P m N S u \<Longrightarrow> d \<in> N \<and> Q () m N S d) \<Longrightarrow> totally E P (useDatabase E d) Q"
  unfolding totally_def useDatabase_def by (auto intro!: quiet_native simp: idle_def view_def)

lemma total_create_database:
  "(\<And>m N S u. P m N S u \<Longrightarrow> (if d \<in> N then Q m N S u else Q m (insert d N) (S(d := lc_name ` set (system_collections E))) u))
     \<Longrightarrow> totally E P (try_catch (and_then (createDatabase E d) (\<lambda>_. returns a)) (\<lambda>err. returns (g err))) (\<lambda>_. Q)"
  unfolding totally_def createDatabase_def
  by (intro impI triple_try [where R = "\<lambda>_. idle Q"] triple_chain [where R = "\<lambda>_. idle Q"] quiet_native triple_returns)
    (auto simp: idle_def view_def shards_in_append)

lemma total_drop_database:
  "(\<And>m N S u. P m N S u \<Longrightarrow> d \<in> N \<and> Q () m (N - {d}) (S(d := {})) u) \<Longrightarrow> totally E P (dropDatabase E d) Q"
  unfolding totally_def dropDatabase_def by (auto intro!: quiet_native simp: idle_def view_def shards_in_filter)

lemma total_create_collection:
  assumes "\<And>m N S u. P m N S u \<Longrightarrow> u \<in> N \<and> Q m N (S(u := insert c (S u))) u"
  shows "totally E P (try_catch (and_then (db_create E edge c payload) (\<lambda>_. returns a)) (\<lambda>err. returns (g err))) (\<lambda>_. Q)"
proof -
  have "c \<in> S u \<Longrightarrow> S(u := insert c (S u)) = S" for S :: "string \<Rightarrow> string set" and u
    by (simp add: insert_absorb)
  with assms show ?thesis
    unfolding totally_def triple_def db_create_def native_def try_catch_def and_then_def returns_def faultless_def
    by (auto simp: idle_def view_def shards_in_add split: option.splits) metis+
qed

lemma total_drop_collection:
  assumes "\<And>m N S u. P m N S u \<Longrightarrow> c \<in> S u \<and> Q () m N (S(u := S u - {c})) u"
  shows "totally E P (db_drop E c) Q"
  using assms unfolding totally_def triple_def db_drop_def native_def faultless_def
  by (auto simp: idle_def view_def shards_in_remove split: option.splits)

lemma total_on_collection:
  assumes "\<And>m N S u. P m N S u \<Longrightarrow> c \<in> S u"
  shows "totally E P (on_collection E call c result effect) (\<lambda>_. P)"
  using assms unfolding totally_def triple_def on_collection_def native_def faultless_def throws_def
  by (auto simp: idle_def view_def shards_in_keep split: option.splits)
    (force simp: shards_in_def find_None_iff view_def)

lemmas total_methods =
  total_on_collection [of P c E "\<lambda>d. LoadCollection d c" for P c E, folded load_def]

lemma total_queries:
  "totally E P (getLocalDatabases E) (\<lambda>r m N S u. P m N S u \<and> fst ` set r = N \<and> distinct (map fst r))"
  "totally E P (getLocalCollections E) (\<lambda>r m N S u. P m N S u \<and> fst ` set r = {c \<in> S u. take 1 c \<noteq> ''_''} \<and> distinct (map fst r))"
  "totally E P (agencyGet E key) (\<lambda>_. P)"
  unfolding totally_def getLocalDatabases_def getLocalCollections_def listDatabases_def db_collections_def agencyGet_def
  by (auto simp: triple_def and_then_def native_def returns_def faultless_def idle_def view_def names_def shards_in_def
      split: option.splits)

text \<open>What is written to the agency leaves the view as it is.\<close>

definition silent :: "environment \<Rightarrow> (node, unit) statement \<Rightarrow> bool" where
  "silent E cb \<longleftrightarrow> (faultless E \<longrightarrow> (\<forall>P. triple (\<lambda>s. n_locked s \<and> view P s) cb (\<lambda>_ s. n_locked s \<and> view P s) (\<lambda>_ _. False)))"

lemma silent_writers:
  "silent E (agencySet E key payload)" "silent E (dropDatabaseAgency E o1 x)" "silent E (dropCollectionAgency E x y z)"
  unfolding silent_def agencySet_def agencyRemove_def dropDatabaseAgency_def dropCollectionAgency_def
  by (auto simp: triple_def native_def faultless_def try_catch_def returns_def view_def split: option.splits)

lemma total_writeLocked:
  assumes "silent E cb"
  shows "totally E P (writeLocked E part timeout ttl cb) (\<lambda>_. P)"
  unfolding totally_def writeLocked_def Let_def
proof (intro impI)
  assume q: "faultless E"
  let ?H = "\<lambda>s. n_locked s \<and> view P s"
  have lock: "triple (idle P) (lockWrite E part a b) (\<lambda>_. ?H) (\<lambda>_ _. False)" for a b
    unfolding lockWrite_def by (rule quiet_native [OF q]) (auto simp: idle_def view_def)
  have cb: "triple ?H cb (\<lambda>_. ?H) (\<lambda>_ _. False)"
    using assms q by (simp add: silent_def)
  have version: "triple ?H (increaseVersion E key) (\<lambda>_. ?H) (\<lambda>_ _. False)" for key
    unfolding increaseVersion_def by (rule quiet_native [OF q]) (auto simp: view_def)
  have unlock: "triple ?H (unlockWrite E part a) (\<lambda>_. idle P) (\<lambda>_ _. False)" for a
    unfolding unlockWrite_def by (rule quiet_native [OF q]) (auto simp: idle_def view_def)
  have body: "triple ?H (and_then cb (\<lambda>_. and_then (increaseVersion E (part @ ''/Version'')) (\<lambda>_. unlockWrite E part a)))
      (\<lambda>_. idle P) (\<lambda>_ _. False)" for a
    by (rule triple_chain [OF cb triple_chain [OF version unlock]])
  show "triple (idle P) (and_then (lockWrite E part x y) (\<lambda>_. try_catch
      (and_then cb (\<lambda>_. and_then (increaseVersion E (part @ ''/Version'')) (\<lambda>_. unlockWrite E part z)))
      (\<lambda>err. and_then (unlockWrite E part z) (\<lambda>_. throws err)))) (\<lambda>_. idle P) (\<lambda>_ _. False)" for x y z
    by (rule triple_chain [OF lock triple_try [OF body]]) simp
qed

subsection \<open>Dropping what is not planned\<close>

text \<open>
  Dropping what is not planned, as an interface: a set of things is present, and one that is
  present can be dropped. The loop over the listed things leaves those that are to stay.
\<close>

locale dropping =
  fixes E :: environment and present :: "string set \<Rightarrow> string \<Rightarrow> string set \<Rightarrow> (string \<Rightarrow> string set) \<Rightarrow> string \<Rightarrow> bool"
    and drop_one :: "string \<Rightarrow> jsobj \<Rightarrow> (node, unit) statement"
  assumes drop_one: "k \<in> K \<Longrightarrow> totally E (present K) (drop_one k v) (\<lambda>_. present (K - {k}))"
begin

lemma drop_some:
  assumes "distinct (map fst xs)" "fst ` set xs \<subseteq> K"
  shows "totally E (present K) (for_each (\<lambda>(k, v) _. if P k then drop_one k v else returns ()) (enumerated xs) ())
     (\<lambda>_. present (K - {k \<in> fst ` set xs. P k}))"
proof -
  have d: "distinct (map fst (enumerated xs))" using assms(1)
    by (metis card_distinct distinct_card length_map mset_enumerated mset_map set_mset_mset size_mset)
  have "totally E (present (K - {k \<in> fst ` set ([] :: (string \<times> jsobj) list). P k}))
     (for_each (\<lambda>(k, v) _. if P k then drop_one k v else returns ()) (enumerated xs) ())
     (\<lambda>_. present (K - {k \<in> fst ` set (enumerated xs). P k}))"
  proof (rule total_for_each_visited [where I = "\<lambda>ys :: (string \<times> jsobj) list. present (K - {k \<in> fst ` set ys. P k})"])
    fix ys x zs and acc :: unit assume xs: "enumerated xs = ys @ x # zs"
    obtain k v where x: "x = (k, v)" by fastforce
    have "(k, v) \<in> set xs" unfolding set_enumerated [of xs, symmetric] xs x by simp
    then have "k \<in> K" using assms(2) image_eqI [of k fst "(k, v)" "set xs"] by auto
    moreover have "k \<notin> fst ` set ys" using d unfolding xs x by auto
    ultimately have k: "k \<in> K" "k \<notin> fst ` set ys" .
    have "P k \<Longrightarrow> K - {k \<in> fst ` set (ys @ [x]). P k} = K - {k \<in> fst ` set ys. P k} - {k}"
      "\<not> P k \<Longrightarrow> K - {k \<in> fst ` set (ys @ [x]). P k} = K - {k \<in> fst ` set ys. P k}"
      by (auto simp: x)
    with k show "totally E (present (K - {k \<in> fst ` set ys. P k})) ((case x of (k, v) \<Rightarrow> \<lambda>_. if P k then drop_one k v else returns ()) acc)
        (\<lambda>_. present (K - {k \<in> fst ` set (ys @ [x]). P k}))"
      by (auto simp: x intro!: total_if drop_one total_returns)
  qed
  then show ?thesis by simp
qed

end

subsection \<open>Databases\<close>

text \<open>The server \<open>us\<close> has the databases \<open>K\<close>, and in \<open>x\<close> the collections \<open>F x\<close>.\<close>

definition having :: "string \<Rightarrow> string set \<Rightarrow> (string \<Rightarrow> string set) \<Rightarrow> string \<Rightarrow> string set \<Rightarrow> (string \<Rightarrow> string set) \<Rightarrow> string \<Rightarrow> bool" where
  "having us K F m N S u \<longleftrightarrow> m = us \<and> N = K \<and> (\<forall>x. S x = (if x \<in> K then F x else {}))"

lemma having_cong: "K = L \<Longrightarrow> (\<And>x. x \<in> K \<Longrightarrow> F x = G x) \<Longrightarrow> having us K F = having us L G"
  by (auto simp: having_def fun_eq_iff)

definition drop_planned :: "environment \<Rightarrow> string \<Rightarrow> string \<Rightarrow> jsobj \<Rightarrow> (node, unit) statement" where
  "drop_planned E us name v = and_then (dropDatabase E name) (\<lambda>_.
     writeLocked E ''Current'' None None (dropDatabaseAgency E us name))"

interpretation databases: dropping E "\<lambda>K. having us K F" "drop_planned E us" for E us F
proof unfold_locales
  fix k :: string and K v
  assume "k \<in> K"
  then show "totally E (having us K F) (drop_planned E us k v) (\<lambda>_. having us (K - {k}) F)"
    unfolding drop_planned_def having_def
    by (intro total_chain [OF total_drop_database total_writeLocked]) (auto intro: silent_writers)
qed

definition names_match :: "(string \<times> jsobj) list \<Rightarrow> bool" where
  "names_match planned \<longleftrightarrow> (\<forall>(name, payload) \<in> set planned. obj_get payload ''name'' = JStr name)"

definition created_too :: "environment \<Rightarrow> string set \<Rightarrow> (string \<Rightarrow> string set) \<Rightarrow> string \<Rightarrow> string set" where
  "created_too E K F x = (if x \<in> K then F x else lc_name ` set (system_collections E))"

lemma total_create_or_not:
  assumes "\<And>m N S u. P m N S u \<Longrightarrow> (if d \<in> N then Q m N S u else Q m (insert d N) (S(d := lc_name ` set (system_collections E))) u)"
    and "\<not> c \<Longrightarrow> \<forall>m N S u. P m N S u \<longrightarrow> Q m N S u"
  shows "totally E P (if c then try_catch (and_then (createDatabase E d) (\<lambda>_. returns a)) (\<lambda>err. returns (g err)) else returns b) (\<lambda>_. Q)"
  by (rule total_if, rule total_create_database, rule assms(1), assumption, rule total_returns) (use assms(2) in blast)

lemma total_use_system:
  "''_system'' \<in> K \<Longrightarrow> totally E (having us K F) (useDatabase E ''_system'') (\<lambda>_. having us K F)"
  by (rule total_use) (auto simp: having_def)

lemma total_self_having:
  "(\<And>x. x = us \<Longrightarrow> totally E (having us K F) (f x) Q) \<Longrightarrow> totally E (having us K F) (and_then (reads n_self) f) Q"
  by (rule total_self [where us = us]) (auto simp: having_def)

lemma total_local_databases:
  assumes "\<And>r. distinct (map fst r) \<Longrightarrow> fst ` set r = K \<Longrightarrow> totally E (having us K F) (f r) Q"
  shows "totally E (having us K F) (and_then (getLocalDatabases E) f) Q"
proof (rule total_chain)
  show "totally E (having us K F) (getLocalDatabases E)
     (\<lambda>r m N S u. having us K F m N S u \<and> (fst ` set r = K \<and> distinct (map fst r)))"
    by (rule total_weaken [OF total_queries(1) [where P = "having us K F"]]) (auto simp: having_def)
  show "totally E (\<lambda>m N S u. having us K F m N S u \<and> (fst ` set r = K \<and> distinct (map fst r))) (f r) Q" for r
    by (rule total_given, elim conjE, rule assms)
qed

lemma total_createLocalDatabases:
  assumes "names_match planned" "''_system'' \<in> K"
  shows "totally E (having us K F) (createLocalDatabases E planned)
     (\<lambda>_. having us (K \<union> fst ` set planned) (created_too E K F))"
  unfolding createLocalDatabases_def
proof (rule total_self_having, rule total_chain [OF total_use_system [OF assms(2)]], rule total_local_databases)
  fix o1 and local :: "(string \<times> jsobj) list"
  assume local: "fst ` set local = K"
  let ?I = "\<lambda>ys :: (string \<times> jsobj) list. having us (K \<union> fst ` set ys) (created_too E K F)"
  have "totally E (?I []) (for_each (\<lambda>(name, payload) _.
       and_then (if \<not> has local name
              then try_catch
                (and_then (createDatabase E (js_string (obj_get payload ''name''))) (\<lambda>_. returns (no_error payload)))
                (\<lambda>err. returns (with_error err (no_error payload)))
              else returns (no_error payload)) (\<lambda>payload.
       writeLocked E ''Current'' None None
         (agencySet E (''Current/Databases/'' @ js_string (obj_get payload ''name'') @ ''/'' @ o1) payload)))
     (enumerated planned) ()) (\<lambda>_. ?I (enumerated planned))"
  proof (rule total_for_each_visited [where I = ?I])
    fix ys x zs and acc :: unit assume xs: "enumerated planned = ys @ x # zs"
    obtain name payload where x: "x = (name, payload)" by fastforce
    have "(name, payload) \<in> set planned" unfolding set_enumerated [of planned, symmetric] xs x by simp
    with assms have name: "js_string (obj_get payload ''name'') = name" by (auto simp: names_match_def)
    have "totally E (?I ys) (if \<not> has local name
              then try_catch
                (and_then (createDatabase E name) (\<lambda>_. returns (no_error payload)))
                (\<lambda>err. returns (with_error err (no_error payload)))
              else returns (no_error payload)) (\<lambda>_. ?I (ys @ [x]))"
      by (rule total_create_or_not) (auto simp: x having_def created_too_def has_iff local)
    from total_chain [OF this total_writeLocked [OF silent_writers(1)]]
    show "totally E (?I ys) ((case x of (name, payload) \<Rightarrow> \<lambda>_.
       and_then (if \<not> has local name
              then try_catch
                (and_then (createDatabase E (js_string (obj_get payload ''name''))) (\<lambda>_. returns (no_error payload)))
                (\<lambda>err. returns (with_error err (no_error payload)))
              else returns (no_error payload)) (\<lambda>payload.
       writeLocked E ''Current'' None None
         (agencySet E (''Current/Databases/'' @ js_string (obj_get payload ''name'') @ ''/'' @ o1) payload))) acc) (\<lambda>_. ?I (ys @ [x]))"
      unfolding x prod.case name .
  qed
  moreover have "having us (K \<union> fst ` set []) (created_too E K F) = having us K F"
    by (rule having_cong) (auto simp: created_too_def)
  ultimately show "totally E (having us K F) (for_each (\<lambda>(name, payload) _.
       and_then (if \<not> has local name
              then try_catch
                (and_then (createDatabase E (js_string (obj_get payload ''name''))) (\<lambda>_. returns (no_error payload)))
                (\<lambda>err. returns (with_error err (no_error payload)))
              else returns (no_error payload)) (\<lambda>payload.
       writeLocked E ''Current'' None None
         (agencySet E (''Current/Databases/'' @ js_string (obj_get payload ''name'') @ ''/'' @ o1) payload)))
     (enumerated planned) ()) (\<lambda>_. having us (K \<union> fst ` set planned) (created_too E K F))"
    by simp
qed

lemma total_dropLocalDatabases:
  assumes "''_system'' \<in> K"
  shows "totally E (having us K F) (dropLocalDatabases E planned)
     (\<lambda>_. having us {x \<in> K. has planned x \<or> take 1 x = ''_''} F)"
  unfolding dropLocalDatabases_def
proof (rule total_self_having, rule total_chain [OF total_use_system [OF assms]], rule total_local_databases)
  fix o1 and local :: "(string \<times> jsobj) list"
  assume local: "o1 = us" "distinct (map fst local)" "fst ` set local = K"
  have rest: "K - {x \<in> K. \<not> has planned x \<and> take 1 x \<noteq> ''_''} = {x \<in> K. has planned x \<or> take 1 x = ''_''}" by auto
  show "totally E (having us K F) (for_each (\<lambda>(name, _) _. if \<not> has planned name \<and> take 1 name \<noteq> ''_''
       then and_then (dropDatabase E name) (\<lambda>_. writeLocked E ''Current'' None None (dropDatabaseAgency E o1 name))
       else returns ()) (enumerated local) ()) (\<lambda>_. having us {x \<in> K. has planned x \<or> take 1 x = ''_''} F)"
    using databases.drop_some [of local K E us F "\<lambda>x. \<not> has planned x \<and> take 1 x \<noteq> ''_''"] local(2,3)
    unfolding local(1) drop_planned_def rest local(3) by simp
qed

lemma total_cleanups:
  assumes "''_system'' \<in> K"
  shows "totally E (having us K F) (cleanupCurrentDatabases E) (\<lambda>_. having us K F)"
    "totally E (having us K F) (cleanupCurrentCollections E planned) (\<lambda>_. having us K F)"
  unfolding cleanupCurrentDatabases_def cleanupCurrentCollections_def Let_def
  by (intro total_self_having total_chain [OF total_use_system [OF assms]] total_chain [OF total_queries(3)]
      total_local_databases total_for_each; auto simp: split_beta intro!: total_for_each total_if total_returns total_writeLocked silent_writers)+

lemma total_handleDatabaseChanges:
  assumes "names_match (getByPrefix plan ''Plan/Databases/'')" "''_system'' \<in> K"
  shows "totally E (having us K F) (handleDatabaseChanges E plan)
     (\<lambda>_. having us {x. has (getByPrefix plan ''Plan/Databases/'') x \<or> x \<in> K \<and> take 1 x = ''_''} (created_too E K F))"
proof -
  let ?P = "getByPrefix plan ''Plan/Databases/''"
  have rest: "{x \<in> K \<union> fst ` set ?P. has ?P x \<or> take 1 x = ''_''} = {x. has ?P x \<or> x \<in> K \<and> take 1 x = ''_''}"
    by (auto simp: has_iff)
  have "''_system'' \<in> {x. has ?P x \<or> x \<in> K \<and> take 1 x = ''_''}" using assms(2) by simp
  note clean = total_cleanups(1) [OF this]
  have drop: "totally E (having us (K \<union> fst ` set ?P) (created_too E K F)) (dropLocalDatabases E ?P)
      (\<lambda>_. having us {x. has ?P x \<or> x \<in> K \<and> take 1 x = ''_''} (created_too E K F))"
    using total_dropLocalDatabases [of "K \<union> fst ` set ?P" E us "created_too E K F" ?P] assms(2) unfolding rest by simp
  show ?thesis unfolding handleDatabaseChanges_def Let_def
    by (rule total_chain [OF total_createLocalDatabases [OF assms] total_chain [OF drop clean]])
qed

subsection \<open>Collections\<close>

text \<open>What the plan assigns to \<open>us\<close> among the collections of a database.\<close>

definition assigned :: "string \<Rightarrow> (string \<times> jsobj) list \<Rightarrow> string set" where
  "assigned us cs = {c. \<exists>(n, payload) \<in> set cs. (c, JStr us) \<in> set (shards_of payload)}"

text \<open>While the database \<open>d\<close> is in use, its collections are \<open>F d\<close> and \<open>X\<close>.\<close>

definition inside :: "string \<Rightarrow> string set \<Rightarrow> (string \<Rightarrow> string set) \<Rightarrow> string \<Rightarrow> string set \<Rightarrow> string \<Rightarrow> string set \<Rightarrow> (string \<Rightarrow> string set) \<Rightarrow> string \<Rightarrow> bool" where
  "inside us K F d X m N S u \<longleftrightarrow> u = d \<and> d \<in> K \<and> having us K (F(d := X)) m N S u"

lemma total_report: "totally E P (report_collection E database shard payload) (\<lambda>_. P)"
  unfolding report_collection_def by (rule total_writeLocked) (rule silent_writers)

lemma total_method_calls:
  assumes "\<forall>m N S u. P m N S u \<longrightarrow> c \<in> S u"
  shows "totally E P (load E c) (\<lambda>_. P)" "totally E P (unload E c) (\<lambda>_. P)" "totally E P (change_properties E c props) (\<lambda>_. P)"
    "totally E P (getIndexes E c) (\<lambda>_. P)" "totally E P (ensureIndex E c index) (\<lambda>_. P)" "totally E P (dropIndex E c index) (\<lambda>_. P)"
  unfolding load_def unload_def change_properties_def getIndexes_def ensureIndex_def dropIndex_def
  by (rule total_on_collection, use assms in blast)+

lemma total_keep: "totally E P (returns a) (\<lambda>_. P)"
  by (rule total_returns)

lemma total_pair: "(\<And>a b. p = (a, b) \<Longrightarrow> totally E P (f a b) Q) \<Longrightarrow> totally E P (case p of (a, b) \<Rightarrow> f a b) Q"
  by (cases p) simp

lemma total_pair_arg: "(\<And>a b. p = (a, b) \<Longrightarrow> totally E P (f a b x) Q) \<Longrightarrow> totally E P ((case p of (a, b) \<Rightarrow> f a b) x) Q"
  by (cases p) simp

lemma total_try_returns: "totally E P m (\<lambda>_. P) \<Longrightarrow> totally E P (try_catch (and_then m (\<lambda>_. returns a)) h) (\<lambda>_. P)"
  by (intro total_try total_chain [where R = "\<lambda>_. P"] total_keep)

lemma total_shard_work:
  assumes "\<forall>m N S u. P m N S u \<longrightarrow> c \<in> S u"
  shows "totally E P (update_status E ourselves database c local payload) (\<lambda>_. P)"
    "totally E P (update_properties E ourselves database c local payload) (\<lambda>_. P)"
    "totally E P (getIndexMap E c) (\<lambda>_. P)"
    "totally E P (create_indexes E ourselves database c indexes payload) (\<lambda>_. P)"
    "totally E P (drop_indexes E ourselves database c indexes payload) (\<lambda>_. P)"
  unfolding update_status_def update_properties_def getIndexMap_def create_indexes_def drop_indexes_def Let_def
  by (intro total_if total_chain [where R = "\<lambda>_. P"] total_keep total_report total_method_calls [OF assms] total_for_each
      total_try total_pair total_pair_arg; assumption)+


lemma inside_member: "\<forall>m N S u. inside us K F d X m N S u \<longrightarrow> c \<in> X \<longrightarrow> c \<in> S u"
  by (auto simp: inside_def having_def)

lemma inside_visited: "inside us K F d X m N S u \<longleftrightarrow> u = d \<and> d \<in> K \<and> m = us \<and> N = K \<and> S = (\<lambda>x. if x = d then X else if x \<in> K then F x else {})"
  by (auto simp: inside_def having_def fun_eq_iff)

lemma total_create_shard:
  "totally E (inside us K F d X) (create_shard E us d c payload) (\<lambda>_. inside us K F d (insert c X))"
  unfolding create_shard_def Let_def
  by (rule total_chain [OF total_create_collection total_chain [OF total_report total_keep]])
    (auto simp: inside_visited fun_eq_iff)

lemma total_handle_shard:
  assumes "fst ` set local \<subseteq> X"
  shows "totally E (inside us K F d X) (handle_shard E us d local (c, server) payload)
     (\<lambda>_. inside us K F d (if server = JStr us then insert c X else X))"
proof (cases "server = JStr us")
  case True
  let ?Q = "inside us K F d (insert c X)"
  have mem: "\<forall>m N S u. ?Q m N S u \<longrightarrow> c \<in> S u" using inside_member by blast
  have "totally E (inside us K F d X) (case map_of local c of
           None \<Rightarrow> create_shard E us d c payload
         | Some localCollection \<Rightarrow>
             and_then (update_status E us d c localCollection payload)
               (update_properties E us d c localCollection)) (\<lambda>_. ?Q)"
  proof (cases "map_of local c")
    case None
    then show ?thesis by (simp add: total_create_shard)
  next
    case (Some localCollection)
    then have "c \<in> X" using assms map_of_SomeD [OF Some] by (force simp: image_subset_iff)
    then have "inside us K F d X = ?Q" by (simp add: insert_absorb)
    then show ?thesis using Some by (simp add: total_chain [OF total_shard_work(1) [OF mem] total_shard_work(2) [OF mem]])
  qed
  moreover have "totally E ?Q (and_then (getIndexMap E c) (\<lambda>indexes. if obj_has p ''indexes''
       then and_then (create_indexes E us d c indexes p) (\<lambda>(indexes, payload).
         drop_indexes E us d c indexes payload)
       else returns p)) (\<lambda>_. ?Q)" for p
    by (intro total_chain [where R = "\<lambda>_. ?Q"] total_if total_keep total_pair total_shard_work [OF mem])
  ultimately show ?thesis unfolding handle_shard_def True by (simp add: total_chain)
next
  case False
  then show ?thesis by (simp add: handle_shard_def total_keep)
qed

lemma total_handle_collection:
  assumes "fst ` set local \<subseteq> X"
  shows "totally E (inside us K F d X) (handle_collection E us d local payload)
     (\<lambda>_. inside us K F d (X \<union> {c. (c, JStr us) \<in> set (shards_of payload)}))"
proof -
  let ?I = "\<lambda>ys. inside us K F d (X \<union> {c. (c, JStr us) \<in> set ys})"
  have "totally E (?I []) (for_each (handle_shard E us d local) (shards_of payload) p) (\<lambda>_. ?I (shards_of payload))" for p
  proof (rule total_for_each_visited [where I = ?I])
    fix ys zs and x :: "string \<times> jsval" and acc
    obtain c server where x: "x = (c, server)" by fastforce
    have "(if server = JStr us then insert c (X \<union> {c. (c, JStr us) \<in> set ys}) else X \<union> {c. (c, JStr us) \<in> set ys})
        = X \<union> {c. (c, JStr us) \<in> set (ys @ [x])}" by (auto simp: x)
    with total_handle_shard [of local "X \<union> {c. (c, JStr us) \<in> set ys}" E us K F d c server acc] assms
    show "totally E (?I ys) (handle_shard E us d local x acc) (\<lambda>_. ?I (ys @ [x]))" by (auto simp: x)
  qed
  then show ?thesis by (simp add: handle_collection_def)
qed

lemma total_create_in_database:
  "totally E (inside us K F d X) (create_in_database E us d cs) (\<lambda>_. inside us K F d (X \<union> assigned us cs))"
  unfolding create_in_database_def
proof (rule total_chain)
  show "totally E (inside us K F d X) (getLocalCollections E) (\<lambda>r m N S u. inside us K F d X m N S u \<and> fst ` set r \<subseteq> X)"
    by (rule total_weaken [OF total_queries(2) [where P = "inside us K F d X"]]) (auto simp: inside_visited)
next
  fix r :: "(string \<times> jsobj) list"
  let ?I = "\<lambda>ys. inside us K F d (X \<union> assigned us ys)"
  have "totally E (?I []) (for_each (\<lambda>(_, payload) _. and_then (handle_collection E us d r payload) (\<lambda>_. returns ()))
      (enumerated cs) ()) (\<lambda>_. ?I (enumerated cs))" if "fst ` set r \<subseteq> X"
  proof (rule total_for_each_visited [where I = ?I])
    fix ys zs and x :: "string \<times> jsobj" and acc :: unit
    obtain n payload where x: "x = (n, payload)" by fastforce
    have eq: "X \<union> assigned us ys \<union> {c. (c, JStr us) \<in> set (shards_of payload)} = X \<union> assigned us (ys @ [x])"
      by (auto simp: assigned_def x)
    have "totally E (?I ys) (handle_collection E us d r payload) (\<lambda>_. ?I (ys @ [x]))"
      using total_handle_collection [of r "X \<union> assigned us ys" E us K F d payload] that unfolding eq by blast
    then show "totally E (?I ys) ((case x of (_, payload) \<Rightarrow> \<lambda>_. and_then (handle_collection E us d r payload) (\<lambda>_. returns ())) acc) (\<lambda>_. ?I (ys @ [x]))"
      by (simp add: x total_chain [OF _ total_keep])
  qed
  moreover have "assigned us [] = {}" "assigned us (enumerated cs) = assigned us cs" by (auto simp: assigned_def)
  ultimately show "totally E (\<lambda>m N S u. inside us K F d X m N S u \<and> fst ` set r \<subseteq> X)
      (for_each (\<lambda>(_, payload) _. and_then (handle_collection E us d r payload) (\<lambda>_. returns ())) (enumerated cs) ())
      (\<lambda>_. inside us K F d (X \<union> assigned us cs))"
    by (intro total_given) simp
qed

lemma total_in_database:
  assumes "d \<in> K" "totally E (inside us K F d (F d)) act (\<lambda>_. inside us K F d Y)"
  shows "totally E (having us K F) (in_database E d act) (\<lambda>_. having us K (F(d := Y)))"
  unfolding in_database_def
proof (rule total_using, rule total_chain)
  show "totally E (having us K F) (useDatabase E d) (\<lambda>_. inside us K F d (F d))"
    by (rule total_use) (use assms(1) in \<open>auto simp: inside_def having_def\<close>)
  show "totally E (inside us K F d (F d)) (try_catch act h) (\<lambda>_. having us K (F(d := Y)))" for h
    by (rule total_try, rule total_weaken [OF assms(2)]) (auto simp: inside_def)
qed

lemma total_createLocalCollections:
  assumes "''_system'' \<in> K"
  shows "totally E (having us K F) (createLocalCollections E planned)
     (\<lambda>_. having us K (\<lambda>x. F x \<union> {c. \<exists>cs. (x, cs) \<in> set planned \<and> c \<in> assigned us cs}))"
  unfolding createLocalCollections_def
proof (rule total_self_having, rule total_chain [OF total_use_system [OF assms]], rule total_local_databases)
  fix o1 and local :: "(string \<times> jsobj) list"
  assume local: "o1 = us" "fst ` set local = K"
  let ?I = "\<lambda>ys. having us K (\<lambda>x. F x \<union> {c. \<exists>cs. (x, cs) \<in> set ys \<and> c \<in> assigned us cs})"
  have "totally E (?I []) (for_each (\<lambda>(database, collections) _.
       if has local database then in_database E database (create_in_database E o1 database collections) else returns ())
     (enumerated planned) ()) (\<lambda>_. ?I (enumerated planned))"
  proof (rule total_for_each_visited [where I = ?I])
    fix ys zs and x :: "string \<times> (string \<times> jsobj) list" and acc :: unit
    obtain d cs where x: "x = (d, cs)" by fastforce
    let ?G = "\<lambda>x. F x \<union> {c. \<exists>cs. (x, cs) \<in> set ys \<and> c \<in> assigned us cs}"
    have "d \<in> K \<Longrightarrow> having us K (?G(d := ?G d \<union> assigned us cs)) = ?I (ys @ [x])"
      "d \<notin> K \<Longrightarrow> having us K ?G = ?I (ys @ [x])"
      by (rule having_cong; auto simp: x)+
    then show "totally E (?I ys) ((case x of (database, collections) \<Rightarrow> \<lambda>_.
       if has local database then in_database E database (create_in_database E o1 database collections) else returns ()) acc)
      (\<lambda>_. ?I (ys @ [x]))"
      using total_in_database [of d K E us ?G _ "?G d \<union> assigned us cs", OF _ total_create_in_database] total_keep [of E "?I ys" "()"]
      by (auto simp: x has_iff local)
  qed
  then show "totally E (having us K F) (for_each (\<lambda>(database, collections) _.
       if has local database then in_database E database (create_in_database E o1 database collections) else returns ())
     (enumerated planned) ()) (\<lambda>_. having us K (\<lambda>x. F x \<union> {c. \<exists>cs. (x, cs) \<in> set planned \<and> c \<in> assigned us cs}))"
    by simp
qed

definition drop_shard :: "environment \<Rightarrow> string \<Rightarrow> string \<Rightarrow> jsobj \<Rightarrow> (node, unit) statement" where
  "drop_shard E database collection data = and_then (db_drop E collection) (\<lambda>_.
     writeLocked E ''Current'' None None (dropCollectionAgency E database collection (js_string (obj_get data ''planId''))))"

interpretation shards: dropping E "\<lambda>X. inside us K F d X" "drop_shard E database" for E us K F d database
proof unfold_locales
  fix k :: string and X v
  assume "k \<in> X"
  then show "totally E (inside us K F d X) (drop_shard E database k v) (\<lambda>_. inside us K F d (X - {k}))"
    unfolding drop_shard_def
    by (intro total_chain [OF total_drop_collection total_writeLocked])
      (auto intro: silent_writers simp: inside_visited fun_eq_iff)
qed

text \<open>A local collection that is neither a system collection nor ours according to the plan.\<close>

definition stray :: "string \<Rightarrow> bool \<Rightarrow> jsobj \<Rightarrow> string \<Rightarrow> bool" where
  "stray us removeEvery shardMap c \<longleftrightarrow>
     take 1 c \<noteq> ''_'' \<and> (removeEvery \<or> \<not> has shardMap c \<or> map_of shardMap c \<noteq> Some (JStr us))"

lemma total_drop_in_database:
  "totally E (inside us K F d X) (drop_in_database E us removeEvery shardMap database)
     (\<lambda>_. inside us K F d {c \<in> X. \<not> stray us removeEvery shardMap c})"
  unfolding drop_in_database_def
proof (rule total_chain)
  show "totally E (inside us K F d X) (getLocalCollections E)
      (\<lambda>r m N S u. inside us K F d X m N S u \<and> (fst ` set r = {c \<in> X. take 1 c \<noteq> ''_''} \<and> distinct (map fst r)))"
    by (rule total_weaken [OF total_queries(2) [where P = "inside us K F d X"]]) (auto simp: inside_visited)
next
  fix r :: "(string \<times> jsobj) list"
  let ?R = "\<lambda>c. removeEvery \<or> \<not> has shardMap c \<or> map_of shardMap c \<noteq> Some (JStr us)"
  let ?loop = "for_each (\<lambda>(collection, data) _. if ?R collection
       then and_then (db_drop E collection) (\<lambda>_. writeLocked E ''Current'' None None
           (dropCollectionAgency E database collection (js_string (obj_get data ''planId''))))
       else returns ()) (enumerated r) ()"
  have "totally E (inside us K F d X) ?loop (\<lambda>_. inside us K F d {c \<in> X. \<not> stray us removeEvery shardMap c})"
    if r: "fst ` set r = {c \<in> X. take 1 c \<noteq> ''_''}" and d: "distinct (map fst r)"
  proof -
    have "X - {c \<in> fst ` set r. ?R c} = {c \<in> X. \<not> stray us removeEvery shardMap c}"
      unfolding r by (auto simp: stray_def)
    with shards.drop_some [of r X E us K F d ?R database] r d show ?thesis
      unfolding drop_shard_def by auto
  qed
  then show "totally E (\<lambda>m N S u. inside us K F d X m N S u \<and> (fst ` set r = {c \<in> X. take 1 c \<noteq> ''_''} \<and> distinct (map fst r)))
     ?loop (\<lambda>_. inside us K F d {c \<in> X. \<not> stray us removeEvery shardMap c})"
    by (intro total_given, elim conjE)
qed

lemma total_dropLocalCollections:
  assumes "''_system'' \<in> K"
  shows "totally E (having us K F) (dropLocalCollections E planned)
     (\<lambda>_. having us K (\<lambda>x. {c \<in> F x. \<not> stray us (\<not> has planned x) (getShardMap planned) c}))"
  unfolding dropLocalCollections_def Let_def
proof (rule total_self_having, rule total_chain [OF total_use_system [OF assms]], rule total_local_databases)
  fix o1 and local :: "(string \<times> jsobj) list"
  assume local: "o1 = us" "fst ` set local = K"
  let ?G = "\<lambda>(ys :: (string \<times> jsobj) list) x. if x \<in> fst ` set ys then {c \<in> F x. \<not> stray us (\<not> has planned x) (getShardMap planned) c} else F x"
  have "totally E (having us K (?G [])) (for_each (\<lambda>(database, _) _.
       in_database E database (drop_in_database E o1 (\<not> has planned database) (getShardMap planned) database))
     (enumerated local) ()) (\<lambda>_. having us K (?G (enumerated local)))"
  proof (rule total_for_each_visited [where I = "\<lambda>ys. having us K (?G ys)"])
    fix ys zs and x :: "string \<times> jsobj" and acc :: unit assume xs: "enumerated local = ys @ x # zs"
    obtain d v where x: "x = (d, v)" by fastforce
    have "(d, v) \<in> set local" unfolding set_enumerated [of local, symmetric] xs x by simp
    then have d: "d \<in> K" using local(2) by force
    have "having us K ((?G ys)(d := {c \<in> ?G ys d. \<not> stray us (\<not> has planned d) (getShardMap planned) c})) = having us K (?G (ys @ [x]))"
      by (rule having_cong) (auto simp: x)
    with total_in_database [OF d total_drop_in_database, of E us "?G ys" "\<not> has planned d" "getShardMap planned" d]
    show "totally E (having us K (?G ys)) ((case x of (database, _) \<Rightarrow> \<lambda>_.
        in_database E database (drop_in_database E o1 (\<not> has planned database) (getShardMap planned) database)) acc)
      (\<lambda>_. having us K (?G (ys @ [x])))"
      unfolding x prod.case local(1) by simp
  qed
  moreover have "having us K (?G (enumerated local)) = having us K (\<lambda>x. {c \<in> F x. \<not> stray us (\<not> has planned x) (getShardMap planned) c})"
    by (rule having_cong) (auto simp: local(2))
  ultimately show "totally E (having us K F) (for_each (\<lambda>(database, _) _.
       in_database E database (drop_in_database E o1 (\<not> has planned database) (getShardMap planned) database))
     (enumerated local) ()) (\<lambda>_. having us K (\<lambda>x. {c \<in> F x. \<not> stray us (\<not> has planned x) (getShardMap planned) c}))"
    by simp
qed

lemma total_handleCollectionChanges:
  assumes "''_system'' \<in> K"
  shows "totally E (having us K F) (handleCollectionChanges E plan)
     (\<lambda>_. having us K (\<lambda>x. let planned = getByPrefix3d plan ''Plan/Collections/'' in
        {c \<in> F x \<union> {c. \<exists>cs. (x, cs) \<in> set planned \<and> c \<in> assigned us cs}.
           \<not> stray us (\<not> has planned x) (getShardMap planned) c}))"
  unfolding handleCollectionChanges_def Let_def
  by (rule total_chain [OF total_createLocalCollections [OF assms]
        total_chain [OF total_dropLocalCollections [OF assms] total_cleanups(2) [OF assms]]])

text \<open>The collections of the database \<open>d\<close> that are no system collections.\<close>

definition user_collections :: "node \<Rightarrow> string \<Rightarrow> string set" where
  "user_collections s d = {c \<in> shards_in (n_databases s) d. take 1 c \<noteq> ''_''}"

text \<open>The shards of \<open>d\<close> that the plan gives to \<open>us\<close>, and those it gives to \<open>us\<close> in any database.\<close>

definition assigned_in :: "(string \<times> jsobj) list \<Rightarrow> string \<Rightarrow> string \<Rightarrow> string set" where
  "assigned_in plan us d = {c. \<exists>cs. (d, cs) \<in> set (planned_shards plan) \<and> c \<in> assigned us cs}"

definition responsible :: "(string \<times> jsobj) list \<Rightarrow> string \<Rightarrow> string set" where
  "responsible plan us = {c. map_of (getShardMap (planned_shards plan)) c = Some (JStr us)}"

definition well_planned :: "environment \<Rightarrow> (string \<times> jsobj) list \<Rightarrow> bool" where
  "well_planned E plan \<longleftrightarrow> names_match (planned_databases plan) \<and> (\<forall>c \<in> set (system_collections E). take 1 (lc_name c) = ''_'')"

text \<open>The databases and the collections that a node with this plan ends up with.\<close>

definition target_databases :: "(string \<times> jsobj) list \<Rightarrow> node \<Rightarrow> string set" where
  "target_databases plan s = {d. has (planned_databases plan) d \<or> d \<in> names (n_databases s) \<and> take 1 d = ''_''}"

definition target_collections :: "(string \<times> jsobj) list \<Rightarrow> node \<Rightarrow> string \<Rightarrow> string set" where
  "target_collections plan s d =
     (if has (planned_shards plan) d
      then {c \<in> assigned_in plan (n_self s) d \<union> user_collections s d. c \<in> responsible plan (n_self s) \<and> take 1 c \<noteq> ''_''}
      else {})"

lemma handleChanges_reaches_target:
  assumes "handleChanges E plan s = (r, t)" "faultless E" "\<not> n_locked s" "''_system'' \<in> names (n_databases s)" "well_planned E plan"
  shows "r = Inr () \<and> \<not> n_locked t \<and> n_self t = n_self s \<and> names (n_databases t) = target_databases plan s
    \<and> (\<forall>d \<in> target_databases plan s. user_collections t d = target_collections plan s d)"
proof -
  let ?us = "n_self s" and ?L = "names (n_databases s)" and ?G = "shards_in (n_databases s)" and ?K = "target_databases plan s"
  let ?F = "\<lambda>x. {c \<in> created_too E ?L ?G x \<union> assigned_in plan ?us x.
      \<not> stray ?us (\<not> has (planned_shards plan) x) (getShardMap (planned_shards plan)) c}"
  have wf: "names_match (planned_databases plan)" "\<forall>c \<in> set (system_collections E). take 1 (lc_name c) = ''_''"
    using assms(5) by (auto simp: well_planned_def)
  have sys: "''_system'' \<in> ?K" using assms(4) by (simp add: target_databases_def)
  have dbs: "totally E (having ?us ?L ?G) (handleDatabaseChanges E plan) (\<lambda>_. having ?us ?K (created_too E ?L ?G))"
    unfolding target_databases_def planned_databases_def
    by (rule total_handleDatabaseChanges [OF wf(1) [unfolded planned_databases_def] assms(4)])
  have cols: "totally E (having ?us ?K (created_too E ?L ?G)) (handleCollectionChanges E plan) (\<lambda>_. having ?us ?K ?F)"
    using total_handleCollectionChanges [OF sys, of E ?us "created_too E ?L ?G" plan]
    unfolding planned_shards_def [symmetric] assigned_in_def by (simp add: Let_def)
  have "totally E (having ?us ?L ?G) (handleChanges E plan) (\<lambda>_. having ?us ?K ?F)"
    unfolding handleChanges_def by (rule total_chain [OF dbs cols])
  moreover have "idle (having ?us ?L ?G) s" using assms(3) by (auto simp: idle_def view_def having_def)
  ultimately have "r = Inr () \<and> idle (having ?us ?K ?F) t"
    using assms(1,2) by (rule total_result)
  then have t: "r = Inr ()" "\<not> n_locked t" "n_self t = ?us" "names (n_databases t) = ?K"
      "\<And>d. d \<in> ?K \<Longrightarrow> shards_in (n_databases t) d = ?F d"
    unfolding idle_def view_def having_def by simp_all
  moreover have "user_collections t d = target_collections plan s d" if "d \<in> ?K" for d
    using wf(2) that
    by (auto simp: user_collections_def target_collections_def t(5) stray_def responsible_def has_def created_too_def)
  ultimately show ?thesis by simp
qed

text \<open>
  C34: When no call fails, the plan change succeeds. Then the server has exactly the planned databases and
  the system databases it had, and in each, if the plan has collections there, exactly those
  shards for which it is responsible that the plan gives to it in this database or that were there
  before.
\<close>

theorem plan_is_applied:
  assumes "handleChanges E plan s = (r, t)" "faultless E" "\<not> n_locked s" "''_system'' \<in> names (n_databases s)" "well_planned E plan"
  shows "r = Inr () \<and> names (n_databases t) = target_databases plan s
    \<and> (\<forall>d \<in> names (n_databases t). user_collections t d = target_collections plan s d)"
  using handleChanges_reaches_target [OF assms] by simp

theorem plan_is_applied_witness:
  "names (n_databases (snd (handleChanges (example_environment (\<lambda>_ _. None)) example_plan
      (example_node [(''_system'', []), (''b'', [example_shard ''s9''])])))) =
   target_databases example_plan (example_node [(''_system'', []), (''b'', [example_shard ''s9''])])"
proof -
  let ?E = "example_environment (\<lambda>_ _. None)" and ?s = "example_node [(''_system'', []), (''b'', [example_shard ''s9''])]"
  have "faultless ?E" "\<not> n_locked ?s" "''_system'' \<in> names (n_databases ?s)"
    by (simp_all add: faultless_def example_environment_def example_node_def)
  moreover have "well_planned ?E example_plan" by code_simp
  ultimately show ?thesis
    using plan_is_applied [of ?E example_plan ?s "fst (handleChanges ?E example_plan ?s)" "snd (handleChanges ?E example_plan ?s)"]
    by simp
qed

text \<open>
  Applying the plan once more changes neither the databases nor the collections.
\<close>

theorem plan_is_stable:
  assumes "handleChanges E plan s = (r, t)" "handleChanges E plan t = (r', t')" "faultless E" "\<not> n_locked s"
    "''_system'' \<in> names (n_databases s)" "well_planned E plan"
  shows "r' = Inr () \<and> names (n_databases t') = names (n_databases t)
    \<and> (\<forall>d \<in> names (n_databases t). user_collections t' d = user_collections t d)"
proof -
  note once = handleChanges_reaches_target [OF assms(1,3-6)]
  from once assms(5) have "\<not> n_locked t" "''_system'' \<in> names (n_databases t)" by (auto simp: target_databases_def)
  note twice = handleChanges_reaches_target [OF assms(2,3) this assms(6)]
  have "target_databases plan t = target_databases plan s" using once by (auto simp: target_databases_def)
  moreover have "target_collections plan t d = target_collections plan s d" if "d \<in> target_databases plan s" for d
    using once that by (auto simp: target_collections_def)
  ultimately show ?thesis using once twice by auto
qed

theorem plan_is_stable_witness:
  "names (n_databases (snd (handleChanges (example_environment (\<lambda>_ _. None)) example_plan
      (snd (handleChanges (example_environment (\<lambda>_ _. None)) example_plan (example_node [(''_system'', []), (''b'', [])])))))) =
   names (n_databases (snd (handleChanges (example_environment (\<lambda>_ _. None)) example_plan (example_node [(''_system'', []), (''b'', [])]))))"
proof -
  let ?E = "example_environment (\<lambda>_ _. None)" and ?s = "example_node [(''_system'', []), (''b'', [])]"
  let ?h = "handleChanges ?E example_plan"
  have "faultless ?E" "\<not> n_locked ?s" "''_system'' \<in> names (n_databases ?s)"
    by (simp_all add: faultless_def example_environment_def example_node_def)
  moreover have "well_planned ?E example_plan" by code_simp
  ultimately show ?thesis
    using plan_is_stable [of ?E example_plan ?s "fst (?h ?s)" "snd (?h ?s)" "fst (?h (snd (?h ?s)))" "snd (?h (snd (?h ?s)))"]
    by simp
qed

end
