(* ===== verification/Spec2Isabelle.thy ===== *)
theory Spec2Isabelle
  imports AQL_Aggregate AQL_Documents AQL_Strings Binary_Heap Traverser Foxx_Invariants Routing_Requests Cluster_Faults Cluster_Applied
begin

text \<open>
  A verification library for parts of ArangoDB that are pure JavaScript logic: the runtime library of
  the query language AQL, \<open>js/server/modules/org/arangodb/aql.js\<close>, the graph traverser,
  \<open>js/common/modules/org/arangodb/graph/traversal.js\<close>, with the binary heap
  \<open>js/common/modules/org/arangodb/heap.js\<close> that its shortest path searches use, the job queues of Foxx, the
  routing of requests, and the changes of the plan on a database server of a cluster. A compiled query calls
  the functions of the runtime one by one on values; a traversal calls its data source, expander, filter and
  visitor, which are parameters of the model.

  JavaScript. \<open>JS_Number\<close> has IEEE doubles as rationals with infinities and NaN, with correct rounding,
  printing and parsing; \<open>JS_Value\<close> has the values, their conversions and the operators the code uses.
  Negative and positive zero are one number, strings are lists of code units below 256, an object is the list
  of its own properties in the order of creation, and index keys enumerate first.

  AQL runtime, in the order of the file: \<open>AQL_Types\<close> (warnings, type weights, cloning, normalisation, key
  lists, member access), \<open>AQL_Compare\<close> (the relational operators), \<open>AQL_Cast\<close> (casts, type checks, logic,
  arithmetic), \<open>AQL_Lists\<close>, \<open>AQL_Aggregate\<close> and \<open>AQL_Documents\<close>. A function that can warn returns its
  value and the list of the warnings. Each definition has the name of the function it models.
  The collation \<open>COMPARE_STRING\<close> is a parameter with the laws of a comparator, stated in the locale
  \<open>comparator\<close> and its extensions, and \<open>Math.sqrt\<close> is a parameter. The theorems give the order and the
  set semantics of values, the results of the list functions on every branch, exactness of sums, the
  round trips of the inverse functions and the runs that end in an error.
  \<open>JS_String\<close> has the string methods and a matcher for regular expressions with the priorities of backtracking, and
  \<open>AQL_Strings\<close> the string functions on them: \<open>LIKE\<close> refines a specification of its patterns, \<open>SPLIT\<close>, \<open>SUBSTITUTE\<close>
  and \<open>CONCAT_SEPARATOR\<close> agree, and trimming and finding are characterised.

  Binary heap. \<open>Binary_Heap\<close> models the file and interprets the locale of a priority queue by it.

  Graph traverser. \<open>Traversal\<close> has the configuration, the data source over a collection, the expanders,
  visitors, filters and uniqueness checks, and the loop all searches share: \<open>search_loop\<close> counts the
  iterations as the code counts \<open>visitCounter\<close>, and ends because \<open>maxIterations\<close> bounds them. The strategies
  are step functions on their own state under this loop: \<open>Traversal_DFS\<close> (stack, first element on top),
  \<open>Traversal_BFS\<close> (list of items with the index of their parents), \<open>Traversal_Nodes\<close>,
  \<open>Traversal_Dijkstra\<close> and \<open>Traversal_Paths\<close> (store of nodes, heap of their ids, ordered by the scores the
  nodes have when the heap moves). Following parents is bounded by the number of nodes, which is
  enough because no node is reached twice. \<open>Traverser\<close> has the constructor with its validation and \<open>traverse\<close>.
  The theorems say that visits are paths of the graph, simple where uniqueness asks for it, that the
  searches end within the bound and visit exactly the reachable vertices, in which order, and which are shortest.

  Job queues. \<open>Foxx_Queues\<close> models \<open>js/server/modules/org/arangodb/foxx/queues.js\<close> and its manager and worker
  as a state machine: the state has the collections \<open>_queues\<close> and \<open>_jobs\<close>, the maps of the module and the
  tasks that run; \<open>handle\<close> does one event, and \<open>queue_reach\<close> are the states of all interleavings. The outcome
  of a job, the clock, \<open>Math.random\<close> and evaluated source texts are parameters. \<open>Foxx_Invariants\<close> proves the
  invariants through the locale \<open>safe_machine\<close>, interpreted once for each of them, with the events that each
  invariant rules out: \<open>keeps_limits\<close> (nobody sets a limit below the jobs in progress) and \<open>no_interference\<close>
  (nobody aborts or resets a job, which \<open>running_job_not_protected\<close> shows to be needed).

  Request routing. \<open>JS_RegExp\<close> reads the source text of regular expressions and decides \<open>test\<close>; without anchors and
  look-ahead an expression matches the occurrences of the words of its language. \<open>Routing\<close> models
  \<open>js/server/modules/org/arangodb/actions.js\<close>: the callbacks of routes, \<open>splitUrl\<close>, the routing tree and its flattening,
  \<open>firstRouting\<close>, \<open>nextRouting\<close> and \<open>routeRequest\<close>. Handlers are trees of interaction whose nodes are calls of \<open>next\<close>;
  modules, compiled texts and the texts of routes in messages are parameters. The fuel of \<open>execute\<close> bounds how deep calls of
  \<open>next\<close> are nested; one more than the length of the list is enough without restarts, and with restarts no
  fuel may be enough. The property \<open>route\<close> that is attached to exceptions is left out, and entries of equal priority
  keep their order, as they do in the engine for up to ten of them. \<open>Routing_Match\<close> shows what the expressions of plain parts
  match, \<open>Routing_Tree\<close> which paths the tree has, in which order, and which routes answer a request, and
  \<open>Routing_Requests\<close> how a request runs through the handlers.

  Cluster. \<open>Cluster_Plan\<close> models \<open>js/server/modules/org/arangodb/cluster.js\<close> from \<open>handlePlanChange\<close> down: a
  database server creates and drops databases and shards, changes their properties and indexes, and reports what it
  did to the agency under a write lock. The code is written in the statements of \<open>JS_Action\<close>, which change a state and
  may throw, with rules for total correctness (\<open>triple\<close>). Its state is the node of \<open>Cluster_Node\<close>: the databases with
  their collections, the agency, the lock, and the history of the native calls. These calls are not JavaScript; each of
  them may fail with any exception, as the environment decides from the history, and what they compute from
  their arguments is the environment's too. \<open>Cluster_Rules\<close> has the rules of the calls over a view of the node (its
  name, its databases, their collections, the database in use). \<open>Cluster_Invariant\<close> states in the locales
  \<open>calls_invariant\<close> and \<open>plan_invariant\<close> what the calls of a phase must keep so that the whole change keeps it; they are
  interpreted for the planned data (\<open>kept\<close>, in \<open>Cluster_Safety\<close>, which also follows the lock through the history) and for a
  shard that cannot be created (\<open>lost\<close>, in \<open>Cluster_Faults\<close>). \<open>Cluster_Applied\<close> is about the run
  without failures, which reaches exactly the planned databases and shards and is stable when repeated; its
  locale \<open>dropping\<close>, the loop that drops what is not wanted, is interpreted for databases and for shards.

  Not modelled: the rest of the cluster module (\<open>shardList\<close>, \<open>wait\<close>, \<open>bootstrapDbServers\<close> and accessors of
  the server state); functions that read or write collections and indexes, call registered functions by name,
  use the clock, random numbers, geo or full text indexes; ShapedJson documents; data sources over the
  database's graph objects.
\<close>

end
